(* ===== verification/Prelude.thy ===== *)
theory Prelude
  imports Main
begin

text \<open>
  Shared vocabulary of the development: C strings and buffers as character lists, the outcome
  of C code that can exit or go wrong, a fault-propagating sequencing operator, the constants
  of the C environment, and two generic interfaces (a machine with an invariant, a sink that
  is fed in chunks) whose lemmas the component theories reuse by interpretation.
\<close>

section \<open>Characters, C strings and buffers\<close>

abbreviation NUL :: char where "NUL \<equiv> CHR 0x00"
abbreviation LF :: char where "LF \<equiv> CHR 0x0A"
abbreviation CR :: char where "CR \<equiv> CHR 0x0D"

text \<open>
  A block of memory is a list of characters. A C string is the part of it before the first
  terminator; the terminator itself is not stored in a value of type \<^typ>\<open>string\<close>.
\<close>

type_synonym buffer = "char list"

definition cstr :: "buffer \<Rightarrow> string" where
  "cstr b = takeWhile (\<lambda>c. c \<noteq> NUL) b"

text \<open>\<open>index\<close>/\<open>strchr\<close> and \<open>memchr\<close>: the offset of the first occurrence.\<close>

fun c_index :: "buffer \<Rightarrow> char \<Rightarrow> nat option" where
  "c_index [] c = None"
| "c_index (x # xs) c = (if x = c then Some 0 else map_option Suc (c_index xs c))"

text \<open>\<open>strrchr\<close>: the offset of the last occurrence.\<close>

fun c_rindex :: "buffer \<Rightarrow> char \<Rightarrow> nat option" where
  "c_rindex [] c = None"
| "c_rindex (x # xs) c =
     (case c_rindex xs c of Some i \<Rightarrow> Some (Suc i) | None \<Rightarrow> if x = c then Some 0 else None)"

text \<open>
  \<open>strncmp (a, b, n) == 0\<close> for two C strings: they agree on their first \<open>n\<close> characters,
  the terminators included.
\<close>

definition strncmp_eq :: "string \<Rightarrow> string \<Rightarrow> nat \<Rightarrow> bool" where
  "strncmp_eq a b n \<longleftrightarrow> take n (a @ [NUL]) = take n (b @ [NUL])"

text \<open>
  \<open>strncpy (dest, src, n)\<close> writes exactly \<open>n\<close> characters: those of \<open>src\<close>, padded
  with terminators.
\<close>

definition c_strncpy :: "buffer \<Rightarrow> string \<Rightarrow> nat \<Rightarrow> buffer" where
  "c_strncpy dest src n = take n (src @ replicate n NUL) @ drop n dest"

text \<open>\<open>snprintf (buf, n, \<dots>)\<close>: what a buffer of size \<open>n\<close> keeps of the formatted text.\<close>

definition snprintf_text :: "nat \<Rightarrow> string \<Rightarrow> string" where
  "snprintf_text n s = take (n - 1) s"

text \<open>The decimal and zero-padded conversions \<open>%d\<close> and \<open>%0nd\<close> for non-negative values.\<close>

definition digit_char :: "nat \<Rightarrow> char" where
  "digit_char d = char_of (48 + d)"

fun dec :: "nat \<Rightarrow> string" where
  "dec n = (if n < 10 then [digit_char n] else dec (n div 10) @ [digit_char (n mod 10)])"

declare dec.simps [simp del]

definition pad0 :: "nat \<Rightarrow> nat \<Rightarrow> string" where
  "pad0 w n = replicate (w - length (dec n)) (CHR ''0'') @ dec n"

text \<open>Constants of the C environment the sources use (Linux values).\<close>

definition MAXPATHLEN :: nat where "MAXPATHLEN = 4096"
definition BUFSIZ :: nat where "BUFSIZ = 8192"

section \<open>Outcomes of C code\<close>

text \<open>
  A \<^term>\<open>stop\<close> is how control does not come back from a function: the process called
  \<open>exit\<close>, it did something C gives no meaning to, or a loop in it never ends.
\<close>

datatype fault = Null_Deref | Out_Of_Bounds
datatype stop = Exited int | Faulted fault | Diverged

definition EXIT_SUCCESS :: int where "EXIT_SUCCESS = 0"
definition EXIT_FAILURE :: int where "EXIT_FAILURE = 1"

fun bindR :: "'e + 'a \<Rightarrow> ('a \<Rightarrow> 'e + 'b) \<Rightarrow> 'e + 'b" where
  "bindR (Inl e) f = Inl e"
| "bindR (Inr a) f = f a"

named_theorems result_iff

lemma bindR_Inr_iff [result_iff]: "bindR m f = Inr y \<longleftrightarrow> (\<exists>x. m = Inr x \<and> f x = Inr y)"
  by (cases m) auto

lemma bindR_Inl_iff [result_iff]:
  "bindR m f = Inl e \<longleftrightarrow> m = Inl e \<or> (\<exists>x. m = Inr x \<and> f x = Inl e)"
  by (cases m) auto

lemma bindR_cong [fundef_cong]:
  "m = m' \<Longrightarrow> (\<And>x. m' = Inr x \<Longrightarrow> f x = g x) \<Longrightarrow> bindR m f = bindR m' g"
  by (cases m') auto

text \<open>Sequencing of operations on a state, each of which may stop the program.\<close>

definition bindM ::
  "('s \<Rightarrow> (stop + 'a) \<times> 's) \<Rightarrow> ('a \<Rightarrow> 's \<Rightarrow> (stop + 'b) \<times> 's) \<Rightarrow> 's \<Rightarrow> (stop + 'b) \<times> 's" where
  "bindM m k s = (case m s of (Inl e, t) \<Rightarrow> (Inl e, t) | (Inr a, t) \<Rightarrow> k a t)"

lemma bindM_simps [simp]:
  "m s = (Inr a, t) \<Longrightarrow> bindM m k s = k a t"
  "m s = (Inl e, t) \<Longrightarrow> bindM m k s = (Inl e, t)"
  by (simp_all add: bindM_def)

lemma bindM_cong [fundef_cong]:
  "m s = m' s \<Longrightarrow> (\<And>a t. m' s = (Inr a, t) \<Longrightarrow> k a t = k' a t) \<Longrightarrow> bindM m k s = bindM m' k' s"
  by (auto simp: bindM_def split: prod.splits sum.splits)

section \<open>Lemmas on buffers and strings\<close>

lemma cstr_id [simp]: "NUL \<notin> set s \<Longrightarrow> cstr s = s"
  by (auto simp: cstr_def intro!: takeWhile_eq_all_conv [THEN iffD2])

lemma NUL_notin_cstr [simp]: "NUL \<notin> set (cstr b)"
  by (auto simp: cstr_def dest: set_takeWhileD)

lemma cstr_Nil [simp]: "cstr [] = []"
  by (simp add: cstr_def)

lemma cstr_append_NUL: "NUL \<notin> set s \<Longrightarrow> cstr (s @ NUL # r) = s"
  by (auto simp: cstr_def takeWhile_tail)

lemma length_cstr_le: "length (cstr b) \<le> length b"
  by (simp add: cstr_def length_takeWhile_le)

lemma c_index_None_iff [simp]: "c_index xs c = None \<longleftrightarrow> c \<notin> set xs"
  by (induction xs) auto

lemma c_rindex_None_iff: "c_rindex xs c = None \<longleftrightarrow> c \<notin> set xs"
  by (induction xs) (auto split: option.splits)

lemma c_index_None [simp]: "c \<notin> set xs \<Longrightarrow> c_index xs c = None"
  by simp

lemma c_index_Some_iff:
  "c_index xs c = Some i \<longleftrightarrow> i < length xs \<and> xs ! i = c \<and> c \<notin> set (take i xs)"
proof (induction xs arbitrary: i)
  case Nil
  then show ?case by simp
next
  case (Cons x xs)
  then show ?case by (cases i) auto
qed

lemma c_index_append: "c \<notin> set a \<Longrightarrow> c_index (a @ c # b) c = Some (length a)"
  by (induction a) auto

lemma c_index_split:
  assumes "c_index xs c = Some i"
  obtains a b where "xs = a @ c # b" "c \<notin> set a" "length a = i"
proof
  from assms have "i < length xs" "xs ! i = c" "c \<notin> set (take i xs)"
    by (auto simp: c_index_Some_iff)
  then show "xs = take i xs @ c # drop (Suc i) xs" "c \<notin> set (take i xs)"
    "length (take i xs) = i"
    by (auto simp: id_take_nth_drop [symmetric])
qed

lemma first_occurrence_unique:
  fixes c :: char
  assumes "a @ c # b = a' @ c # b'" "c \<notin> set a" "c \<notin> set a'"
  shows "a = a' \<and> b = b'"
proof -
  have "length a = length a'"
    using assms c_index_append [of c a b] c_index_append [of c a' b'] by simp
  with assms(1) show ?thesis by simp
qed

lemma strncmp_eq_iff:
  assumes "NUL \<notin> set a" "NUL \<notin> set b" "length a < n"
  shows "strncmp_eq a b n \<longleftrightarrow> a = b"
proof
  assume eq: "strncmp_eq a b n"
  then have "cstr (take n (a @ [NUL])) = cstr (take n (b @ [NUL]))"
    by (simp add: strncmp_eq_def)
  moreover from assms have "cstr (take n (a @ [NUL])) = a"
    by (simp add: cstr_append_NUL)
  moreover have "cstr (take n (b @ [NUL])) = b" if "length b < n"
    using that assms by (simp add: cstr_append_NUL)
  moreover have False if "n \<le> length b"
  proof -
    from that eq assms have "NUL \<in> set (take n b)"
      by (auto simp: strncmp_eq_def) (metis in_set_conv_decomp)
    with assms show False by (meson in_set_takeD)
  qed
  ultimately show "a = b" by force
qed (simp add: strncmp_eq_def)

lemma c_strncpy_0 [simp]: "c_strncpy dest src 0 = dest"
  by (simp add: c_strncpy_def)

lemma snprintf_text_id [simp]: "length s < n \<Longrightarrow> snprintf_text n s = s"
  by (simp add: snprintf_text_def)

lemma length_snprintf_text: "0 < n \<Longrightarrow> length (snprintf_text n s) < n"
  by (simp add: snprintf_text_def)

lemma digit_chars:
  "digit_char 0 = CHR ''0''" "digit_char (Suc 0) = CHR ''1''" "digit_char 2 = CHR ''2''"
  "digit_char 3 = CHR ''3''" "digit_char 4 = CHR ''4''" "digit_char 5 = CHR ''5''"
  "digit_char 6 = CHR ''6''" "digit_char 7 = CHR ''7''" "digit_char 8 = CHR ''8''"
  "digit_char 9 = CHR ''9''"
  unfolding digit_char_def char_of_def by (simp_all add: bit_iff_odd)

lemma filter_dropWhile_eq:
  "(\<And>x. P x \<Longrightarrow> \<not> Q x) \<Longrightarrow> filter Q (dropWhile P xs) = filter Q xs"
  by (induction xs) auto

section \<open>A machine with an invariant\<close>

text \<open>
  The contract of a component whose operations, one per event, keep an invariant when the
  event is an allowed one: the invariant then holds after any run of allowed events.
\<close>

locale invariant_machine =
  fixes step :: "'s \<Rightarrow> 'e \<Rightarrow> 's"
    and inv :: "'s \<Rightarrow> bool"
    and allowed :: "'e \<Rightarrow> bool"
  assumes step_inv: "inv s \<Longrightarrow> allowed e \<Longrightarrow> inv (step s e)"
begin

lemma run_inv: "inv s \<Longrightarrow> list_all allowed es \<Longrightarrow> inv (foldl step s es)"
  by (induction es arbitrary: s) (auto intro: step_inv)

end

section \<open>A sink fed in chunks\<close>

text \<open>
  The contract of a logging destination: data arrives in chunks, \<open>view\<close> is what the
  destination holds, and a chunk \<open>c\<close> of good characters adds \<open>norm c\<close> to it, where
  \<open>norm\<close> distributes over concatenation. Then what it holds depends on the data alone, not
  on how the terminal happened to cut it into chunks.
\<close>

locale chunk_sink = invariant_machine put inv "list_all good"
  for put :: "'s \<Rightarrow> buffer \<Rightarrow> 's" and inv :: "'s \<Rightarrow> bool" and good :: "char \<Rightarrow> bool" +
  fixes view :: "'s \<Rightarrow> buffer"
    and norm :: "buffer \<Rightarrow> buffer"
  assumes put_view: "inv s \<Longrightarrow> list_all good c \<Longrightarrow> view (put s c) = view s @ norm c"
    and norm_Nil: "norm [] = []"
    and norm_append: "norm (a @ b) = norm a @ norm b"
begin

lemma run_view:
  "inv s \<Longrightarrow> list_all (list_all good) cs \<Longrightarrow> view (foldl put s cs) = view s @ norm (concat cs)"
proof (induction cs arbitrary: s)
  case Nil
  then show ?case by (simp add: norm_Nil)
next
  case (Cons c cs)
  then show ?case by (simp add: step_inv put_view norm_append)
qed

lemma chunking_irrelevant:
  "inv s \<Longrightarrow> list_all (list_all good) cs \<Longrightarrow> list_all (list_all good) ds \<Longrightarrow>
    concat cs = concat ds \<Longrightarrow> view (foldl put s cs) = view (foldl put s ds)"
  by (simp add: run_view)

end

section \<open>A run that is recorded\<close>

text \<open>
  Operations that may stop, one per event, and a record \<open>view\<close> of what they did. When every
  allowed event goes through and adds its \<open>effect\<close> to the record, a run goes through and adds
  the sum of the effects, in order.
\<close>

fun run_all :: "('e \<Rightarrow> 's \<Rightarrow> (stop + unit) \<times> 's) \<Rightarrow> 'e list \<Rightarrow> 's \<Rightarrow> (stop + unit) \<times> 's" where
  "run_all step [] s = (Inr (), s)"
| "run_all step (e # es) s = bindM (step e) (\<lambda>_. run_all step es) s"

locale recorder =
  fixes step :: "'e \<Rightarrow> 's \<Rightarrow> (stop + unit) \<times> 's"
    and inv :: "'s \<Rightarrow> bool"
    and allowed :: "'e \<Rightarrow> bool"
    and view :: "'s \<Rightarrow> 'm::monoid_add"
    and effect :: "'e \<Rightarrow> 'm"
  assumes step_recorded: "inv s \<Longrightarrow> allowed e \<Longrightarrow>
    \<exists>s'. step e s = (Inr (), s') \<and> inv s' \<and> view s' = view s + effect e"
begin

lemma run_recorded:
  "inv s \<Longrightarrow> list_all allowed es \<Longrightarrow>
    \<exists>s'. run_all step es s = (Inr (), s') \<and> inv s' \<and> view s' = view s + sum_list (map effect es)"
proof (induction es arbitrary: s)
  case (Cons e es)
  then obtain s1 where s1: "step e s = (Inr (), s1)" "inv s1" "view s1 = view s + effect e"
    using step_recorded [of s e] by auto
  with Cons.IH [of s1] Cons.prems(2) show ?case by (auto simp: add.assoc)
qed simp

end

end
