(* ===== verification/Getopt.thy ===== *)
theory Getopt
  imports Prelude "HOL-Library.Multiset"
begin

text \<open>
  The option scanner of \<^verbatim>\<open>getopt.c\<close>, \<^verbatim>\<open>getopt1.c\<close> and
  \<^verbatim>\<open>gnugetopt.h\<close>: its static variables and the argument vector it permutes as the record
  \<^verbatim>\<open>scanner_state\<close>, \<open>exchange\<close>, \<open>_getopt_initialize\<close> and
  \<open>_getopt_internal\<close> with its three entry points. A pointer into an argument is the text
  from there on; reading \<open>argv\<close> past its end is a fault.
\<close>

section \<open>Data\<close>

datatype ordering_mode = REQUIRE_ORDER | PERMUTE | RETURN_IN_ORDER

text \<open>\<open>struct option\<close>; \<open>opt_flag\<close> is an address, \<^term>\<open>None\<close> for a null pointer.\<close>

record option_entry =
  opt_name :: string
  has_arg :: int
  opt_flag :: "nat option"
  opt_val :: int

record scanner_state =
  argv :: "string list"
  optarg :: "string option"
  optind :: nat
  getopt_initialized :: bool
  nextchar :: "string option"
  opterr :: bool
  optopt :: int
  arg_order :: ordering_mode
  posixly_correct :: "string option"
  first_nonopt :: nat
  last_nonopt :: nat
  longind :: nat
  opt_flags :: "nat \<Rightarrow> int"
  err_text :: "string list"

text \<open>A plain \<open>char\<close> is signed.\<close>

definition char_int :: "char \<Rightarrow> int" where
  "char_int c = (if (of_char c :: int) < 128 then of_char c else of_char c - 256)"

text \<open>\<open>s[i]\<close> for a position up to the terminator of \<open>s\<close>.\<close>

definition c_at :: "string \<Rightarrow> nat \<Rightarrow> char" where
  "c_at s i = (if i < length s then s ! i else NUL)"

text \<open>The text from the first occurrence of a character on.\<close>

fun my_index :: "string \<Rightarrow> char \<Rightarrow> string option" where
  "my_index [] chr = None"
| "my_index (x # xs) chr = (if x = chr then Some (x # xs) else my_index xs chr)"

text \<open>\<open>argv[i]\<close>, to be read as a string: \<open>argv[argc]\<close> is a null pointer.\<close>

definition arg_at :: "scanner_state \<Rightarrow> nat \<Rightarrow> stop + string" where
  "arg_at g i =
     (if i < length (argv g) then Inr (argv g ! i)
      else if i = length (argv g) then Inl (Faulted Null_Deref)
      else Inl (Faulted Out_Of_Bounds))"

definition getopt_error :: "bool \<Rightarrow> string \<Rightarrow> scanner_state \<Rightarrow> scanner_state" where
  "getopt_error print_errors msg g =
     (if print_errors then g\<lparr>err_text := err_text g @ [argv g ! 0 @ '': '' @ msg]\<rparr> else g)"

section \<open>Permuting the arguments\<close>

definition swap :: "nat \<Rightarrow> nat \<Rightarrow> 'a list \<Rightarrow> 'a list" where
  "swap i j v = v[i := v ! j, j := v ! i]"

text \<open>The inner loops: \<open>len\<close> entries from \<open>a\<close> against those from \<open>b\<close>.\<close>

definition swap_segments :: "nat \<Rightarrow> nat \<Rightarrow> nat \<Rightarrow> 'a list \<Rightarrow> 'a list" where
  "swap_segments a b len v = foldl (\<lambda>v i. swap (a + i) (b + i) v) v [0..<len]"

function exchange_loop :: "nat \<Rightarrow> nat \<Rightarrow> nat \<Rightarrow> 'a list \<Rightarrow> 'a list" where
  "exchange_loop bottom middle upper v =
     (if middle < upper \<and> bottom < middle then
        if middle - bottom < upper - middle then
          let len = middle - bottom in
          exchange_loop bottom middle (upper - len) (swap_segments bottom (upper - len) len v)
        else
          let len = upper - middle in
          exchange_loop (bottom + len) middle upper (swap_segments bottom middle len v)
      else v)"
  by pat_completeness auto
termination
  by (relation "measure (\<lambda>(bottom, middle, upper, v). upper - bottom)") auto

declare exchange_loop.simps [simp del]

definition exchange :: "scanner_state \<Rightarrow> scanner_state" where
  "exchange g =
     g\<lparr>argv := exchange_loop (first_nonopt g) (last_nonopt g) (optind g) (argv g),
       first_nonopt := first_nonopt g + (optind g - last_nonopt g),
       last_nonopt := optind g\<rparr>"

section \<open>Initialisation\<close>

text \<open>The first result is the option string the scan goes on with.\<close>

definition getopt_initialize :: "string option \<Rightarrow> string \<Rightarrow> scanner_state \<Rightarrow> string \<times> scanner_state" where
  "getopt_initialize POSIXLY_CORRECT optstring g =
     (let g = g\<lparr>first_nonopt := optind g, last_nonopt := optind g, nextchar := None,
                posixly_correct := POSIXLY_CORRECT\<rparr> in
      if c_at optstring 0 = CHR ''-'' then (tl optstring, g\<lparr>arg_order := RETURN_IN_ORDER\<rparr>)
      else if c_at optstring 0 = CHR ''+'' then (tl optstring, g\<lparr>arg_order := REQUIRE_ORDER\<rparr>)
      else if POSIXLY_CORRECT \<noteq> None then (optstring, g\<lparr>arg_order := REQUIRE_ORDER\<rparr>)
      else (optstring, g\<lparr>arg_order := PERMUTE\<rparr>))"

section \<open>Advancing to the next element\<close>

definition nonoption_p :: "string \<Rightarrow> bool" where
  "nonoption_p a \<longleftrightarrow> c_at a 0 \<noteq> CHR ''-'' \<or> c_at a 1 = NUL"

function skip_nonoptions :: "string list \<Rightarrow> nat \<Rightarrow> nat" where
  "skip_nonoptions v i =
     (if i < length v \<and> nonoption_p (v ! i) then skip_nonoptions v (i + 1) else i)"
  by pat_completeness auto
termination by (relation "measure (\<lambda>(v, i). length v - i)") auto

declare skip_nonoptions.simps [simp del]

definition clamp_nonopts :: "scanner_state \<Rightarrow> scanner_state" where
  "clamp_nonopts g =
     (let g = (if optind g < last_nonopt g then g\<lparr>last_nonopt := optind g\<rparr> else g) in
      if optind g < first_nonopt g then g\<lparr>first_nonopt := optind g\<rparr> else g)"

definition permute_step :: "scanner_state \<Rightarrow> scanner_state" where
  "permute_step g =
     (let g = (if first_nonopt g \<noteq> last_nonopt g \<and> last_nonopt g \<noteq> optind g then exchange g
               else if last_nonopt g \<noteq> optind g then g\<lparr>first_nonopt := optind g\<rparr> else g);
          g = g\<lparr>optind := skip_nonoptions (argv g) (optind g)\<rparr> in
      g\<lparr>last_nonopt := optind g\<rparr>)"

text \<open>What \<open>--\<close> does once it has been seen at \<open>optind\<close>.\<close>

definition end_of_options :: "scanner_state \<Rightarrow> scanner_state" where
  "end_of_options g =
     (let g = g\<lparr>optind := optind g + 1\<rparr>;
          g = (if first_nonopt g \<noteq> last_nonopt g \<and> last_nonopt g \<noteq> optind g then exchange g
               else if first_nonopt g = last_nonopt g then g\<lparr>first_nonopt := optind g\<rparr> else g) in
      g\<lparr>last_nonopt := length (argv g), optind := length (argv g)\<rparr>)"

text \<open>
  \<^term>\<open>Some r\<close> is a value \<open>r\<close> the function returns, \<^term>\<open>None\<close> that it goes on to
  decode the element at \<open>optind\<close>. With \<open>optind\<close> beyond \<open>argc\<close>, every path reads
  \<open>argv[optind]\<close> in the comparison with \<open>--\<close>.
\<close>

definition advance :: "option_entry list option \<Rightarrow> scanner_state \<Rightarrow> (stop + int option) \<times> scanner_state" where
  "advance longopts g =
     (if length (argv g) < optind g then (Inl (Faulted Out_Of_Bounds), g)
      else
        let g = clamp_nonopts g;
            g = (if arg_order g = PERMUTE then permute_step g else g);
            argc = length (argv g);
            g = (if optind g \<noteq> argc \<and> argv g ! optind g = ''--'' then end_of_options g else g) in
        if optind g = argc then
          (Inr (Some (- 1)),
           if first_nonopt g \<noteq> last_nonopt g then g\<lparr>optind := first_nonopt g\<rparr> else g)
        else if nonoption_p (argv g ! optind g) then
          if arg_order g = REQUIRE_ORDER then (Inr (Some (- 1)), g)
          else (Inr (Some 1), g\<lparr>optarg := Some (argv g ! optind g), optind := optind g + 1\<rparr>)
        else
          (Inr None,
           g\<lparr>nextchar := Some (drop (if longopts \<noteq> None \<and> c_at (argv g ! optind g) 1 = CHR ''-''
                                     then 2 else 1) (argv g ! optind g))\<rparr>))"
section \<open>Long options\<close>

text \<open>
  The loop over the table: the entry found with its index, whether it matched exactly, and
  whether the abbreviation is ambiguous. \<open>strict\<close> stands for the first disjunct of the
  condition (\<open>long_only\<close>, or always in the \<^verbatim>\<open>-W\<close> branch), \<open>s\<close> is the text at
  \<open>nextchar\<close> and \<open>n\<close> the length \<open>nameend - nextchar\<close>.
\<close>

fun match_long :: "bool \<Rightarrow> string \<Rightarrow> nat \<Rightarrow> nat \<Rightarrow> (nat \<times> option_entry) option \<Rightarrow> bool \<Rightarrow>
    option_entry list \<Rightarrow> (nat \<times> option_entry) option \<times> bool \<times> bool" where
  "match_long strict s n i pfound ambig [] = (pfound, False, ambig)"
| "match_long strict s n i pfound ambig (p # ps) =
     (if strncmp_eq (opt_name p) s n then
        if n = length (opt_name p) then (Some (i, p), True, ambig)
        else
          (case pfound of
             None \<Rightarrow> match_long strict s n (Suc i) (Some (i, p)) ambig ps
           | Some (_, q) \<Rightarrow>
               match_long strict s n (Suc i) pfound
                 (ambig \<or> strict \<or> has_arg q \<noteq> has_arg p \<or> opt_flag q \<noteq> opt_flag p
                   \<or> opt_val q \<noteq> opt_val p) ps)
      else match_long strict s n (Suc i) pfound ambig ps)"

definition name_part :: "string \<Rightarrow> string" where
  "name_part s = takeWhile (\<lambda>c. c \<noteq> CHR ''='') s"

definition value_part :: "string \<Rightarrow> string" where
  "value_part s = dropWhile (\<lambda>c. c \<noteq> CHR ''='') s"

text \<open>\<open>optstring[0] == ':' ? ':' : '?'\<close>, the value for a missing argument.\<close>

definition missing_arg :: "string \<Rightarrow> int" where
  "missing_arg optstring =
     (if c_at optstring 0 = CHR '':'' then char_int (CHR '':'') else char_int (CHR ''?''))"

definition quoted :: "string \<Rightarrow> string" where
  "quoted s = ''`'' @ s @ [CHR 0x27]"

text \<open>The end of both branches that found a long option.\<close>

definition long_value :: "bool \<Rightarrow> nat \<times> option_entry \<Rightarrow> scanner_state \<Rightarrow> (stop + int) \<times> scanner_state" where
  "long_value want_index found g =
     (let g = g\<lparr>nextchar := Some []\<rparr>;
          g = (if want_index then g\<lparr>longind := fst found\<rparr> else g);
          p = snd found in
      case opt_flag p of
        Some a \<Rightarrow> (Inr 0, g\<lparr>opt_flags := (opt_flags g)(a := opt_val p)\<rparr>)
      | None \<Rightarrow> (Inr (opt_val p), g))"

text \<open>\<open>pfound != NULL\<close> for the element at \<open>optind\<close>; \<open>nameend\<close> is the text there.\<close>

definition long_found :: "bool \<Rightarrow> bool \<Rightarrow> string \<Rightarrow> string \<Rightarrow> nat \<times> option_entry \<Rightarrow> scanner_state \<Rightarrow>
    (stop + int) \<times> scanner_state" where
  "long_found print_errors want_index optstring nameend found g =
     (let g = g\<lparr>optind := optind g + 1\<rparr>; p = snd found in
      if nameend \<noteq> [] then
        if has_arg p \<noteq> 0 then long_value want_index found (g\<lparr>optarg := Some (tl nameend)\<rparr>)
        else
          let this = argv g ! (optind g - 1);
              g = getopt_error print_errors
                (''option '' @ quoted (if c_at this 1 = CHR ''-'' then ''--'' @ opt_name p
                   else c_at this 0 # opt_name p) @ '' doesn't allow an argument'') g in
          (Inr (char_int (CHR ''?'')), g\<lparr>nextchar := Some [], optopt := opt_val p\<rparr>)
      else if has_arg p = 1 then
        if optind g < length (argv g) then
          long_value want_index found
            (g\<lparr>optarg := Some (argv g ! optind g), optind := optind g + 1\<rparr>)
        else
          let g = getopt_error print_errors
                (''option '' @ quoted (argv g ! (optind g - 1)) @ '' requires an argument'') g in
          (Inr (missing_arg optstring), g\<lparr>nextchar := Some [], optopt := opt_val p\<rparr>)
      else long_value want_index found g)"

text \<open>
  The block for a long option: \<open>this\<close> is \<open>argv[optind]\<close>, \<open>s\<close> the text at
  \<open>nextchar\<close>. \<^term>\<open>None\<close> means that the element is read as short options after all.
\<close>

definition long_option :: "bool \<Rightarrow> bool \<Rightarrow> bool \<Rightarrow> string \<Rightarrow> option_entry list \<Rightarrow> string \<Rightarrow> string \<Rightarrow>
    scanner_state \<Rightarrow> (stop + int option) \<times> scanner_state" where
  "long_option long_only print_errors want_index optstring longopts this s g =
     (let (pfound, exact, ambig) =
            match_long long_only s (length (name_part s)) 0 None False longopts in
      if ambig \<and> \<not> exact then
        let g = getopt_error print_errors (''option '' @ quoted this @ '' is ambiguous'') g in
        (Inr (Some (char_int (CHR ''?''))),
         g\<lparr>nextchar := Some [], optind := optind g + 1, optopt := 0\<rparr>)
      else
        (case pfound of
           Some found \<Rightarrow>
             (case long_found print_errors want_index optstring (value_part s) found g of
                (Inl e, g) \<Rightarrow> (Inl e, g) | (Inr v, g) \<Rightarrow> (Inr (Some v), g))
         | None \<Rightarrow>
             if \<not> long_only \<or> c_at this 1 = CHR ''-'' \<or> my_index optstring (c_at s 0) = None then
               let g = getopt_error print_errors
                     (''unrecognized option '' @ quoted (if c_at this 1 = CHR ''-'' then ''--'' @ s
                        else c_at this 0 # s)) g in
               (Inr (Some (char_int (CHR ''?''))),
                g\<lparr>nextchar := Some [], optind := optind g + 1, optopt := 0\<rparr>)
             else (Inr None, g)))"

section \<open>Short options\<close>

text \<open>
  \<open>-W foo\<close> as the long option \<open>--foo\<close>; \<open>g\<close> is the state once \<open>optarg\<close> is
  the argument \<open>arg\<close>. The two messages about it print \<open>argv[optind]\<close>, which may be
  past the end by then.
\<close>

definition w_found :: "bool \<Rightarrow> bool \<Rightarrow> string \<Rightarrow> string \<Rightarrow> nat \<times> option_entry \<Rightarrow> scanner_state \<Rightarrow>
    (stop + int) \<times> scanner_state" where
  "w_found print_errors want_index optstring nameend found g =
     (let p = snd found in
      if nameend \<noteq> [] then
        if has_arg p \<noteq> 0 then long_value want_index found (g\<lparr>optarg := Some (tl nameend)\<rparr>)
        else
          let g = getopt_error print_errors
                (''option '' @ quoted (''-W '' @ opt_name p) @ '' doesn't allow an argument'') g in
          (Inr (char_int (CHR ''?'')), g\<lparr>nextchar := Some []\<rparr>)
      else if has_arg p = 1 then
        if optind g < length (argv g) then
          long_value want_index found
            (g\<lparr>optarg := Some (argv g ! optind g), optind := optind g + 1\<rparr>)
        else
          (case arg_at g (optind g - 1) of
             Inl e \<Rightarrow> (Inl e, g)
           | Inr this \<Rightarrow>
               let g = getopt_error print_errors
                     (''option '' @ quoted this @ '' requires an argument'') g in
               (Inr (missing_arg optstring), g\<lparr>nextchar := Some []\<rparr>))
      else long_value want_index found g)"

text \<open>The message prints \<open>argv[optind]\<close>, and glibc prints \<open>(null)\<close> for \<open>argv[argc]\<close>.\<close>

definition w_option :: "bool \<Rightarrow> bool \<Rightarrow> string \<Rightarrow> option_entry list option \<Rightarrow> string \<Rightarrow> scanner_state \<Rightarrow>
    (stop + int) \<times> scanner_state" where
  "w_option print_errors want_index optstring longopts arg g =
     (case longopts of
        None \<Rightarrow> (Inl (Faulted Null_Deref), g)
      | Some ps \<Rightarrow>
          let (pfound, exact, ambig) =
                match_long True arg (length (name_part arg)) 0 None False ps;
              g = g\<lparr>nextchar := Some arg\<rparr> in
          if ambig \<and> \<not> exact then
            (case (if \<not> print_errors then Inr []
                   else if optind g = length (argv g) then Inr ''(null)''
                   else arg_at g (optind g)) of
               Inl e \<Rightarrow> (Inl e, g)
             | Inr this \<Rightarrow>
                 let g = getopt_error print_errors
                       (''option '' @ quoted (''-W '' @ this) @ '' is ambiguous'') g in
                 (Inr (char_int (CHR ''?'')),
                  g\<lparr>nextchar := Some [], optind := optind g + 1\<rparr>))
          else
            (case pfound of
               Some found \<Rightarrow> w_found print_errors want_index optstring (value_part arg) found g
             | None \<Rightarrow> (Inr (char_int (CHR ''W'')), g\<lparr>nextchar := None\<rparr>)))"

text \<open>
  An option character \<open>c\<close> that wants an argument, \<open>rest\<close> being the text after it: the
  argument is \<open>rest\<close> or the next element, \<^term>\<open>None\<close> when there is none.
\<close>

definition short_argument :: "bool \<Rightarrow> char \<Rightarrow> string \<Rightarrow> scanner_state \<Rightarrow>
    (stop + string option) \<times> scanner_state" where
  "short_argument print_errors c rest g =
     (if rest \<noteq> [] then (Inr (Some rest), g\<lparr>optarg := Some rest, optind := optind g + 1\<rparr>)
      else if optind g = length (argv g) then
        (Inr None,
         (getopt_error print_errors (''option requires an argument -- '' @ [c]) g)\<lparr>optopt := char_int c\<rparr>)
      else
        (case arg_at g (optind g) of
           Inl e \<Rightarrow> (Inl e, g)
         | Inr a \<Rightarrow> (Inr (Some a), g\<lparr>optarg := Some a, optind := optind g + 1\<rparr>)))"

text \<open>
  The value of an option \<open>c\<close> with the specification \<open>temp\<close>, the text of the option
  string from \<open>c\<close> on: two colons for an optional argument, one for a required one.
\<close>

definition option_value :: "bool \<Rightarrow> string \<Rightarrow> char \<Rightarrow> string \<Rightarrow> string \<Rightarrow> scanner_state \<Rightarrow>
    (stop + int) \<times> scanner_state" where
  [simp]: "option_value print_errors optstring c temp rest g =
     (if c_at temp 1 = CHR '':'' then
        if c_at temp 2 = CHR '':'' then
          (Inr (char_int c),
           if rest \<noteq> [] then
             g\<lparr>optarg := Some rest, optind := optind g + 1, nextchar := None\<rparr>
           else g\<lparr>optarg := None, nextchar := None\<rparr>)
        else
          (case short_argument print_errors c rest g of
             (Inl e, g) \<Rightarrow> (Inl e, g)
           | (Inr None, g) \<Rightarrow> (Inr (missing_arg optstring), g\<lparr>nextchar := None\<rparr>)
           | (Inr (Some arg), g) \<Rightarrow> (Inr (char_int c), g\<lparr>nextchar := None\<rparr>))
      else (Inr (char_int c), g))"

text \<open>The last block, for the character at \<open>nextchar\<close>.\<close>

definition short_option :: "bool \<Rightarrow> bool \<Rightarrow> string \<Rightarrow> option_entry list option \<Rightarrow> scanner_state \<Rightarrow>
    (stop + int) \<times> scanner_state" where
  "short_option print_errors want_index optstring longopts g =
     (case nextchar g of
        Some (c # rest) \<Rightarrow>
          let g = g\<lparr>nextchar := Some rest\<rparr>;
              g = (if rest = [] then g\<lparr>optind := optind g + 1\<rparr> else g) in
          (case (if c = CHR '':'' then None else my_index optstring c) of
             None \<Rightarrow>
               let g = getopt_error print_errors
                     ((if posixly_correct g \<noteq> None then ''illegal option -- ''
                       else ''invalid option -- '') @ [c]) g in
               (Inr (char_int (CHR ''?'')), g\<lparr>optopt := char_int c\<rparr>)
           | Some temp \<Rightarrow>
               if c_at temp 0 = CHR ''W'' \<and> c_at temp 1 = CHR '';'' then
                 (case short_argument print_errors c rest g of
                    (Inl e, g) \<Rightarrow> (Inl e, g)
                  | (Inr None, g) \<Rightarrow> (Inr (missing_arg optstring), g)
                  | (Inr (Some arg), g) \<Rightarrow>
                      w_option print_errors want_index optstring longopts arg g)
               else option_value print_errors optstring c temp rest g)
      | Some [] \<Rightarrow> (Inl (Faulted Out_Of_Bounds), g)
      | None \<Rightarrow> (Inl (Faulted Null_Deref), g))"

section \<open>The entry points\<close>

text \<open>The test that sends an element to the block for long options.\<close>

definition long_syntax :: "bool \<Rightarrow> string \<Rightarrow> string \<Rightarrow> bool" where
  "long_syntax long_only optstring this \<longleftrightarrow>
     c_at this 1 = CHR ''-'' \<or>
     long_only \<and> (c_at this 2 \<noteq> NUL \<or> my_index optstring (c_at this 1) = None)"

definition decode_element :: "bool \<Rightarrow> bool \<Rightarrow> bool \<Rightarrow> string \<Rightarrow> option_entry list option \<Rightarrow> scanner_state \<Rightarrow>
    (stop + int) \<times> scanner_state" where
  "decode_element long_only print_errors want_index optstring longopts g =
     (case longopts of
        None \<Rightarrow> short_option print_errors want_index optstring longopts g
      | Some ps \<Rightarrow>
          (case arg_at g (optind g) of
             Inl e \<Rightarrow> (Inl e, g)
           | Inr this \<Rightarrow>
               if long_syntax long_only optstring this then
                 bindM (long_option long_only print_errors want_index optstring ps this
                     (case nextchar g of Some s \<Rightarrow> s | None \<Rightarrow> []))
                   (\<lambda>r g. case r of
                      Some v \<Rightarrow> (Inr v, g)
                    | None \<Rightarrow> short_option print_errors want_index optstring longopts g) g
               else short_option print_errors want_index optstring longopts g))"

text \<open>The reset of \<open>optarg\<close> and, on the first call, the initialisation.\<close>

definition getopt_enter :: "string option \<Rightarrow> string \<Rightarrow> scanner_state \<Rightarrow> string \<times> scanner_state" where
  "getopt_enter POSIXLY_CORRECT optstring g =
     (let g = g\<lparr>optarg := None\<rparr> in
      if optind g = 0 \<or> \<not> getopt_initialized g then
        let g = (if optind g = 0 then g\<lparr>optind := 1\<rparr> else g);
            (os, g) = getopt_initialize POSIXLY_CORRECT optstring g in
        (os, g\<lparr>getopt_initialized := True\<rparr>)
      else (optstring, g))"

definition getopt_internal :: "string option \<Rightarrow> bool \<Rightarrow> bool \<Rightarrow> string \<Rightarrow> option_entry list option \<Rightarrow>
    scanner_state \<Rightarrow> (stop + int) \<times> scanner_state" where
  "getopt_internal POSIXLY_CORRECT want_index long_only optstring longopts g =
     (let print_errors = opterr g \<and> c_at optstring 0 \<noteq> CHR '':'' in
      if argv g = [] then (Inr (- 1), g)
      else
        let (os, g) = getopt_enter POSIXLY_CORRECT optstring g in
        bindM (if nextchar g = None \<or> nextchar g = Some [] then advance longopts
               else (\<lambda>g. (Inr None, g)))
          (\<lambda>r g. case r of
             Some v \<Rightarrow> (Inr v, g)
           | None \<Rightarrow> decode_element long_only print_errors want_index os longopts g) g)"

definition getopt_long :: "string option \<Rightarrow> string \<Rightarrow> option_entry list \<Rightarrow> scanner_state \<Rightarrow>
    (stop + int) \<times> scanner_state" where
  "getopt_long POSIXLY_CORRECT options long_options =
     getopt_internal POSIXLY_CORRECT True False options (Some long_options)"

text \<open>\<open>getopt_long_only\<close> lets a single dash introduce a long option; \<open>getopt\<close> has none.\<close>

definition getopt_long_only :: "string option \<Rightarrow> string \<Rightarrow> option_entry list \<Rightarrow> scanner_state \<Rightarrow>
    (stop + int) \<times> scanner_state" where
  "getopt_long_only POSIXLY_CORRECT options long_options =
     getopt_internal POSIXLY_CORRECT True True options (Some long_options)"

definition getopt :: "string option \<Rightarrow> string \<Rightarrow> scanner_state \<Rightarrow> (stop + int) \<times> scanner_state" where
  "getopt POSIXLY_CORRECT optstring =
     getopt_internal POSIXLY_CORRECT False False optstring None"

section \<open>Lemmas on the exchange\<close>

lemma swap_apart:
  "length pre = i \<Longrightarrow> Suc (i + length mid) = j \<Longrightarrow>
    swap i j (pre @ x # mid @ y # post) = pre @ y # mid @ x # post"
  by (auto simp: swap_def nth_append list_update_append)

lemma length_swap [simp]: "length (swap i j v) = length v"
  by (simp add: swap_def)

lemma swap_segments_0 [simp]: "swap_segments a b 0 v = v"
  by (simp add: swap_segments_def)

lemma swap_segments_Suc:
  "swap_segments a b (Suc n) v = swap (a + n) (b + n) (swap_segments a b n v)"
  by (simp add: swap_segments_def)

lemma swap_segments_eq:
  "length pre = a \<Longrightarrow> length X = n \<Longrightarrow> length Y = n \<Longrightarrow> a + n + length mid = b \<Longrightarrow>
    swap_segments a b n (pre @ X @ mid @ Y @ post) = pre @ Y @ mid @ X @ post"
proof (induction n arbitrary: X Y mid post)
  case 0
  then show ?case by simp
next
  case (Suc n)
  then obtain X' x Y' y where X: "X = X' @ [x]" and Y: "Y = Y' @ [y]"
    by (metis length_Suc_conv_rev)
  with Suc.prems have
    "swap_segments a b n (pre @ X' @ (x # mid) @ Y' @ (y # post)) = pre @ Y' @ (x # mid) @ X' @ (y # post)"
    by (intro Suc.IH) auto
  moreover from Suc.prems X Y have "swap (a + n) (b + n) ((pre @ Y') @ x # (mid @ X') @ y # post)
      = (pre @ Y') @ y # (mid @ X') @ x # post"
    by (intro swap_apart) auto
  ultimately show ?case using X Y by (simp add: swap_segments_Suc)
qed

lemma exchange_loop_eq:
  "length pre = bottom \<Longrightarrow> length A = middle - bottom \<Longrightarrow> length B = upper - middle \<Longrightarrow>
    bottom \<le> middle \<Longrightarrow> middle \<le> upper \<Longrightarrow>
    exchange_loop bottom middle upper (pre @ A @ B @ post) = pre @ B @ A @ post"
proof (induction bottom middle upper "pre @ A @ B @ post" arbitrary: pre A B post
    rule: exchange_loop.induct)
  case (1 bottom middle upper)
  note ih = "1.hyps" and p = "1.prems"
  consider "middle = upper \<or> bottom = middle" | "bottom < middle" "middle - bottom < upper - middle"
    | "middle < upper" "bottom < middle" "upper - middle \<le> middle - bottom"
    using p by linarith
  then show ?case
  proof cases
    case 1
    with p show ?thesis by (auto simp: exchange_loop.simps)
  next
    case 2
    then obtain B1 B2 where B: "B = B1 @ B2" "length B2 = length A"
      using p by (intro that [of "take (length B - length A) B" "drop (length B - length A) B"]) auto
    have swapped: "swap_segments bottom (upper - (middle - bottom)) (middle - bottom) (pre @ A @ B1 @ B2 @ post)
        = pre @ B2 @ B1 @ A @ post"
      using p 2 B by (intro swap_segments_eq) auto
    have "exchange_loop bottom middle (upper - (middle - bottom)) (pre @ B2 @ B1 @ (A @ post))
        = pre @ B1 @ B2 @ (A @ post)"
      using p 2 B swapped by (intro ih(1)) auto
    moreover from 2 p have "middle < upper" by linarith
    ultimately show ?thesis using 2 B swapped by (subst exchange_loop.simps) (simp add: Let_def)
  next
    case 3
    then obtain A1 A2 where A: "A = A1 @ A2" "length A1 = length B"
      using p by (intro that [of "take (length B) A" "drop (length B) A"]) auto
    have swapped: "swap_segments bottom middle (upper - middle) (pre @ A1 @ A2 @ B @ post)
        = pre @ B @ A2 @ A1 @ post"
      using p 3 A by (intro swap_segments_eq) auto
    have "exchange_loop (bottom + (upper - middle)) middle upper ((pre @ B) @ A2 @ A1 @ post)
        = (pre @ B) @ A1 @ A2 @ post"
      using p 3 A swapped by (intro ih(2)) auto
    with 3 A swapped show ?thesis by (subst exchange_loop.simps) (simp add: Let_def)
  qed
qed

end
