(* ===== verification/Getopt_Scan.thy ===== *)
theory Getopt_Scan
  imports Getopt
begin

text \<open>
  What the option scanner guarantees: it never reads past the arguments, it only permutes them,
  repeated calls come to an end, and the values it returns are those of a direct recursive
  reading of the command line.
\<close>

section \<open>Well-formed scanner states\<close>

definition unread :: "scanner_state \<Rightarrow> string" where
  "unread g = (case nextchar g of None \<Rightarrow> [] | Some s \<Rightarrow> s)"

definition getopt_wf :: "scanner_state \<Rightarrow> bool" where
  "getopt_wf g \<longleftrightarrow> argv g \<noteq> [] \<and> optind g \<le> length (argv g) \<and>
     (\<not> getopt_initialized g \<longrightarrow> unread g = []) \<and>
     (getopt_initialized g \<longrightarrow> 0 < first_nonopt g \<and> first_nonopt g \<le> last_nonopt g \<and>
        (unread g \<noteq> [] \<and> 0 < optind g \<longrightarrow> optind g < length (argv g)))"

text \<open>No character of the option string is the \<^verbatim>\<open>W;\<close> of the \<^verbatim>\<open>-W\<close> extension.\<close>

definition no_w :: "string \<Rightarrow> bool" where
  "no_w optstring \<longleftrightarrow>
     (case my_index optstring (CHR ''W'') of None \<Rightarrow> True | Some t \<Rightarrow> c_at t 1 \<noteq> CHR '';'')"

text \<open>What decoding an element does to the state.\<close>

definition decoded :: "scanner_state \<Rightarrow> scanner_state \<Rightarrow> bool" where
  "decoded g g' \<longleftrightarrow> argv g' = argv g \<and> first_nonopt g' = first_nonopt g
     \<and> last_nonopt g' = last_nonopt g \<and> arg_order g' = arg_order g
     \<and> getopt_initialized g' = getopt_initialized g \<and> optind g' \<le> length (argv g)
     \<and> (if unread g' = [] then optind g < optind g'
        else optind g' = optind g \<and> unread g' = tl (unread g))"

lemma unread_simps [simp]:
  "nextchar g = None \<Longrightarrow> unread g = []" "nextchar g = Some s \<Longrightarrow> unread g = s"
  by (simp_all add: unread_def)

lemma unread_Nil_iff: "unread g = [] \<longleftrightarrow> nextchar g = None \<or> nextchar g = Some []"
  by (simp add: unread_def split: option.splits)

lemma unread_update [simp]:
  "unread (g\<lparr>nextchar := x\<rparr>) = (case x of None \<Rightarrow> [] | Some s \<Rightarrow> s)"
  "unread (g\<lparr>optind := i\<rparr>) = unread g" "unread (g\<lparr>optarg := a\<rparr>) = unread g"
  "unread (g\<lparr>optopt := o'\<rparr>) = unread g" "unread (g\<lparr>first_nonopt := i\<rparr>) = unread g"
  "unread (g\<lparr>last_nonopt := i\<rparr>) = unread g"
  by (simp_all add: unread_def)

lemma getopt_error_simps [simp]:
  "argv (getopt_error pe m g) = argv g" "optind (getopt_error pe m g) = optind g"
  "first_nonopt (getopt_error pe m g) = first_nonopt g"
  "last_nonopt (getopt_error pe m g) = last_nonopt g"
  "arg_order (getopt_error pe m g) = arg_order g"
  "getopt_initialized (getopt_error pe m g) = getopt_initialized g"
  "nextchar (getopt_error pe m g) = nextchar g" "optarg (getopt_error pe m g) = optarg g"
  "unread (getopt_error pe m g) = unread g" "posixly_correct (getopt_error pe m g) = posixly_correct g"
  by (simp_all add: getopt_error_def unread_def)

lemma my_index_hd: "my_index s c = Some t \<Longrightarrow> c_at t 0 = c"
  by (induction s) (auto simp: c_at_def split: if_splits)

lemma no_w_D:
  "no_w os \<Longrightarrow> my_index os c = Some t \<Longrightarrow> \<not> (c_at t 0 = CHR ''W'' \<and> c_at t 1 = CHR '';'')"
  using my_index_hd [of os c t] by (auto simp: no_w_def)

lemma long_value_decoded:
  assumes "optind g < optind g'" "optind g' \<le> length (argv g)" "argv g' = argv g"
    "first_nonopt g' = first_nonopt g" "last_nonopt g' = last_nonopt g"
    "arg_order g' = arg_order g" "getopt_initialized g' = getopt_initialized g"
  shows "\<exists>r g''. long_value w found g' = (Inr r, g'') \<and> decoded g g'' \<and> optarg g'' = optarg g'
    \<and> optind g'' = optind g' \<and> unread g'' = []
    \<and> r = (if opt_flag (snd found) = None then opt_val (snd found) else 0)"
  using assms by (auto simp: long_value_def Let_def decoded_def unread_def split: option.splits)

lemma long_found_decoded:
  assumes "optind g < length (argv g)"
  shows "\<exists>r g'. long_found pe w os e found g = (Inr r, g') \<and> decoded g g'"
proof -
  have "\<exists>r g'. long_value w found h = (Inr r, g') \<and> decoded g g'"
    if "optind g < optind h" "optind h \<le> length (argv g)" "argv h = argv g"
      "first_nonopt h = first_nonopt g" "last_nonopt h = last_nonopt g"
      "arg_order h = arg_order g" "getopt_initialized h = getopt_initialized g" for h
    using long_value_decoded [OF that] by blast
  with assms show ?thesis
    by (auto simp: long_found_def Let_def decoded_def [of g "_\<lparr>nextchar := _, optopt := _\<rparr>"])
qed

lemma long_option_decoded:
  assumes "optind g < length (argv g)"
  shows "\<exists>r g'. long_option lo pe w os ps this s g = (Inr r, g') \<and>
    (if r = None then g' = g else decoded g g')"
proof -
  obtain pfound exact ambig where
    m: "match_long lo s (length (name_part s)) 0 None False ps = (pfound, exact, ambig)"
    by (cases "match_long lo s (length (name_part s)) 0 None False ps") auto
  consider "ambig \<and> \<not> exact" | "\<not> (ambig \<and> \<not> exact)" "pfound = None"
    | found where "\<not> (ambig \<and> \<not> exact)" "pfound = Some found"
    by blast
  then show ?thesis
  proof cases
    case (3 found)
    from long_found_decoded [OF assms, of pe w os "value_part s" found] obtain r g' where
      "long_found pe w os (value_part s) found g = (Inr r, g')" "decoded g g'"
      by blast
    with m 3 show ?thesis
      by (intro exI [of _ "Some r"] exI [of _ g'])
        (cases ambig; cases exact; simp add: long_option_def)
  qed (use m assms in \<open>auto simp: long_option_def Let_def decoded_def\<close>)
qed

lemma short_argument_cases:
  assumes "optind g \<le> length (argv g)" "rest \<noteq> [] \<Longrightarrow> optind g < length (argv g)"
  shows "\<exists>r g'. short_argument pe c rest g = (Inr r, g') \<and> argv g' = argv g
    \<and> first_nonopt g' = first_nonopt g \<and> last_nonopt g' = last_nonopt g
    \<and> arg_order g' = arg_order g \<and> getopt_initialized g' = getopt_initialized g
    \<and> optind g \<le> optind g' \<and> optind g' \<le> length (argv g)
    \<and> (rest \<noteq> [] \<longrightarrow> optind g < optind g') \<and> nextchar g' = nextchar g"
  using assms by (cases "rest = []") (auto simp: short_argument_def arg_at_def)

text \<open>What the option string says of an option character.\<close>

datatype arg_kind = Bad | No_Arg | Opt_Arg | Req_Arg

definition kind_of :: "string \<Rightarrow> char \<Rightarrow> arg_kind" where
  "kind_of os c =
     (case (if c = CHR '':'' then None else my_index os c) of
        None \<Rightarrow> Bad
      | Some t \<Rightarrow> if c_at t 1 \<noteq> CHR '':'' then No_Arg
                  else if c_at t 2 = CHR '':'' then Opt_Arg else Req_Arg)"

text \<open>The state once a character has been taken from \<open>nextchar\<close>, \<open>rest\<close> being left.\<close>

definition eat_char :: "string \<Rightarrow> scanner_state \<Rightarrow> scanner_state" where
  "eat_char rest g =
     (if rest = [] then g\<lparr>nextchar := Some rest, optind := optind g + 1\<rparr> else g\<lparr>nextchar := Some rest\<rparr>)"

lemma short_option_kind:
  assumes "nextchar g = Some (c # rest)" "no_w os"
  shows "short_option pe w os ps g =
    (let h = eat_char rest g in
     case kind_of os c of
       Bad \<Rightarrow>
         (Inr (char_int (CHR ''?'')),
          (getopt_error pe ((if posixly_correct h \<noteq> None then ''illegal option -- ''
             else ''invalid option -- '') @ [c]) h)\<lparr>optopt := char_int c\<rparr>)
     | No_Arg \<Rightarrow> (Inr (char_int c), h)
     | Opt_Arg \<Rightarrow>
         (Inr (char_int c),
          if rest \<noteq> [] then h\<lparr>optarg := Some rest, optind := optind h + 1, nextchar := None\<rparr>
          else h\<lparr>optarg := None, nextchar := None\<rparr>)
     | Req_Arg \<Rightarrow>
         (case short_argument pe c rest h of
            (Inl e, g) \<Rightarrow> (Inl e, g)
          | (Inr None, g) \<Rightarrow> (Inr (missing_arg os), g\<lparr>nextchar := None\<rparr>)
          | (Inr (Some arg), g) \<Rightarrow> (Inr (char_int c), g\<lparr>nextchar := None\<rparr>)))"
proof (cases "if c = CHR '':'' then None else my_index os c")
  case None
  with assms(1) show ?thesis
    by (simp add: short_option_def Let_def eat_char_def kind_of_def)
next
  case (Some t)
  then have "my_index os c = Some t" by (simp split: if_splits)
  from no_w_D [OF assms(2) this] assms(1) Some show ?thesis
    by (cases "c_at t 0 = CHR ''W''"; cases "c_at t 1 = CHR '';''")
      (simp_all add: short_option_def Let_def eat_char_def kind_of_def)
qed

lemma short_option_decoded:
  assumes "optind g < length (argv g)" "nextchar g = Some (c # rest)" "no_w os"
  shows "\<exists>r g'. short_option pe w os ps g = (Inr r, g') \<and> decoded g g'"
proof -
  let ?h = "eat_char rest g"
  have h: "argv ?h = argv g" "first_nonopt ?h = first_nonopt g" "last_nonopt ?h = last_nonopt g"
    "arg_order ?h = arg_order g" "getopt_initialized ?h = getopt_initialized g"
    "optind ?h = (if rest = [] then optind g + 1 else optind g)" "unread ?h = rest"
    "unread g = c # rest"
    using assms by (auto simp: eat_char_def)
  obtain ra a where ra: "short_argument pe c rest ?h = (Inr ra, a)" "argv a = argv g"
    "first_nonopt a = first_nonopt g" "last_nonopt a = last_nonopt g"
    "arg_order a = arg_order g" "getopt_initialized a = getopt_initialized g"
    "optind ?h \<le> optind a" "optind a \<le> length (argv g)" "rest \<noteq> [] \<longrightarrow> optind g < optind a"
    using short_argument_cases [of ?h rest pe c] h assms(1) by (auto split: if_splits)
  show ?thesis
    unfolding short_option_kind [OF assms(2,3)] Let_def
    by (cases "kind_of os c"; cases ra)
      (use assms(1) h ra in \<open>auto simp: decoded_def split: if_splits\<close>)
qed

section \<open>Advancing\<close>

text \<open>
  The argument vector in three parts: what has been scanned as options (the program name
  included), the operands skipped so far, and what is still to be scanned.
\<close>

definition done_part :: "scanner_state \<Rightarrow> string list" where
  "done_part g = take (first_nonopt g) (argv g) @ drop (last_nonopt g) (take (optind g) (argv g))"

definition skipped_part :: "scanner_state \<Rightarrow> string list" where
  "skipped_part g = drop (first_nonopt g) (take (last_nonopt g) (argv g))"

definition todo_part :: "scanner_state \<Rightarrow> string list" where
  "todo_part g = drop (optind g) (argv g)"

definition ordered :: "scanner_state \<Rightarrow> bool" where
  "ordered g \<longleftrightarrow> 0 < first_nonopt g \<and> first_nonopt g \<le> last_nonopt g
     \<and> last_nonopt g \<le> optind g \<and> optind g \<le> length (argv g)"

definition permuted :: "scanner_state \<Rightarrow> scanner_state \<Rightarrow> bool" where
  "permuted g g' \<longleftrightarrow> mset (argv g') = mset (argv g) \<and> argv g' ! 0 = argv g ! 0"

lemma permuted_refl [simp]: "permuted g g"
  by (simp add: permuted_def)

lemma permuted_trans: "permuted g g1 \<Longrightarrow> permuted g1 g2 \<Longrightarrow> permuted g g2"
  unfolding permuted_def by metis

lemma permuted_length: "permuted g g' \<Longrightarrow> length (argv g') = length (argv g)"
  unfolding permuted_def using mset_eq_length by blast

lemmas parts_defs = done_part_def skipped_part_def todo_part_def

lemma middle_parts:
  "a \<le> b \<Longrightarrow> take a v @ drop a (take b v) = take b v"
  by (metis append_take_drop_id min.absorb1 take_take)

lemma argv_parts:
  assumes "ordered g"
  shows "argv g = take (first_nonopt g) (argv g) @ skipped_part g
    @ drop (last_nonopt g) (take (optind g) (argv g)) @ todo_part g"
proof -
  have "take (first_nonopt g) (argv g) @ skipped_part g = take (last_nonopt g) (argv g)"
    using assms by (simp add: parts_defs ordered_def middle_parts)
  moreover have "take (last_nonopt g) (argv g) @ drop (last_nonopt g) (take (optind g) (argv g))
      = take (optind g) (argv g)"
    using assms by (simp add: ordered_def middle_parts)
  ultimately show ?thesis
    by (metis append_assoc append_take_drop_id todo_part_def)
qed

lemma length_parts:
  assumes "ordered g"
  shows "length (done_part g) = first_nonopt g + (optind g - last_nonopt g)"
    "length (skipped_part g) = last_nonopt g - first_nonopt g"
    "length (todo_part g) = length (argv g) - optind g"
    "length (done_part g) + length (skipped_part g) = optind g"
  using assms by (auto simp: parts_defs ordered_def)

lemma exchange_eq:
  assumes "ordered g"
  shows "exchange g = g\<lparr>argv := done_part g @ skipped_part g @ todo_part g,
    first_nonopt := length (done_part g), last_nonopt := optind g\<rparr>"
proof -
  let ?B = "drop (last_nonopt g) (take (optind g) (argv g))"
  have "exchange_loop (first_nonopt g) (last_nonopt g) (optind g)
      (take (first_nonopt g) (argv g) @ skipped_part g @ ?B @ todo_part g)
    = take (first_nonopt g) (argv g) @ ?B @ skipped_part g @ todo_part g"
    using assms by (intro exchange_loop_eq) (auto simp: ordered_def parts_defs)
  then have "exchange_loop (first_nonopt g) (last_nonopt g) (optind g) (argv g)
      = done_part g @ skipped_part g @ todo_part g"
    unfolding argv_parts [OF assms, symmetric] by (simp add: done_part_def)
  then show ?thesis by (simp add: exchange_def length_parts(1) [OF assms])
qed

lemma parts_mset:
  assumes "ordered g"
  shows "mset (done_part g @ skipped_part g @ todo_part g) = mset (argv g)"
proof -
  have "mset (argv g) = mset (take (first_nonopt g) (argv g) @ skipped_part g
    @ drop (last_nonopt g) (take (optind g) (argv g)) @ todo_part g)"
    using argv_parts [OF assms] by simp
  then show ?thesis by (simp add: done_part_def)
qed

lemma parts_hd:
  assumes "ordered g"
  shows "(done_part g @ xs) ! 0 = argv g ! 0"
  using assms by (auto simp: done_part_def ordered_def nth_append min_def)

lemma skip_nonoptions_eq:
  "i \<le> length v \<Longrightarrow> skip_nonoptions v i = i + length (takeWhile nonoption_p (drop i v))"
proof (induction v i rule: skip_nonoptions.induct)
  case (1 v i)
  show ?case
  proof (cases "i < length v")
    case True
    then have "drop i v = v ! i # drop (Suc i) v" by (simp add: Cons_nth_drop_Suc)
    with 1 True show ?thesis by (subst skip_nonoptions.simps) auto
  qed (use 1 in \<open>simp add: skip_nonoptions.simps\<close>)
qed

text \<open>After the exchange and the skipping the three parts stand one behind the other.\<close>

lemma permute_step_eq:
  assumes "ordered g"
  shows "permute_step g = g\<lparr>argv := done_part g @ skipped_part g @ todo_part g,
    first_nonopt := length (done_part g),
    last_nonopt := optind g + length (takeWhile nonoption_p (todo_part g)),
    optind := optind g + length (takeWhile nonoption_p (todo_part g))\<rparr>"
proof -
  let ?v = "done_part g @ skipped_part g @ todo_part g"
  let ?n = "optind g + length (takeWhile nonoption_p (todo_part g))"
  have skip: "skip_nonoptions ?v (optind g) = ?n"
    using length_parts [OF assms] by (subst skip_nonoptions_eq) simp_all
  have unmoved: "permute_step g = g\<lparr>argv := ?v, first_nonopt := length (done_part g),
      last_nonopt := ?n, optind := ?n\<rparr>"
    if "argv g = ?v" "length (done_part g) = (if last_nonopt g = optind g then first_nonopt g else optind g)"
      "first_nonopt g = last_nonopt g \<or> last_nonopt g = optind g"
    using skip that(2,3) unfolding that(1) [symmetric]
    by (cases "last_nonopt g = optind g"; cases "first_nonopt g = last_nonopt g")
      (simp_all add: permute_step_def)
  consider "first_nonopt g \<noteq> last_nonopt g" "last_nonopt g \<noteq> optind g" | "last_nonopt g = optind g"
    | "first_nonopt g = last_nonopt g" "last_nonopt g \<noteq> optind g"
    by blast
  then show ?thesis
  proof cases
    case 1
    with skip show ?thesis
      by (simp add: permute_step_def exchange_eq [OF assms] del: append_assoc)
  next
    case 2
    then have "drop (last_nonopt g) (take (optind g) (argv g)) = []" by simp
    with argv_parts [OF assms] have "argv g = ?v" unfolding done_part_def by simp
    with unmoved 2 length_parts(1) [OF assms] show ?thesis by simp
  next
    case 3
    then have "skipped_part g = []" by (simp add: skipped_part_def)
    with argv_parts [OF assms] have "argv g = ?v" unfolding done_part_def by simp
    with unmoved 3 length_parts [OF assms] show ?thesis by simp
  qed
qed

lemma parts_of_layout:
  "argv h = X @ Y @ Z \<Longrightarrow> first_nonopt h = length X \<Longrightarrow> last_nonopt h = length (X @ Y) \<Longrightarrow>
    optind h = length (X @ Y) \<Longrightarrow> done_part h = X \<and> skipped_part h = Y \<and> todo_part h = Z"
  by (simp add: parts_defs)

lemma permute_step_parts:
  assumes "ordered g"
  shows "ordered (permute_step g)" "done_part (permute_step g) = done_part g"
    "skipped_part (permute_step g) = skipped_part g @ takeWhile nonoption_p (todo_part g)"
    "todo_part (permute_step g) = dropWhile nonoption_p (todo_part g)"
    "permuted g (permute_step g)"
proof -
  let ?D = "done_part g" and ?N = "skipped_part g" and ?R = "todo_part g"
  let ?s = "takeWhile nonoption_p ?R" and ?r = "dropWhile nonoption_p ?R"
  have g: "permute_step g = g\<lparr>argv := ?D @ ?N @ ?s @ ?r, first_nonopt := length ?D,
      last_nonopt := length (?D @ ?N @ ?s), optind := length (?D @ ?N @ ?s)\<rparr>"
    using permute_step_eq [OF assms] length_parts(4) [OF assms] by simp
  have "0 < length ?D" using length_parts(1) [OF assms] assms by (simp add: ordered_def)
  then show "ordered (permute_step g)" by (simp add: g ordered_def length_takeWhile_le)
  have "done_part (permute_step g) = ?D \<and> skipped_part (permute_step g) = ?N @ ?s
      \<and> todo_part (permute_step g) = ?r"
    by (rule parts_of_layout) (simp_all add: g)
  then show "done_part (permute_step g) = ?D" "todo_part (permute_step g) = ?r"
    "skipped_part (permute_step g) = ?N @ ?s"
    by simp_all
  show "permuted g (permute_step g)"
    unfolding permuted_def permute_step_eq [OF assms]
    using parts_mset [OF assms] parts_hd [OF assms] by simp
qed

lemma end_of_options_eq:
  assumes "ordered g" "todo_part g = a # R"
  shows "end_of_options g = g\<lparr>argv := done_part g @ [a] @ skipped_part g @ R,
    first_nonopt := length (done_part g) + 1, last_nonopt := length (argv g),
    optind := length (argv g)\<rparr>"
proof -
  let ?h = "g\<lparr>optind := optind g + 1\<rparr>"
  have lt: "optind g < length (argv g)" and a: "argv g ! optind g = a" "drop (Suc (optind g)) (argv g) = R"
    using assms(2) unfolding todo_part_def
    by (metis drop_all leI list.distinct(1), metis hd_drop_conv_nth list.sel(1) drop_all leI list.distinct(1),
        metis drop_Suc list.sel(3) tl_drop)
  have h: "ordered ?h" using assms(1) lt by (simp add: ordered_def)
  have parts: "done_part ?h = done_part g @ [a]" "skipped_part ?h = skipped_part g" "todo_part ?h = R"
    using assms(1) lt a by (simp_all add: parts_defs ordered_def take_Suc_conv_app_nth)
  have len: "length (argv g) = length (done_part g @ [a] @ skipped_part g @ R)"
    using mset_eq_length [OF parts_mset [OF h]] parts by simp
  show ?thesis
  proof (cases "first_nonopt g = last_nonopt g")
    case True
    then have "skipped_part g = []" "length (done_part g) = optind g"
      using length_parts [OF assms(1)] by (simp_all add: skipped_part_def)
    moreover from this have "argv g = done_part g @ [a] @ R"
      using argv_parts [OF assms(1)] assms(2) by (simp add: done_part_def)
    ultimately show ?thesis using True by (simp add: end_of_options_def)
  next
    case False
    with exchange_eq [OF h] parts len assms(1) show ?thesis
      by (simp add: end_of_options_def ordered_def)
  qed
qed

text \<open>\<open>advance\<close> from an ordered state, \<open>g1\<close> being the state once operands are skipped.\<close>

lemma advance_eq:
  assumes "ordered g" and g1: "g1 = (if arg_order g = PERMUTE then permute_step g else g)"
  shows "advance ps g =
    (case todo_part g1 of
       [] \<Rightarrow> (Inr (Some (- 1)), if skipped_part g1 = [] then g1
                              else g1\<lparr>optind := first_nonopt g1\<rparr>)
     | a # R \<Rightarrow>
         if a = ''--'' then
           (Inr (Some (- 1)), (end_of_options g1)\<lparr>optind := length (done_part g1) + 1\<rparr>)
         else if nonoption_p a then
           if arg_order g = REQUIRE_ORDER then (Inr (Some (- 1)), g1)
           else (Inr (Some 1), g1\<lparr>optarg := Some a, optind := optind g1 + 1\<rparr>)
         else
           (Inr None, g1\<lparr>nextchar := Some (drop (if ps \<noteq> None \<and> c_at a 1 = CHR ''-'' then 2 else 1) a)\<rparr>))"
proof -
  have o1: "ordered g1" and order: "arg_order g1 = arg_order g"
    using assms permute_step_parts(1) [OF assms(1)] permute_step_eq [OF assms(1)] by auto
  have "clamp_nonopts g = g" "optind g \<le> length (argv g)"
    using assms(1) by (auto simp: clamp_nonopts_def ordered_def)
  then have adv: "advance ps g =
     (let argc = length (argv g1);
          h = (if optind g1 \<noteq> argc \<and> argv g1 ! optind g1 = ''--'' then end_of_options g1 else g1) in
      if optind h = argc then
        (Inr (Some (- 1)), if first_nonopt h \<noteq> last_nonopt h then h\<lparr>optind := first_nonopt h\<rparr> else h)
      else if nonoption_p (argv h ! optind h) then
        if arg_order h = REQUIRE_ORDER then (Inr (Some (- 1)), h)
        else (Inr (Some 1), h\<lparr>optarg := Some (argv h ! optind h), optind := optind h + 1\<rparr>)
      else
        (Inr None,
         h\<lparr>nextchar := Some (drop (if ps \<noteq> None \<and> c_at (argv h ! optind h) 1 = CHR ''-''
                                   then 2 else 1) (argv h ! optind h))\<rparr>))"
    unfolding advance_def g1 by (simp add: Let_def)
  show ?thesis
  proof (cases "todo_part g1")
    case Nil
    with o1 have "optind g1 = length (argv g1)" by (simp add: todo_part_def ordered_def)
    moreover have "first_nonopt g1 = last_nonopt g1 \<longleftrightarrow> skipped_part g1 = []"
      using o1 length_parts(2) [OF o1] by (auto simp: ordered_def)
    ultimately show ?thesis by (simp add: adv Nil)
  next
    case (Cons a R)
    then have lt: "optind g1 < length (argv g1)" and a: "argv g1 ! optind g1 = a"
      unfolding todo_part_def
      by (metis drop_all leI list.distinct(1), metis hd_drop_conv_nth list.sel(1) drop_all leI list.distinct(1))
    note e = end_of_options_eq [OF o1 Cons]
    have len: "length (argv g1) = length (done_part g1 @ [a] @ skipped_part g1 @ R)"
      using mset_eq_length [OF parts_mset [OF o1]] Cons by simp
    from lt a order Cons e len show ?thesis
      by (cases "a = ''--''"; cases "skipped_part g1 = [] \<and> R = []") (auto simp: adv Let_def)
  qed
qed

section \<open>Safety and progress\<close>

definition weight :: "string list \<Rightarrow> nat" where
  "weight v = sum_list (map (\<lambda>a. length a + 1) v)"

text \<open>How much is left to scan: it bounds the number of calls that find something.\<close>

definition scan_left :: "scanner_state \<Rightarrow> nat" where
  "scan_left g =
     length (unread g) + weight (drop (if unread g = [] then optind g else optind g + 1) (argv g))"

lemma weight_simps [simp]: "weight [] = 0" "weight (a # v) = length a + 1 + weight v"
  "weight (u @ v) = weight u + weight v"
  by (simp_all add: weight_def)

lemma weight_drop: "weight (drop k v) \<le> weight v"
  by (metis append_take_drop_id le_add2 weight_simps(3))

lemma weight_drop_le: "i \<le> j \<Longrightarrow> weight (drop j v) \<le> weight (drop i v)"
  using weight_drop [of "j - i" "drop i v"] by simp

lemma weight_dropWhile_le: "weight (dropWhile P v) \<le> weight v"
  by (induction v) auto

lemma decoded_scan_left:
  assumes "decoded g g'" "unread g \<noteq> []"
  shows "scan_left g' < scan_left g"
proof (cases "unread g' = []")
  case True
  with assms(1) have "weight (drop (optind g') (argv g)) \<le> weight (drop (Suc (optind g)) (argv g))"
    by (intro weight_drop_le) (simp add: decoded_def)
  also from assms(2) have "\<dots> < length (unread g) + weight (drop (Suc (optind g)) (argv g))" by simp
  finally show ?thesis using True assms by (simp add: decoded_def scan_left_def)
next
  case False
  with assms show ?thesis by (cases "unread g") (auto simp: decoded_def scan_left_def)
qed

lemma decoded_wf:
  assumes "decoded g g'" "getopt_wf g" "getopt_initialized g" "0 < optind g" "optind g < length (argv g)"
  shows "getopt_wf g'"
  using assms by (auto simp: decoded_def getopt_wf_def split: if_splits)

lemma option_element:
  assumes "\<not> nonoption_p a" "a \<noteq> ''--''"
  obtains c rest where "drop (if b \<and> c_at a 1 = CHR ''-'' then 2 else 1) a = c # rest"
    "a = CHR ''-'' # (if b \<and> c_at a 1 = CHR ''-'' then CHR ''-'' # c # rest else c # rest)"
proof -
  from assms(1) obtain d r where a: "a = CHR ''-'' # d # r" "d \<noteq> NUL"
    by (cases a; cases "tl a") (auto simp: nonoption_p_def c_at_def split: if_splits)
  show ?thesis
  proof (cases "b \<and> d = CHR ''-''")
    case True
    with a assms(2) obtain c rest where "r = c # rest" by (cases r) auto
    with a True that show ?thesis by (simp add: c_at_def)
  next
    case False
    with a that show ?thesis by (auto simp: c_at_def)
  qed
qed


lemma advance_ok:
  assumes "ordered g" "getopt_initialized g" "unread g = []"
  shows "\<exists>r g'. advance ps g = (Inr r, g') \<and> permuted g g' \<and> getopt_wf g' \<and> getopt_initialized g'
    \<and> (r = None \<longrightarrow> ordered g' \<and> optind g' < length (argv g') \<and> unread g' \<noteq> [])
    \<and> (r \<noteq> Some (- 1) \<longrightarrow> scan_left g' < scan_left g) \<and> (r \<noteq> None \<longrightarrow> unread g' = [])"
proof -
  define g1 where "g1 = (if arg_order g = PERMUTE then permute_step g else g)"
  note adv = advance_eq [OF assms(1) g1_def]
  have o1: "ordered g1" and p1: "permuted g g1" and w1: "weight (todo_part g1) \<le> scan_left g"
    and i1: "getopt_initialized g1" "unread g1 = []"
    using assms permute_step_parts [OF assms(1)] permute_step_eq [OF assms(1)] weight_dropWhile_le
    by (auto simp: g1_def scan_left_def todo_part_def unread_def)
  have wf1: "getopt_wf g1" using o1 i1 by (auto simp: getopt_wf_def ordered_def)
  show ?thesis
  proof (cases "todo_part g1")
    case Nil
    with adv p1 wf1 o1 i1 show ?thesis
      by (auto simp: permuted_def getopt_wf_def ordered_def)
  next
    case (Cons a R)
    then have lt: "optind g1 < length (argv g1)" and todo: "drop (Suc (optind g1)) (argv g1) = R"
      unfolding todo_part_def
      by (metis drop_all leI list.distinct(1), metis drop_Suc list.sel(3) tl_drop)
    let ?e = "(end_of_options g1)\<lparr>optind := length (done_part g1) + 1\<rparr>"
    have e: "permuted g ?e" "getopt_wf ?e" "getopt_initialized ?e" "unread ?e = []"
    proof -
      have "permuted g1 ?e"
        using parts_mset [OF o1] parts_hd [OF o1] Cons
        by (simp add: end_of_options_eq [OF o1 Cons] permuted_def)
      with p1 show "permuted g ?e" by (rule permuted_trans)
      show "getopt_wf ?e" "getopt_initialized ?e" "unread ?e = []"
        using length_parts [OF o1] lt i1 by (auto simp: end_of_options_eq [OF o1 Cons] getopt_wf_def unread_def)
    qed
    let ?one = "g1\<lparr>optarg := Some a, optind := optind g1 + 1\<rparr>"
    have one: "permuted g ?one" "getopt_wf ?one" "getopt_initialized ?one" "scan_left ?one < scan_left g"
      "unread ?one = []"
      using p1 o1 i1 lt w1 Cons todo
      by (auto simp: permuted_def getopt_wf_def ordered_def scan_left_def)
    let ?n = "g1\<lparr>nextchar := Some (drop (if ps \<noteq> None \<and> c_at a 1 = CHR ''-'' then 2 else 1) a)\<rparr>"
    have n: "permuted g ?n" "getopt_wf ?n" "getopt_initialized ?n" "ordered ?n" "scan_left ?n < scan_left g"
      "optind ?n < length (argv ?n)" "unread ?n \<noteq> []"
      if opt: "\<not> nonoption_p a" "a \<noteq> ''--''"
    proof -
      obtain c rest where c: "drop (if ps \<noteq> None \<and> c_at a 1 = CHR ''-'' then 2 else 1) a = c # rest"
        "a = CHR ''-'' # (if ps \<noteq> None \<and> c_at a 1 = CHR ''-'' then CHR ''-'' # c # rest else c # rest)"
        by (rule option_element [OF opt, of "ps \<noteq> None"])
      then have "length (c # rest) < length a" by (cases "ps \<noteq> None \<and> c_at a 1 = CHR ''-''") auto
      with c(1) p1 o1 i1 lt w1 Cons todo show "permuted g ?n" "getopt_wf ?n" "getopt_initialized ?n" "ordered ?n"
        "scan_left ?n < scan_left g" "optind ?n < length (argv ?n)" "unread ?n \<noteq> []"
        by (auto simp: permuted_def getopt_wf_def ordered_def scan_left_def)
    qed
    consider "a = ''--''" | "a \<noteq> ''--''" "nonoption_p a" | "a \<noteq> ''--''" "\<not> nonoption_p a" by blast
    then show ?thesis
    proof cases
      case 1
      with adv Cons e show ?thesis by simp
    next
      case 2
      with adv Cons one p1 wf1 i1 show ?thesis by simp
    next
      case 3
      with adv Cons n show ?thesis by simp
    qed
  qed
qed

lemma decode_element_ok:
  assumes "optind g < length (argv g)" "unread g \<noteq> []" "no_w os"
  shows "\<exists>r g'. decode_element lo pe w os ps g = (Inr r, g') \<and> decoded g g'"
proof -
  from assms(2) obtain c rest where nc: "nextchar g = Some (c # rest)"
    by (cases "nextchar g"; cases "the (nextchar g)") (auto simp: unread_def)
  note short = short_option_decoded [OF assms(1) nc assms(3)]
  show ?thesis
  proof (cases ps)
    case None
    with short show ?thesis by (simp add: decode_element_def)
  next
    case (Some p)
    let ?a = "argv g ! optind g"
    show ?thesis
    proof (cases "long_syntax lo os ?a")
      case False
      with Some short assms(1) show ?thesis by (simp add: decode_element_def arg_at_def)
    next
      case True
      obtain r g' where l: "long_option lo pe w os p ?a (c # rest) g = (Inr r, g')"
        "if r = None then g' = g else decoded g g'"
        using long_option_decoded [OF assms(1)] by blast
      with True Some short assms(1) nc show ?thesis
        by (cases r) (simp_all add: decode_element_def arg_at_def)
    qed
  qed
qed

lemma no_w_tl: "no_w os \<Longrightarrow> c_at os 0 \<noteq> CHR ''W'' \<Longrightarrow> no_w (tl os)"
  by (cases os) (auto simp: no_w_def c_at_def)

lemma ordered_clamp:
  assumes "getopt_wf g" "getopt_initialized g" "0 < optind g"
  shows "ordered (clamp_nonopts g)"
  using assms by (auto simp: getopt_wf_def clamp_nonopts_def Let_def ordered_def)

lemma clamp_simps [simp]:
  "argv (clamp_nonopts g) = argv g" "optind (clamp_nonopts g) = optind g"
  "getopt_initialized (clamp_nonopts g) = getopt_initialized g"
  "nextchar (clamp_nonopts g) = nextchar g" "unread (clamp_nonopts g) = unread g"
  "arg_order (clamp_nonopts g) = arg_order g"
  by (simp_all add: clamp_nonopts_def Let_def unread_def)

lemma clamp_idem [simp]: "clamp_nonopts (clamp_nonopts g) = clamp_nonopts g"
  by (auto simp: clamp_nonopts_def Let_def)

lemma advance_clamp:
  "optind g \<le> length (argv g) \<Longrightarrow> advance ps (clamp_nonopts g) = advance ps g"
  by (simp add: advance_def)

text \<open>What entering the function makes of a well-formed state.\<close>

lemma getopt_enter_ok:
  assumes "getopt_wf g" "no_w os"
  shows "\<exists>os' g'. getopt_enter P os g = (os', g') \<and> no_w os' \<and> getopt_wf g' \<and> getopt_initialized g'
    \<and> 0 < optind g' \<and> argv g' = argv g \<and> scan_left g' \<le> scan_left g"
proof -
  have no_w: "no_w (tl os)" if "c_at os 0 = CHR ''-'' \<or> c_at os 0 = CHR ''+''"
    using no_w_tl [OF assms(2)] that by auto
  have argv: "0 < length (argv g)" using assms(1) by (simp add: getopt_wf_def)
  show ?thesis
  proof (cases "optind g = 0 \<or> \<not> getopt_initialized g")
    case False
    with assms show ?thesis by (simp add: getopt_enter_def getopt_wf_def scan_left_def)
  next
    case True
    have "weight (drop (Suc 0) (argv g)) \<le> weight (argv g)" by (rule weight_drop)
    with True argv assms no_w show ?thesis
      by (auto simp: getopt_enter_def getopt_initialize_def Let_def getopt_wf_def scan_left_def Suc_le_eq)
  qed
qed

lemma getopt_internal_ok:
  assumes "getopt_wf g" "no_w os"
  shows "\<exists>r g'. getopt_internal P w lo os ps g = (Inr r, g') \<and> getopt_wf g' \<and> permuted g g'
    \<and> (r \<noteq> - 1 \<longrightarrow> scan_left g' < scan_left g)"
proof -
  let ?pe = "opterr g \<and> c_at os 0 \<noteq> CHR '':''"
  obtain os' h where h: "getopt_enter P os g = (os', h)" "no_w os'" "getopt_wf h"
    "getopt_initialized h" "0 < optind h" "argv h = argv g" "scan_left h \<le> scan_left g"
    using getopt_enter_ok [OF assms] by blast
  have dec: "\<exists>r g'. decode_element lo ?pe w os' ps k = (Inr r, g') \<and> getopt_wf g' \<and> permuted g g'
      \<and> scan_left g' < scan_left g"
    if k: "getopt_wf k" "getopt_initialized k" "0 < optind k" "optind k < length (argv k)"
      "unread k \<noteq> []" "permuted g k" "scan_left k \<le> scan_left g" for k
  proof -
    obtain r g' where d: "decode_element lo ?pe w os' ps k = (Inr r, g')" "decoded k g'"
      using decode_element_ok [OF k(4,5) h(2)] by blast
    with decoded_wf [OF d(2) k(1-4)] decoded_scan_left [OF d(2) k(5)] k(6,7) show ?thesis
      by (auto simp: decoded_def permuted_def)
  qed
  have perm: "permuted g h" by (simp add: permuted_def h(6))
  note gi = getopt_internal_def [of P w lo os ps g] h(1)
  have argv: "argv g \<noteq> []" using assms(1) by (simp add: getopt_wf_def)
  show ?thesis
  proof (cases "unread h = []")
    case False
    then have nc: "\<not> (nextchar h = None \<or> nextchar h = Some [])" by (simp add: unread_Nil_iff)
    from False h have "optind h < length (argv h)" by (simp add: getopt_wf_def)
    from dec [OF h(3-5) this False perm h(7)] nc argv show ?thesis by (auto simp: gi)
  next
    case True
    then have nc: "nextchar h = None \<or> nextchar h = Some []"
      by (simp add: unread_Nil_iff)
    let ?c = "clamp_nonopts h"
    have c: "ordered ?c" "optind h \<le> length (argv h)" "scan_left ?c = scan_left h"
      using ordered_clamp [OF h(3-5)] h(3) by (simp_all add: getopt_wf_def scan_left_def)
    obtain r k where a: "advance ps h = (Inr r, k)" "permuted ?c k" "getopt_wf k" "getopt_initialized k"
      "r = None \<longrightarrow> ordered k \<and> optind k < length (argv k) \<and> unread k \<noteq> []"
      "r \<noteq> Some (- 1) \<longrightarrow> scan_left k < scan_left ?c"
      using advance_ok [OF c(1), of ps] h(4) True advance_clamp [OF c(2), of ps] by auto
    have pk: "permuted g k" using a(2) h(6) by (simp add: permuted_def)
    show ?thesis
    proof (cases r)
      case (Some v)
      with a c h(7) pk nc argv show ?thesis by (auto simp: gi)
    next
      case None
      with a have k: "0 < optind k" "optind k < length (argv k)" "unread k \<noteq> []" "scan_left k \<le> scan_left g"
        using c(3) h(7) by (auto simp: ordered_def)
      from dec [OF a(3,4) k(1-3) pk k(4)] None a(1) nc argv show ?thesis by (auto simp: gi)
    qed
  qed
qed

text \<open>An option that takes an argument leaves nothing of its element to be scanned.\<close>

lemma char_int_mod: "char_int c mod 256 = of_char c"
  by (simp add: char_int_def)

lemma char_int_inj [simp]: "char_int c = char_int d \<longleftrightarrow> c = d"
  by (metis char_int_mod of_char_eq_iff)

lemma decode_req_arg:
  assumes "decode_element lo pe w os ps g = (Inr (char_int c), g')" "no_w os"
    "optind g < length (argv g)" "unread g \<noteq> []" "kind_of os c = Req_Arg" "c \<noteq> CHR ''?''"
  shows "unread g' = []"
proof -
  from assms(4) obtain d rest where nc: "nextchar g = Some (d # rest)"
    by (cases "nextchar g"; cases "the (nextchar g)") (auto simp: unread_def)
  have short: "unread g' = []" if "short_option pe w os ps g = (Inr (char_int c), g')"
    using that [unfolded short_option_kind [OF nc assms(2)]] assms(5,6)
    by (cases "kind_of os d") (auto simp: eat_char_def split: if_splits prod.splits sum.splits option.splits)
  have long: "unread g' = []" if "long_option lo pe w os qs a s g = (Inr (Some v), g')" for qs a s v
    using that by (auto simp: long_option_def long_found_def long_value_def Let_def unread_def
      split: prod.splits if_splits option.splits)
  have none: "h = g" if "long_option lo pe w os qs a s g = (Inr None, h)" for qs a s h
    using long_option_decoded [OF assms(3), of lo pe w os qs a s] that by auto
  show ?thesis
    using assms(1,3) nc short long
    by (auto simp: decode_element_def arg_at_def bindM_def dest!: none
      split: option.splits if_splits prod.splits sum.splits)
qed

text \<open>A call that returns an option character has decoded an element.\<close>

lemma advance_value: "advance ps g = (Inr (Some v), g') \<Longrightarrow> v = - 1 \<or> v = 1"
  by (auto simp: advance_def end_of_options_def Let_def bindM_def split: if_splits sum.splits prod.splits)

lemma getopt_internal_decodes:
  assumes "getopt_internal P w lo os ps g = (Inr (char_int c), g')" "getopt_wf g" "no_w os"
    "c_at os 0 \<noteq> CHR ''-''" "c_at os 0 \<noteq> CHR ''+''" "char_int c \<notin> {- 1, 1}"
  obtains k pe where "optind k < length (argv k)" "unread k \<noteq> []"
    "decode_element lo pe w os ps k = (Inr (char_int c), g')"
proof -
  obtain h where h: "getopt_enter P os g = (os, h)" "getopt_wf h" "getopt_initialized h" "0 < optind h"
    "argv h = argv g"
    using getopt_enter_ok [OF assms(2,3), of P] assms(4,5)
    by (auto simp: getopt_enter_def getopt_initialize_def Let_def split: if_splits)
  have argv: "argv g \<noteq> []" using assms(2) by (simp add: getopt_wf_def)
  note gi = assms(1) [unfolded getopt_internal_def h(1) Let_def]
  show ?thesis
  proof (cases "unread h = []")
    case False
    with h(2-4) have "optind h < length (argv h)" by (simp add: getopt_wf_def)
    with False gi argv that show ?thesis by (auto simp: unread_Nil_iff)
  next
    case True
    have c: "ordered (clamp_nonopts h)" "optind h \<le> length (argv h)"
      using ordered_clamp [OF h(2-4)] h(2) by (simp_all add: getopt_wf_def)
    obtain r k where a: "advance ps h = (Inr r, k)"
      "r = None \<longrightarrow> ordered k \<and> optind k < length (argv k) \<and> unread k \<noteq> []"
      using advance_ok [OF c(1), of ps] h(3) True advance_clamp [OF c(2), of ps] by auto
    from True gi argv a(1) have call: "(case r of Some v \<Rightarrow> (Inr v, k)
        | None \<Rightarrow> decode_element lo (opterr g \<and> c_at os 0 \<noteq> CHR '':'') w os ps k) = (Inr (char_int c), g')"
      by (simp add: unread_Nil_iff)
    show ?thesis
    proof (cases r)
      case None
      with call that a(2) show ?thesis by auto
    qed (use call a(1) advance_value assms(6) in auto)
  qed
qed

lemma getopt_internal_req_arg:
  assumes "getopt_internal P w lo os ps g = (Inr (char_int c), g')" "getopt_wf g" "no_w os"
    "c_at os 0 \<noteq> CHR ''-''" "c_at os 0 \<noteq> CHR ''+''" "kind_of os c = Req_Arg" "c \<noteq> CHR ''?''"
    "char_int c \<notin> {- 1, 1}"
  shows "unread g' = []"
  by (rule getopt_internal_decodes [OF assms(1-5,8)]) (rule decode_req_arg [OF _ assms(3) _ _ assms(6,7)])

lemma match_long_in: "match_long lo s n i pf amb ps = (Some (j, p), x, y) \<Longrightarrow> p \<in> set ps \<or> pf = Some (j, p)"
  by (induction lo s n i pf amb ps rule: match_long.induct) (auto split: if_splits option.splits prod.splits)

text \<open>An option that needs an argument is returned with one.\<close>

lemma long_option_optarg:
  assumes "long_option lo pe w os ps this s g = (Inr (Some v), g')" "v \<noteq> missing_arg os"
    "v \<noteq> char_int (CHR ''?'')" "list_all (\<lambda>p. opt_flag p = None \<and> (opt_val p = v \<longrightarrow> has_arg p = 1)) ps"
  shows "optarg g' \<noteq> None"
proof -
  obtain found exact amb where m: "match_long lo s (length (name_part s)) 0 None False ps = (found, exact, amb)"
    by (cases "match_long lo s (length (name_part s)) 0 None False ps") auto
  show ?thesis
  proof (cases found)
    case None
    with assms m show ?thesis by (auto simp: long_option_def Let_def split: if_splits)
  next
    case (Some f)
    with m have "snd f \<in> set ps" using match_long_in by (cases f) fastforce
    with assms(4) have p: "opt_flag (snd f) = None" "opt_val (snd f) = v \<longrightarrow> has_arg (snd f) = 1"
      by (auto simp: list_all_iff)
    with assms(1-3) m Some show ?thesis
      by (auto simp: long_option_def long_found_def long_value_def Let_def split: if_splits sum.splits prod.splits)
  qed
qed

lemma decode_optarg:
  assumes "decode_element lo pe w os ps g = (Inr (char_int c), g')" "no_w os"
    "optind g < length (argv g)" "unread g \<noteq> []" "kind_of os c = Req_Arg" "c \<noteq> CHR ''?''"
    "\<And>qs. ps = Some qs \<Longrightarrow>
      list_all (\<lambda>p. opt_flag p = None \<and> (opt_val p = char_int c \<longrightarrow> has_arg p = 1)) qs"
    "c_at os 0 \<noteq> CHR '':''"
  shows "optarg g' \<noteq> None"
proof -
  from assms(4) obtain d rest where nc: "nextchar g = Some (d # rest)"
    by (cases "nextchar g"; cases "the (nextchar g)") (auto simp: unread_def)
  have v: "char_int c \<noteq> missing_arg os" "char_int c \<noteq> char_int (CHR ''?'')"
    using assms(6,8) by (simp_all add: missing_arg_def)
  have short: "optarg g' \<noteq> None" if "short_option pe w os qs g = (Inr (char_int c), g')" for qs
    using that [unfolded short_option_kind [OF nc assms(2)]] assms(5,6) v(1)
    by (cases "kind_of os d") (auto simp: eat_char_def short_argument_def arg_at_def Let_def split: if_splits prod.splits sum.splits option.splits)
  have none: "h = g" if "long_option lo pe w os qs a s g = (Inr None, h)" for qs a s h
    using long_option_decoded [OF assms(3), of lo pe w os qs a s] that by auto
  show ?thesis
    using assms(1,3) nc short long_option_optarg [OF _ v assms(7)]
    by (auto simp: decode_element_def arg_at_def bindM_def dest!: none
      split: option.splits if_splits prod.splits sum.splits)
qed

end
