(* ===== verification/Getopt_Parse.thy ===== *)
theory Getopt_Parse
  imports Getopt_Scan "HOL-Library.Sublist"
begin

text \<open>
  A direct reading of a command line, and the proof that the calls of \<open>getopt_long\<close>, one
  after the other, return it: each call takes the first event off the reading, and the last one
  leaves the options in front of the operands.
\<close>

section \<open>The reading of a command line\<close>

text \<open>
  An event is the value of a call and the \<open>optarg\<close> with it. A cluster of short options yields
  its events and the number of further elements it takes as an argument.
\<close>

type_synonym event = "int \<times> string option"

abbreviation refused :: event where "refused \<equiv> (char_int (CHR ''?''), None)"

fun short_events :: "string \<Rightarrow> string \<Rightarrow> string list \<Rightarrow> event list \<times> nat" where
  "short_events os [] R = ([], 0)"
| "short_events os (c # cs) R =
     (case kind_of os c of
        Bad \<Rightarrow> (let (es, k) = short_events os cs R in (refused # es, k))
      | No_Arg \<Rightarrow> (let (es, k) = short_events os cs R in ((char_int c, None) # es, k))
      | Opt_Arg \<Rightarrow> ([(char_int c, if cs = [] then None else Some cs)], 0)
      | Req_Arg \<Rightarrow>
          if cs \<noteq> [] then ([(char_int c, Some cs)], 0)
          else (case R of [] \<Rightarrow> ([(missing_arg os, None)], 0)
                        | r # _ \<Rightarrow> ([(char_int c, Some r)], 1)))"

text \<open>A long option is an exact name, or a prefix of options that all have the same effect.\<close>

definition differs :: "option_entry \<Rightarrow> option_entry \<Rightarrow> bool" where
  "differs q p \<longleftrightarrow> has_arg q \<noteq> has_arg p \<or> opt_flag q \<noteq> opt_flag p \<or> opt_val q \<noteq> opt_val p"

definition find_long :: "string \<Rightarrow> option_entry list \<Rightarrow> option_entry option" where
  "find_long nm ps =
     (case find (\<lambda>p. opt_name p = nm) ps of
        Some p \<Rightarrow> Some p
      | None \<Rightarrow>
          (case filter (\<lambda>p. prefix nm (opt_name p)) ps of
             [] \<Rightarrow> None
           | p # qs \<Rightarrow> if list_ex (differs p) qs then None else Some p))"

definition long_event :: "string \<Rightarrow> option_entry list \<Rightarrow> string \<Rightarrow> string list \<Rightarrow> event \<times> nat" where
  "long_event os ps s R =
     (case find_long (name_part s) ps of
        None \<Rightarrow> (refused, 0)
      | Some p \<Rightarrow>
          let v = (if opt_flag p = None then opt_val p else 0) in
          if value_part s \<noteq> [] then
            if has_arg p \<noteq> 0 then ((v, Some (tl (value_part s))), 0) else (refused, 0)
          else if has_arg p = 1 then
            (case R of [] \<Rightarrow> ((missing_arg os, None), 0) | r # _ \<Rightarrow> ((v, Some r), 1))
          else ((v, None), 0))"

definition element_events :: "string \<Rightarrow> option_entry list \<Rightarrow> string \<Rightarrow> string list \<Rightarrow> event list \<times> nat" where
  "element_events os ps a R =
     (if c_at a 1 = CHR ''-'' then let (e, k) = long_event os ps (drop 2 a) R in ([e], k)
      else short_events os (drop 1 a) R)"

text \<open>The events, the elements that are options or their arguments, and the operands.\<close>

function scan :: "bool \<Rightarrow> string \<Rightarrow> option_entry list \<Rightarrow> string list \<Rightarrow>
    event list \<times> string list \<times> string list" where
  "scan posix os ps [] = ([], [], [])"
| "scan posix os ps (a # R) =
     (if a = ''--'' then ([], [a], R)
      else if nonoption_p a then
        if posix then ([], [], a # R)
        else (let (es, opts, operands) = scan posix os ps R in (es, opts, a # operands))
      else
        (let (ev, k) = element_events os ps a R;
             (es, opts, operands) = scan posix os ps (drop k R) in
         (ev @ es, a # take k R @ opts, operands)))"
  by pat_completeness auto
termination
  by (relation "measure (\<lambda>(posix, os, ps, R). length R)") auto

declare scan.simps(2) [simp del]


lemma subseq_take_drop:
  "subseq xs (drop k R) \<Longrightarrow> subseq (take k R @ xs) R \<and> subseq xs R"
  by (metis append_take_drop_id list_emb_append2 list_emb_append_mono subseq_order.order_refl)

text \<open>Options and operands together are the arguments, each in the order they were given.\<close>

lemma scan_order:
  "scan posix os ps args = (es, opts, operands) \<Longrightarrow>
    mset opts + mset operands = mset args \<and> subseq opts args \<and> subseq operands args"
proof (induction posix os ps args arbitrary: es opts operands rule: scan.induct)
  case (2 posix os ps a R)
  consider "a = ''--''" | "a \<noteq> ''--''" "nonoption_p a" posix
    | "a \<noteq> ''--''" "nonoption_p a" "\<not> posix" | "a \<noteq> ''--''" "\<not> nonoption_p a" by blast
  then show ?case
  proof cases
    case 3
    with 2 show ?thesis by (auto simp: scan.simps(2) split: prod.splits)
  next
    case 4
    obtain ev k where e: "element_events os ps a R = (ev, k)" by (cases "element_events os ps a R") auto
    obtain es' opts' operands' where s: "scan posix os ps (drop k R) = (es', opts', operands')"
      by (cases "scan posix os ps (drop k R)") auto
    from "2.IH"(2) [OF 4 e [symmetric] refl s] have ih: "mset opts' + mset operands' = mset (drop k R)"
      "subseq opts' (drop k R)" "subseq operands' (drop k R)"
      by auto
    from 4 e s "2.prems" have eq: "opts = a # take k R @ opts'" "operands = operands'"
      by (auto simp: scan.simps(2))
    have "mset (take k R) + mset (drop k R) = mset R"
      by (metis append_take_drop_id mset_append)
    with ih eq subseq_take_drop [OF ih(2)] subseq_take_drop [OF ih(3)] show ?thesis
      by (auto simp: add.assoc)
  qed (use 2 in \<open>auto simp: scan.simps(2)\<close>)
qed simp

section \<open>Looking up a long option\<close>

definition first_match :: "string \<Rightarrow> (nat \<times> option_entry) option \<Rightarrow> option_entry list \<Rightarrow> option_entry list" where
  "first_match nm pf ps =
     (case pf of None \<Rightarrow> [] | Some q \<Rightarrow> [snd q]) @ filter (\<lambda>p. prefix nm (opt_name p)) ps"

lemma strncmp_prefix:
  assumes "NUL \<notin> set nm" "length nm \<le> length s" "take (length nm) s = nm"
  shows "strncmp_eq name s (length nm) \<longleftrightarrow> prefix nm name"
proof -
  have s: "take (length nm) (s @ [NUL]) = nm" using assms by simp
  show ?thesis
  proof (cases "length nm \<le> length name")
    case True
    then have "strncmp_eq name s (length nm) \<longleftrightarrow> take (length nm) name = nm"
      by (simp only: strncmp_eq_def s) simp
    then show ?thesis by (metis append_eq_conv_conj append_take_drop_id prefix_def)
  next
    case False
    then have "take (length nm) (name @ [NUL]) = name @ [NUL]" by simp
    moreover from assms(1) have "name @ [NUL] \<noteq> nm" by auto
    moreover from False have "\<not> prefix nm name" using prefix_length_le by blast
    ultimately show ?thesis by (simp only: strncmp_eq_def s)
  qed
qed

lemma match_long_eq:
  assumes "NUL \<notin> set nm" "length nm \<le> length s" "take (length nm) s = nm"
  shows "case match_long False s (length nm) i pf amb ps of (f, exact, a) \<Rightarrow>
    (case find (\<lambda>p. opt_name p = nm) ps of
       Some p \<Rightarrow> exact \<and> map_option snd f = Some p
     | None \<Rightarrow> \<not> exact \<and>
         (case first_match nm pf ps of
            [] \<Rightarrow> f = None \<and> a = amb
          | q # qs \<Rightarrow> map_option snd f = Some q \<and> a = (amb \<or> list_ex (differs q) qs)))"
proof (induction ps arbitrary: i pf amb)
  case Nil
  show ?case by (cases pf) (auto simp: first_match_def)
next
  case (Cons p ps)
  note m = strncmp_prefix [OF assms, of "opt_name p"]
  consider "opt_name p = nm" | "opt_name p \<noteq> nm" "\<not> prefix nm (opt_name p)"
    | "opt_name p \<noteq> nm" "prefix nm (opt_name p)" by blast
  then show ?case
  proof cases
    case 1
    with m show ?thesis by simp
  next
    case 2
    then have "first_match nm pf (p # ps) = first_match nm pf ps" by (simp add: first_match_def)
    with 2 m Cons.IH [where i = "Suc i" and pf = pf and amb = amb] show ?thesis
      by (simp split: prod.splits option.splits)
  next
    case 3
    then have len: "length nm \<noteq> length (opt_name p)" by (auto simp: prefix_def)
    show ?thesis
    proof (cases pf)
      case None
      with m 3 len Cons.IH [where i = "Suc i" and pf = "Some (i, p)" and amb = amb] show ?thesis
        by (simp add: first_match_def split: prod.splits option.splits)
    next
      case (Some q)
      with m 3 len Cons.IH [where i = "Suc i" and pf = pf and amb = "amb \<or> differs (snd q) p"] show ?thesis
        by (cases q) (simp add: first_match_def differs_def split: prod.splits option.splits)
    qed
  qed
qed

lemma name_value: "name_part s @ value_part s = s"
  by (simp add: name_part_def value_part_def)

lemma match_long_find:
  assumes "NUL \<notin> set s"
    and "match_long False s (length (name_part s)) 0 None False ps = (f, exact, amb)"
  shows "find_long (name_part s) ps = (if amb \<and> \<not> exact then None else map_option snd f)"
proof -
  have "NUL \<notin> set (name_part s)" using assms(1) by (metis Un_iff name_value set_append)
  moreover have "length (name_part s) \<le> length s" "take (length (name_part s)) s = name_part s"
    by (metis le_add1 length_append name_value, metis append_eq_conv_conj name_value)
  ultimately show ?thesis
    using match_long_eq [of "name_part s" s, where i = 0 and pf = None and amb = False and ps = ps] assms(2)
    by (auto simp: find_long_def first_match_def split: option.splits list.splits)
qed

section \<open>Decoding an element\<close>

lemma short_option_event:
  assumes "optind g < length (argv g)" "nextchar g = Some (c # rest)" "no_w os" "optarg g = None"
    "drop (Suc (optind g)) (argv g) = R"
  shows "\<exists>r g' es k. short_option pe w os ps g = (Inr r, g') \<and> decoded g g'
    \<and> short_events os (c # rest) R = ((r, optarg g') # es, k)
    \<and> (if unread g' = [] then es = [] \<and> optind g' = optind g + 1 + k
       else short_events os (unread g') R = (es, k))"
proof -
  from short_option_decoded [OF assms(1-3)] obtain r g' where
    r: "short_option pe w os ps g = (Inr r, g')" "decoded g g'"
    by blast
  obtain es k where e: "short_events os rest R = (es, k)" by (cases "short_events os rest R") auto
  have nil: "rest = [] \<Longrightarrow> es = [] \<and> k = 0" using e by auto
  note s = r(1) [unfolded short_option_kind [OF assms(2,3)]]
  have R: "R = [] \<longleftrightarrow> Suc (optind g) = length (argv g)" "R \<noteq> [] \<Longrightarrow> hd R = argv g ! Suc (optind g)"
    using assms(1,5) by (auto simp: hd_drop_conv_nth)
  show ?thesis
  proof (cases "kind_of os c")
    case Bad
    with s r e nil assms(4) show ?thesis by (auto simp: eat_char_def split: if_splits)
  next
    case No_Arg
    with s r e nil assms(4) show ?thesis by (auto simp: eat_char_def split: if_splits)
  next
    case Opt_Arg
    with s r assms(4) show ?thesis by (auto simp: eat_char_def split: if_splits)
  next
    case Req_Arg
    with s r assms(1,4) R show ?thesis
      by (cases R) (auto simp: eat_char_def short_argument_def arg_at_def split: if_splits)
  qed
qed

lemma long_found_event:
  assumes "optind g < length (argv g)" "optarg g = None" "drop (Suc (optind g)) (argv g) = R"
    and "find_long (name_part s) ps = Some (snd found)"
  shows "\<exists>r g' k. long_found pe w os (value_part s) found g = (Inr r, g') \<and> decoded g g'
    \<and> unread g' = [] \<and> long_event os ps s R = ((r, optarg g'), k) \<and> optind g' = optind g + 1 + k"
proof -
  from long_found_decoded [OF assms(1)] obtain r g' where
    r: "long_found pe w os (value_part s) found g = (Inr r, g')" "decoded g g'"
    by blast
  have R: "R = [] \<longleftrightarrow> Suc (optind g) = length (argv g)" "R \<noteq> [] \<Longrightarrow> hd R = argv g ! Suc (optind g)"
    using assms(1,3) by (auto simp: hd_drop_conv_nth)
  have "unread g' = [] \<and> (\<exists>k. long_event os ps s R = ((r, optarg g'), k) \<and> optind g' = optind g + 1 + k)"
    using r(1) assms(1,2,4) R
    by (cases R) (auto simp: long_found_def long_value_def long_event_def Let_def unread_def
      split: if_splits option.splits)
  with r show ?thesis by blast
qed

lemma long_option_event:
  assumes "optind g < length (argv g)" "optarg g = None" "drop (Suc (optind g)) (argv g) = R"
    and "c_at a 1 = CHR ''-''" "NUL \<notin> set s"
  shows "\<exists>r g' k. long_option False pe w os ps a s g = (Inr (Some r), g') \<and> decoded g g'
    \<and> unread g' = [] \<and> long_event os ps s R = ((r, optarg g'), k) \<and> optind g' = optind g + 1 + k"
proof -
  obtain f exact amb where
    m: "match_long False s (length (name_part s)) 0 None False ps = (f, exact, amb)"
    by (cases "match_long False s (length (name_part s)) 0 None False ps") auto
  note find = match_long_find [OF assms(5) m]
  consider "amb \<and> \<not> exact" | "\<not> (amb \<and> \<not> exact)" "f = None"
    | found where "\<not> (amb \<and> \<not> exact)" "f = Some found"
    by blast
  then show ?thesis
  proof cases
    case 1
    with find m assms(1,2) show ?thesis
      by (auto simp: long_option_def long_event_def decoded_def)
  next
    case 2
    with find have "find_long (name_part s) ps = None" by simp
    with 2 m assms(1,2,4) show ?thesis
      by (cases amb; cases exact) (auto simp: long_option_def long_event_def decoded_def)
  next
    case (3 found)
    with find have "find_long (name_part s) ps = Some (snd found)" by auto
    from long_found_event [OF assms(1-3) this] obtain r g' k where
      "long_found pe w os (value_part s) found g = (Inr r, g')" "decoded g g'" "unread g' = []"
      "long_event os ps s R = ((r, optarg g'), k)" "optind g' = optind g + 1 + k"
      by blast
    with 3 m show ?thesis
      by (intro exI [of _ r] exI [of _ g'] exI [of _ k])
        (cases amb; cases exact; simp add: long_option_def)
  qed
qed

section \<open>A call takes the first event\<close>

text \<open>What is to come from a state of the scanner, and how the arguments will stand at the end.\<close>

fun events_left :: "bool \<Rightarrow> string \<Rightarrow> option_entry list \<Rightarrow> string \<Rightarrow> string list \<Rightarrow>
    event list \<times> string list \<times> string list" where
  "events_left posix os ps [] R = scan posix os ps R"
| "events_left posix os ps (c # cs) R =
     (let (ev, k) = short_events os (c # cs) (tl R);
          (es, opts, operands) = scan posix os ps (drop k (tl R)) in
      (ev @ es, hd R # take k (tl R) @ opts, operands))"

definition outlook :: "bool \<Rightarrow> string \<Rightarrow> option_entry list \<Rightarrow> scanner_state \<Rightarrow> event list \<times> string list \<times> nat" where
  "outlook posix os ps g =
     (let (es, opts, operands) = events_left posix os ps (unread g) (todo_part g) in
      (es, done_part g @ opts @ skipped_part g @ operands, length (done_part g @ opts)))"

definition scanning :: "bool \<Rightarrow> scanner_state \<Rightarrow> bool" where
  "scanning posix g \<longleftrightarrow> getopt_initialized g \<and> ordered g
     \<and> arg_order g = (if posix then REQUIRE_ORDER else PERMUTE)
     \<and> (posix \<longrightarrow> first_nonopt g = last_nonopt g)
     \<and> list_all (\<lambda>a. NUL \<notin> set a) (argv g)
     \<and> (unread g \<noteq> [] \<longrightarrow> optind g < length (argv g) \<and> c_at (argv g ! optind g) 1 \<noteq> CHR ''-'')"

text \<open>Options are taken from the front of what is left, operands go behind them.\<close>

lemma parts_shift:
  assumes "ordered g" "argv g' = argv g" "first_nonopt g' = first_nonopt g"
    "last_nonopt g' = last_nonopt g" "optind g' = optind g + j" "j \<le> length (todo_part g)"
  shows "ordered g'" "done_part g' = done_part g @ take j (todo_part g)"
    "skipped_part g' = skipped_part g" "todo_part g' = drop j (todo_part g)"
proof -
  have t: "take (optind g + j) (argv g) = take (optind g) (argv g) @ take j (todo_part g)"
    by (simp add: take_add todo_part_def)
  from assms show "ordered g'" by (auto simp: ordered_def todo_part_def)
  from t assms show "done_part g' = done_part g @ take j (todo_part g)"
    "skipped_part g' = skipped_part g" "todo_part g' = drop j (todo_part g)"
    by (simp_all add: done_part_def skipped_part_def todo_part_def add.commute ordered_def)
qed

lemma scan_skips:
  "scan False os ps R = (let (es, opts, operands) = scan False os ps (dropWhile nonoption_p R) in
     (es, opts, takeWhile nonoption_p R @ operands))"
proof (induction R)
  case (Cons a R)
  have "nonoption_p a \<Longrightarrow> a \<noteq> ''--''" by (auto simp: nonoption_p_def c_at_def)
  with Cons show ?case
    by (cases "nonoption_p a") (auto simp: scan.simps(2) [of _ _ _ a R] split: prod.splits)
qed simp

lemma outlook_after:
  assumes "ordered g" "decoded g g'" "todo_part g = a # R"
    and "if unread g' = [] then es = [] \<and> optind g' = optind g + 1 + k
      else short_events os (unread g') R = (es, k)"
    and "scan posix os ps (drop k R) = (es2, opts, operands)"
  shows "ordered g' \<and> outlook posix os ps g' = (es @ es2,
    done_part g @ (a # take k R @ opts) @ skipped_part g @ operands,
    length (done_part g @ (a # take k R @ opts)))"
proof (cases "unread g' = []")
  case True
  with assms(1-4) have j: "optind g' = optind g + (1 + k)" "1 + k \<le> length (todo_part g)"
    using length_parts(3) [OF assms(1)] by (auto simp: decoded_def)
  with parts_shift [OF assms(1), of g' "1 + k"] assms True show ?thesis
    by (simp add: decoded_def outlook_def)
next
  case False
  with parts_shift [OF assms(1), of g' 0] assms have p: "ordered g'" "done_part g' = done_part g"
    "skipped_part g' = skipped_part g" "todo_part g' = a # R" "short_events os (unread g') R = (es, k)"
    by (simp_all add: decoded_def)
  from False have "events_left posix os ps (unread g') (a # R) = (es @ es2, a # take k R @ opts, operands)"
    using p(5) assms(5) by (cases "unread g'") simp_all
  with p show ?thesis by (simp add: outlook_def)
qed

lemma outlook_skip:
  assumes "scanning posix g" "unread g = []"
    and "g1 = (if arg_order g = PERMUTE then permute_step g else g)"
  shows "outlook posix os ps g = (let (es, opts, operands) = scan posix os ps (todo_part g1) in
      (es, done_part g1 @ opts @ skipped_part g1 @ operands, length (done_part g1 @ opts)))"
    and "argv g1 = done_part g1 @ skipped_part g1 @ todo_part g1"
    and "skipped_part g1 \<noteq> [] \<Longrightarrow> first_nonopt g1 = length (done_part g1)"
    and "ordered g1" "getopt_initialized g1" "arg_order g1 = arg_order g"
    and "posix \<Longrightarrow> first_nonopt g1 = last_nonopt g1" "list_all (\<lambda>a. NUL \<notin> set a) (argv g1)"
    and "\<not> posix \<Longrightarrow> todo_part g1 = a # R \<Longrightarrow> \<not> nonoption_p a"
proof -
  have ord: "ordered g" and init: "getopt_initialized g"
    and nul: "list_all (\<lambda>a. NUL \<notin> set a) (argv g)"
    using assms(1) by (auto simp: scanning_def)
  have all: "\<forall>a \<in> set (argv g1). NUL \<notin> set a" if "permuted g g1"
    using that nul mset_eq_setD [of "argv g1" "argv g"] by (auto simp: permuted_def list_all_iff)
  show "outlook posix os ps g = (let (es, opts, operands) = scan posix os ps (todo_part g1) in
      (es, done_part g1 @ opts @ skipped_part g1 @ operands, length (done_part g1 @ opts)))"
  proof (cases posix)
    case True
    with assms show ?thesis by (simp add: outlook_def scanning_def)
  next
    case False
    with assms have "g1 = permute_step g" by (simp add: scanning_def)
    with False assms(2) show ?thesis
      using permute_step_parts [OF ord] scan_skips [of os ps "todo_part g"]
      by (simp add: outlook_def split: prod.splits)
  qed
  have "permuted g g1 \<and> argv g1 = done_part g1 @ skipped_part g1 @ todo_part g1
    \<and> (skipped_part g1 \<noteq> [] \<longrightarrow> first_nonopt g1 = length (done_part g1)) \<and> ordered g1
    \<and> getopt_initialized g1 \<and> arg_order g1 = arg_order g \<and> (posix \<longrightarrow> first_nonopt g1 = last_nonopt g1)
    \<and> (\<not> posix \<longrightarrow> todo_part g1 = a # R \<longrightarrow> \<not> nonoption_p a)"
  proof (cases posix)
    case True
    with assms have g1: "g1 = g" "first_nonopt g = last_nonopt g" by (auto simp: scanning_def)
    then have "skipped_part g = []" by (simp add: skipped_part_def)
    with argv_parts [OF ord] g1 ord init True show ?thesis by (simp add: done_part_def)
  next
    case False
    with assms have g1: "g1 = permute_step g" by (simp add: scanning_def)
    have "argv g1 = done_part g @ skipped_part g @ takeWhile nonoption_p (todo_part g)
        @ dropWhile nonoption_p (todo_part g)"
      by (simp add: g1 permute_step_eq [OF ord])
    moreover have "dropWhile nonoption_p (todo_part g) = a # R \<Longrightarrow> \<not> nonoption_p a"
      by (simp add: dropWhile_eq_Cons_conv)
    ultimately show ?thesis
      using permute_step_parts [OF ord] init False by (simp add: g1 permute_step_eq [OF ord])
  qed
  with all show "argv g1 = done_part g1 @ skipped_part g1 @ todo_part g1"
    and "skipped_part g1 \<noteq> [] \<Longrightarrow> first_nonopt g1 = length (done_part g1)"
    and "ordered g1" "getopt_initialized g1" "arg_order g1 = arg_order g"
    and "posix \<Longrightarrow> first_nonopt g1 = last_nonopt g1" "list_all (\<lambda>a. NUL \<notin> set a) (argv g1)"
    and "\<not> posix \<Longrightarrow> todo_part g1 = a # R \<Longrightarrow> \<not> nonoption_p a"
    by (auto simp: list_all_iff)
qed

text \<open>
  The result of a call agrees with the outlook: it takes the first event, or there is none and
  the arguments stand as foreseen.
\<close>

definition agrees :: "bool \<Rightarrow> string \<Rightarrow> option_entry list \<Rightarrow> event list \<times> string list \<times> nat \<Rightarrow>
    int \<Rightarrow> scanner_state \<Rightarrow> bool" where
  "agrees posix os ps out r g' \<longleftrightarrow>
     (case fst out of
        [] \<Rightarrow> r = - 1 \<and> optarg g' = None \<and> argv g' = fst (snd out) \<and> optind g' = snd (snd out)
      | e # es \<Rightarrow> e = (r, optarg g') \<and> scanning posix g' \<and> outlook posix os ps g' = (es, snd out))"

lemma scanning_after:
  assumes "decoded g g'" "ordered g'" "getopt_initialized g"
    "arg_order g = (if posix then REQUIRE_ORDER else PERMUTE)"
    "posix \<Longrightarrow> first_nonopt g = last_nonopt g" "list_all (\<lambda>a. NUL \<notin> set a) (argv g)"
    "unread g' \<noteq> [] \<Longrightarrow> c_at (argv g ! optind g) 1 \<noteq> CHR ''-''" "optind g < length (argv g)"
  shows "scanning posix g'"
  using assms by (auto simp: scanning_def decoded_def split: if_splits)

lemma todo_Cons:
  assumes "todo_part g = a # R"
  shows "optind g < length (argv g)" "argv g ! optind g = a" "drop (Suc (optind g)) (argv g) = R"
  using assms unfolding todo_part_def
  by (metis drop_all leI list.distinct(1), metis hd_drop_conv_nth list.sel(1) drop_all leI list.distinct(1),
      metis drop_Suc list.sel(3) tl_drop)

text \<open>Decoding the element at \<open>optind\<close>, from its start or in the middle of a cluster.\<close>

lemma decode_short_agrees:
  assumes "ordered g" "getopt_initialized g" "arg_order g = (if posix then REQUIRE_ORDER else PERMUTE)"
    "posix \<Longrightarrow> first_nonopt g = last_nonopt g" "list_all (\<lambda>a. NUL \<notin> set a) (argv g)"
    and "todo_part g = a # R" "nextchar g = Some (c # rest)" "optarg g = None" "no_w os"
    "c_at a 1 \<noteq> CHR ''-''"
  shows "\<exists>r g'. decode_element False pe True os (Some ps) g = (Inr r, g')
    \<and> agrees posix os ps (let (ev, k) = short_events os (c # rest) R;
        (es, opts, operands) = scan posix os ps (drop k R) in
      (ev @ es, done_part g @ (a # take k R @ opts) @ skipped_part g @ operands,
       length (done_part g @ (a # take k R @ opts)))) r g'"
proof -
  note t = todo_Cons [OF assms(6)]
  from short_option_event [OF t(1) assms(7,9,8) t(3), of pe True "Some ps"] obtain r g' es k where
    s: "short_option pe True os (Some ps) g = (Inr r, g')" "decoded g g'"
      "short_events os (c # rest) R = ((r, optarg g') # es, k)"
      "if unread g' = [] then es = [] \<and> optind g' = optind g + 1 + k
       else short_events os (unread g') R = (es, k)"
    by blast
  obtain es2 opts operands where e: "scan posix os ps (drop k R) = (es2, opts, operands)"
    by (cases "scan posix os ps (drop k R)") auto
  note after = outlook_after [OF assms(1) s(2) assms(6) s(4) e]
  have "scanning posix g'"
    using scanning_after [OF s(2) _ assms(2,3,4,5)] after assms(10) t by blast
  moreover have "decode_element False pe True os (Some ps) g = (Inr r, g')"
    using s(1) t assms(10) by (simp add: decode_element_def arg_at_def long_syntax_def)
  ultimately show ?thesis using s(3) e after by (auto simp: agrees_def)
qed

lemma decode_long_agrees:
  assumes "ordered g" "getopt_initialized g" "arg_order g = (if posix then REQUIRE_ORDER else PERMUTE)"
    "posix \<Longrightarrow> first_nonopt g = last_nonopt g" "list_all (\<lambda>a. NUL \<notin> set a) (argv g)"
    and "todo_part g = a # R" "nextchar g = Some s" "optarg g = None" "c_at a 1 = CHR ''-''"
    "NUL \<notin> set s"
  shows "\<exists>r g'. decode_element False pe True os (Some ps) g = (Inr r, g')
    \<and> agrees posix os ps (let (e, k) = long_event os ps s R;
        (es, opts, operands) = scan posix os ps (drop k R) in
      (e # es, done_part g @ (a # take k R @ opts) @ skipped_part g @ operands,
       length (done_part g @ (a # take k R @ opts)))) r g'"
proof -
  note t = todo_Cons [OF assms(6)]
  from long_option_event [OF t(1) assms(8) t(3) assms(9,10), of pe True os ps] obtain r g' k where
    s: "long_option False pe True os ps a s g = (Inr (Some r), g')" "decoded g g'" "unread g' = []"
      "long_event os ps s R = ((r, optarg g'), k)" "optind g' = optind g + 1 + k"
    by blast
  obtain es2 opts operands where e: "scan posix os ps (drop k R) = (es2, opts, operands)"
    by (cases "scan posix os ps (drop k R)") auto
  have after: "ordered g' \<and> outlook posix os ps g' = (es2,
      done_part g @ (a # take k R @ opts) @ skipped_part g @ operands,
      length (done_part g @ (a # take k R @ opts)))"
    using outlook_after [OF assms(1) s(2) assms(6) _ e, of "[]"] s(3,5) by simp
  have "scanning posix g'"
    using scanning_after [OF s(2) _ assms(2,3,4,5)] after s(3) t by blast
  moreover have "decode_element False pe True os (Some ps) g = (Inr r, g')"
    using s(1) t assms(7,9) by (simp add: decode_element_def arg_at_def long_syntax_def)
  ultimately show ?thesis using s(4) e after by (auto simp: agrees_def)
qed

lemma outlook_optarg [simp]:
  "outlook posix os ps (g\<lparr>optarg := x\<rparr>) = outlook posix os ps g"
  "scanning posix (g\<lparr>optarg := x\<rparr>) = scanning posix g"
  by (simp_all add: outlook_def parts_defs scanning_def ordered_def)

lemma clamp_ordered [simp]: "ordered g \<Longrightarrow> clamp_nonopts g = g"
  by (auto simp: clamp_nonopts_def ordered_def)

lemma getopt_long_scanning:
  assumes "scanning posix g"
  shows "getopt_long P os ps g =
    (let pe = (opterr g \<and> c_at os 0 \<noteq> CHR '':''); g = g\<lparr>optarg := None\<rparr> in
     if unread g \<noteq> [] then decode_element False pe True os (Some ps) g
     else bindM (advance (Some ps))
       (\<lambda>r g. case r of Some v \<Rightarrow> (Inr v, g)
                    | None \<Rightarrow> decode_element False pe True os (Some ps) g) g)"
proof -
  from assms have "getopt_initialized g" "optind g \<noteq> 0" "argv g \<noteq> []"
    by (auto simp: scanning_def ordered_def)
  then show ?thesis
    by (auto simp: getopt_long_def getopt_internal_def getopt_enter_def unread_Nil_iff Let_def bindM_def)
qed

lemma getopt_long_step:
  assumes "scanning posix g" "no_w os"
  shows "\<exists>r g'. getopt_long P os ps g = (Inr r, g') \<and> agrees posix os ps (outlook posix os ps g) r g'"
proof -
  define h where "h = g\<lparr>optarg := None\<rparr>"
  let ?pe = "opterr g \<and> c_at os 0 \<noteq> CHR '':''"
  have h: "scanning posix h" "optarg h = None" "outlook posix os ps h = outlook posix os ps g"
    using assms(1) by (simp_all add: h_def)
  from h(1) have sc: "ordered h" "getopt_initialized h"
    "arg_order h = (if posix then REQUIRE_ORDER else PERMUTE)"
    "posix \<Longrightarrow> first_nonopt h = last_nonopt h" "list_all (\<lambda>a. NUL \<notin> set a) (argv h)"
    by (simp_all add: scanning_def)
  have call: "getopt_long P os ps g = (if unread h \<noteq> [] then decode_element False ?pe True os (Some ps) h
     else bindM (advance (Some ps))
       (\<lambda>r g. case r of Some v \<Rightarrow> (Inr v, g)
                    | None \<Rightarrow> decode_element False ?pe True os (Some ps) g) h)"
    by (simp add: getopt_long_scanning [OF assms(1)] h_def)
  show ?thesis
  proof (cases "unread h")
    case (Cons c rest)
    then have nc: "nextchar h = Some (c # rest)" by (auto simp: unread_def split: option.splits)
    from Cons h(1) have lt: "optind h < length (argv h)" "c_at (argv h ! optind h) 1 \<noteq> CHR ''-''"
      by (simp_all add: scanning_def)
    then have todo: "todo_part h = argv h ! optind h # drop (Suc (optind h)) (argv h)"
      by (simp add: todo_part_def Cons_nth_drop_Suc)
    have "outlook posix os ps h =
       (let (ev, k) = short_events os (c # rest) (drop (Suc (optind h)) (argv h));
            (es, opts, operands) = scan posix os ps (drop k (drop (Suc (optind h)) (argv h)));
            opts = argv h ! optind h # take k (drop (Suc (optind h)) (argv h)) @ opts in
        (ev @ es, done_part h @ opts @ skipped_part h @ operands, length (done_part h @ opts)))"
      by (simp only: outlook_def Cons todo events_left.simps) (simp split: prod.splits)
    with decode_short_agrees [OF sc todo nc h(2) assms(2) lt(2), of ?pe ps] Cons show ?thesis
      unfolding call h(3) [symmetric] by (simp del: short_events.simps add: Let_def split_beta)
  next
    case Nil
    define g1 where "g1 = (if arg_order h = PERMUTE then permute_step h else h)"
    note o = outlook_skip [OF h(1) Nil g1_def]
    note adv = advance_eq [OF sc(1) g1_def]
    have arg1: "optarg g1 = None"
      using h(2) permute_step_eq [OF sc(1)] by (simp add: g1_def)
    have last: "length (done_part g1) = optind g1" if "skipped_part g1 = []"
      using that length_parts(4) [OF o(4)] by simp
    show ?thesis
    proof (cases "todo_part g1")
      case todo: Nil
      with adv Nil o(2,3) last arg1 show ?thesis
        by (simp add: call h(3) [symmetric] o(1) agrees_def)
    next
      case todo: (Cons a R)
      note t = todo_Cons [OF todo]
      consider "a = ''--''" | "a \<noteq> ''--''" "nonoption_p a" | "a \<noteq> ''--''" "\<not> nonoption_p a" by blast
      then show ?thesis
      proof cases
        case 1
        with adv Nil todo arg1 end_of_options_eq [OF o(4) todo] show ?thesis
          by (simp add: call h(3) [symmetric] o(1) agrees_def scan.simps)
      next
        case 2
        then have p: posix using o(9) todo by blast
        then have "skipped_part g1 = []" "arg_order h = REQUIRE_ORDER"
          "scan posix os ps (a # R) = ([], [], a # R)"
          using 2 o(7) sc(3) by (simp_all add: skipped_part_def scan.simps)
        with 2 adv Nil todo arg1 last o(2) show ?thesis
          by (simp add: call h(3) [symmetric] o(1) agrees_def)
      next
        case 3
        obtain c rest where cr: "drop (if True \<and> c_at a 1 = CHR ''-'' then 2 else 1) a = c # rest"
          by (rule option_element [OF 3(2,1), of True])
        define k where "k = g1\<lparr>nextchar := Some (c # rest)\<rparr>"
        have same: "argv k = argv g1" "optind k = optind g1" "first_nonopt k = first_nonopt g1"
          "last_nonopt k = last_nonopt g1" "getopt_initialized k = getopt_initialized g1"
          "arg_order k = arg_order g1" "optarg k = None" "nextchar k = Some (c # rest)"
          using arg1 by (simp_all add: k_def)
        have k: "ordered k" "getopt_initialized k" "arg_order k = (if posix then REQUIRE_ORDER else PERMUTE)"
          "posix \<Longrightarrow> first_nonopt k = last_nonopt k" "list_all (\<lambda>a. NUL \<notin> set a) (argv k)"
          "todo_part k = a # R" "done_part k = done_part g1" "skipped_part k = skipped_part g1"
          using o(4-8) sc(3) todo unfolding ordered_def parts_defs same by auto
        have nul: "NUL \<notin> set a" using o(8) t(1,2) by (auto simp: list_all_length)
        have a: "advance (Some ps) h = (Inr None, k)"
          using adv todo 3 cr by (simp add: k_def)
        show ?thesis
        proof (cases "c_at a 1 = CHR ''-''")
          case True
          with cr have s: "drop 2 a = c # rest" by simp
          with nul have "NUL \<notin> set (c # rest)" by (metis in_set_dropD)
          from decode_long_agrees [OF k(1-6) same(8,7) True this, of ?pe os ps] k(7,8) a Nil todo 3 True s
          show ?thesis
            by (simp add: call h(3) [symmetric] o(1) scan.simps element_events_def split_beta Let_def)
        next
          case False
          with cr have s: "drop 1 a = c # rest" by simp
          from decode_short_agrees [OF k(1-6) same(8,7) assms(2) False, of ?pe ps] k(7,8) a Nil todo 3 False s
          show ?thesis
            by (simp add: call h(3) [symmetric] o(1) scan.simps element_events_def split_beta Let_def
              del: short_events.simps)
        qed
      qed
    qed
  qed
qed

section \<open>All calls\<close>

text \<open>The client's loop: call until the value is \<open>-1\<close>, at most \<open>n\<close> times.\<close>

fun getopt_calls :: "nat \<Rightarrow> string option \<Rightarrow> string \<Rightarrow> option_entry list \<Rightarrow> scanner_state \<Rightarrow>
    (event list \<times> scanner_state) option" where
  "getopt_calls 0 P os ps g = None"
| "getopt_calls (Suc n) P os ps g =
     (case getopt_long P os ps g of
        (Inl e, g) \<Rightarrow> None
      | (Inr r, g) \<Rightarrow>
          if r = - 1 then Some ([], g)
          else map_option (\<lambda>(es, g'). ((r, optarg g) # es, g')) (getopt_calls n P os ps g))"

text \<open>The first call of a program, whose static variables hold their initial values.\<close>

definition getopt_start :: "string list \<Rightarrow> scanner_state" where
  "getopt_start v = \<lparr>argv = v, optarg = None, optind = 1, getopt_initialized = False,
     nextchar = None, opterr = True, optopt = char_int (CHR ''?''), arg_order = REQUIRE_ORDER,
     posixly_correct = None, first_nonopt = 0, last_nonopt = 0, longind = 0, opt_flags = (\<lambda>_. 0),
     err_text = []\<rparr>"

definition entered :: "string option \<Rightarrow> string list \<Rightarrow> scanner_state" where
  "entered P v = (getopt_start v)\<lparr>first_nonopt := 1, last_nonopt := 1, posixly_correct := P,
     arg_order := (if P = None then PERMUTE else REQUIRE_ORDER), getopt_initialized := True\<rparr>"

lemma getopt_first_call:
  assumes "v \<noteq> []" "c_at os 0 \<noteq> CHR ''-''" "c_at os 0 \<noteq> CHR ''+''"
  shows "getopt_long P os ps (getopt_start v) = getopt_long P os ps (entered P v)"
  using assms by (simp add: getopt_long_def getopt_internal_def getopt_enter_def
    getopt_initialize_def getopt_start_def entered_def Let_def)

lemma entered_scanning:
  "v \<noteq> [] \<Longrightarrow> list_all (\<lambda>a. NUL \<notin> set a) v \<Longrightarrow> scanning (P \<noteq> None) (entered P v)"
  by (auto simp: scanning_def ordered_def entered_def getopt_start_def unread_def Suc_le_eq)

lemma entered_outlook:
  "outlook posix os ps (entered P (prog # args)) =
    (let (es, opts, operands) = scan posix os ps args in
     (es, prog # opts @ operands, 1 + length opts))"
  by (simp add: outlook_def parts_defs entered_def getopt_start_def unread_def split_beta)

lemma getopt_calls_scanning:
  assumes "no_w os"
  shows "scanning posix g \<Longrightarrow> list_all (\<lambda>e. fst e \<noteq> - 1) (fst (outlook posix os ps g)) \<Longrightarrow>
    length (fst (outlook posix os ps g)) < n \<Longrightarrow>
    \<exists>g'. getopt_calls n P os ps g = Some (fst (outlook posix os ps g), g')
      \<and> (argv g', optind g') = snd (outlook posix os ps g)"
proof (induction n arbitrary: g)
  case (Suc n)
  obtain es v i where out: "outlook posix os ps g = (es, v, i)" by (cases "outlook posix os ps g") auto
  from getopt_long_step [OF Suc.prems(1) assms, of P ps] obtain r g' where
    s: "getopt_long P os ps g = (Inr r, g')" "agrees posix os ps (es, v, i) r g'"
    unfolding out by blast
  show ?case
  proof (cases es)
    case Nil
    with s out show ?thesis by (simp add: agrees_def)
  next
    case (Cons e es')
    with s out have e: "e = (r, optarg g')" "scanning posix g'" "outlook posix os ps g' = (es', v, i)"
      by (simp_all add: agrees_def)
    from Suc.prems out Cons e have "r \<noteq> - 1" "list_all (\<lambda>e. fst e \<noteq> - 1) es'" "length es' < n"
      by simp_all
    with Suc.IH [OF e(2)] e s out Cons show ?thesis by auto
  qed
qed simp

section \<open>Any sequence of calls\<close>

text \<open>A call of one of the entry points: its arguments besides \<open>argv\<close>.\<close>

type_synonym getopt_call = "string option \<times> bool \<times> bool \<times> string \<times> option_entry list option"

definition call_step :: "scanner_state \<Rightarrow> getopt_call \<Rightarrow> scanner_state" where
  "call_step g c = (case c of (P, w, lo, os, ps) \<Rightarrow> snd (getopt_internal P w lo os ps g))"

definition plain_call :: "getopt_call \<Rightarrow> bool" where
  "plain_call c = (case c of (P, w, lo, os, ps) \<Rightarrow> no_w os)"

lemma call_step_ok:
  assumes "getopt_wf g" "plain_call c"
  shows "getopt_wf (call_step g c)" "permuted g (call_step g c)"
proof -
  obtain P w lo os ps where c: "c = (P, w, lo, os, ps)" by (cases c) auto
  with assms have "no_w os" by (simp add: plain_call_def)
  from getopt_internal_ok [OF assms(1) this, of P w lo ps]
  show "getopt_wf (call_step g c)" "permuted g (call_step g c)"
    by (auto simp: call_step_def c)
qed

interpretation calls: invariant_machine call_step "\<lambda>g. getopt_wf g \<and> permuted g0 g" plain_call
  for g0
  by unfold_locales (use call_step_ok permuted_trans in blast)

section \<open>The values of a reading\<close>

text \<open>The values of a reading: an option character of the string, with the argument it needs.\<close>

definition proper :: "string \<Rightarrow> event \<Rightarrow> bool" where
  "proper os e \<longleftrightarrow> fst e = char_int (CHR ''?'') \<or> fst e = missing_arg os
     \<or> (\<exists>c. fst e = char_int c \<and> kind_of os c \<noteq> Bad \<and> (kind_of os c = Req_Arg \<longrightarrow> snd e \<noteq> None)
        \<and> (kind_of os c = No_Arg \<longrightarrow> snd e = None))"

lemma short_events_proper: "list_all (proper os) (fst (short_events os cs R))"
  by (induction os cs R rule: short_events.induct)
    (auto simp: proper_def split_beta split: arg_kind.splits list.splits)

lemma long_event_value:
  "fst (fst (long_event os ps s R)) \<in> {char_int (CHR ''?''), missing_arg os, 0} \<union> opt_val ` set ps"
proof -
  have "p \<in> set ps" if "find_long nm ps = Some p" for nm p
    using that by (auto simp: find_long_def find_Some_iff split: option.splits list.splits if_splits
      dest!: filter_eq_ConsD)
  then show ?thesis
    by (auto simp: long_event_def Let_def split: option.splits list.splits)
qed

lemma scan_values:
  "scan posix os ps args = (es, options, operands) \<Longrightarrow>
    list_all (\<lambda>e. proper os e \<or> fst e = 0 \<or> fst e \<in> opt_val ` set ps) es"
proof (induction posix os ps args arbitrary: es options operands rule: scan.induct)
  case (2 posix os ps a R)
  have el: "list_all (\<lambda>e. proper os e \<or> fst e = 0 \<or> fst e \<in> opt_val ` set ps) (fst (element_events os ps a R))"
    using long_event_value [of os ps "drop 2 a" R] short_events_proper [of os "drop 1 a" R]
    by (auto simp: element_events_def split_beta list_all_iff proper_def)
  show ?case
  proof (cases "a = ''--'' \<or> nonoption_p a")
    case True
    with "2.IH"(1) "2.prems" show ?thesis by (auto simp: scan.simps(2) split: if_splits prod.splits)
  next
    case False
    with "2.IH"(2) "2.prems" el show ?thesis
      by (auto simp: scan.simps(2) split: prod.splits)
  qed
qed simp

section \<open>Properties\<close>

text \<open>\<open>exchange\<close> turns the vector \<open>pre A B post\<close>, \<open>A\<close> the operands and \<open>B\<close>
  the options behind them, into \<open>pre B A post\<close>: both segments keep their order, whatever their
  lengths, and the recorded bounds again delimit the operands.\<close>

theorem exchange_swaps_segments:
  assumes "argv g = pre @ A @ B @ post" "first_nonopt g = length pre"
    "last_nonopt g = length (pre @ A)" "optind g = length (pre @ A @ B)"
  shows "argv (exchange g) = pre @ B @ A @ post
    \<and> first_nonopt (exchange g) = length (pre @ B) \<and> last_nonopt (exchange g) = length (pre @ B @ A)"
  using exchange_loop_eq [of pre "first_nonopt g" A "last_nonopt g" B "optind g" post] assms
  by (simp add: exchange_def)

definition sample_argv :: "string list" where
  "sample_argv = [''rootsh'', ''file'', ''-xu'', ''joe'', ''dir'', ''--login'', ''--'', ''-y'']"

definition sample_options :: "option_entry list" where
  "sample_options = [\<lparr>opt_name = ''logfile'', has_arg = 1, opt_flag = None, opt_val = char_int (CHR ''f'')\<rparr>,
     \<lparr>opt_name = ''login'', has_arg = 0, opt_flag = None, opt_val = char_int (CHR ''i'')\<rparr>]"

theorem exchange_swaps_segments_witness:
  "argv (exchange ((entered None sample_argv)\<lparr>first_nonopt := 1, last_nonopt := 2, optind := 4\<rparr>))
    = [''rootsh'', ''-xu'', ''joe'', ''file'', ''dir'', ''--login'', ''--'', ''-y'']"
  using exchange_swaps_segments [of "(entered None sample_argv)\<lparr>first_nonopt := 1, last_nonopt := 2,
      optind := 4\<rparr>" "[''rootsh'']" "[''file'']" "[''-xu'', ''joe'']"
      "[''dir'', ''--login'', ''--'', ''-y'']"]
  by (simp add: entered_def getopt_start_def sample_argv_def)

text \<open>C18: From a well-formed state a call of any entry point, with any table of long options and
  any option string without \<^verbatim>\<open>W;\<close>, never reads outside \<open>argv\<close> or an argument: it
  returns a value, and the state is well-formed again.\<close>

theorem getopt_never_goes_wrong:
  assumes "getopt_wf g" "no_w os"
  shows "\<exists>r g'. getopt_internal P w lo os ps g = (Inr r, g') \<and> getopt_wf g'"
  using getopt_internal_ok [OF assms] by blast

theorem getopt_never_goes_wrong_witness:
  "\<exists>r g'. getopt_internal None True False ''hViu:f:d:xyc:'' None (getopt_start sample_argv) = (Inr r, g')
    \<and> getopt_wf g'"
  by (rule getopt_never_goes_wrong)
    (simp_all add: getopt_wf_def getopt_start_def sample_argv_def no_w_def)

text \<open>The restriction on the option string is needed: when the last argument is behind \<open>-W\<close> and
  an ambiguous abbreviation, the scanner advances past the end of \<open>argv\<close>, and the next call reads
  outside it.\<close>

theorem ambiguous_w_runs_past_the_end:
  assumes "match_long True a (length (name_part a)) 0 None False ps = (found, False, True)"
  shows "\<exists>g. getopt_long P ''W;'' ps ((getopt_start [p, ''-W'', a])\<lparr>opterr := False\<rparr>)
      = (Inr (char_int (CHR ''?'')), g) \<and> optind g = 4
    \<and> fst (getopt_long P ''W;'' ps g) = Inl (Faulted Out_Of_Bounds)"
proof -
  have "skip_nonoptions (p # ''-W'' # v) 1 = 1" for v
    by (simp add: skip_nonoptions.simps nonoption_p_def c_at_def)
  with assms show ?thesis
    by (simp add: getopt_long_def getopt_internal_def getopt_enter_def getopt_initialize_def c_at_def
      getopt_start_def advance_def clamp_nonopts_def permute_step_def nonoption_p_def decode_element_def
      long_syntax_def short_option_def short_argument_def w_option_def arg_at_def getopt_error_def bindM_def Let_def)
qed

theorem ambiguous_w_runs_past_the_end_witness:
  "\<exists>g. getopt_long None ''W;'' sample_options ((getopt_start [''p'', ''-W'', ''lo''])\<lparr>opterr := False\<rparr>)
      = (Inr (char_int (CHR ''?'')), g) \<and> optind g = 4
    \<and> fst (getopt_long None ''W;'' sample_options g) = Inl (Faulted Out_Of_Bounds)"
  by (rule ambiguous_w_runs_past_the_end [where found = "Some (0, hd sample_options)"])
    (simp add: sample_options_def name_part_def strncmp_eq_def)

text \<open>Over any sequence of calls, whatever they are given, the argument vector is only
  permuted and the program name stays in front.\<close>

theorem getopt_only_permutes:
  assumes "getopt_wf g" "list_all plain_call cs"
  shows "mset (argv (foldl call_step g cs)) = mset (argv g) \<and> argv (foldl call_step g cs) ! 0 = argv g ! 0"
  using calls.run_inv [of g g cs] assms by (simp add: permuted_def)

theorem getopt_only_permutes_witness:
  "mset (argv (foldl call_step (getopt_start sample_argv)
      (replicate 3 (None, True, False, ''hViu:f:d:xyc:'', None)))) = mset sample_argv"
  using getopt_only_permutes [of "getopt_start sample_argv"
      "replicate 3 (None, True, False, ''hViu:f:d:xyc:'', None)"]
  by (simp add: getopt_wf_def getopt_start_def sample_argv_def plain_call_def no_w_def numeral_3_eq_3)

text \<open>Calling until the value is \<open>-1\<close> comes to an end from every well-formed state: the
  number of characters left bounds the number of calls.\<close>

theorem getopt_calls_end:
  assumes "getopt_wf g" "no_w os" "scan_left g < n"
  shows "getopt_calls n P os ps g \<noteq> None"
  using assms
proof (induction n arbitrary: g)
  case (Suc n)
  from getopt_internal_ok [OF Suc.prems(1,2), of P True False "Some ps"] obtain r g' where
    "getopt_long P os ps g = (Inr r, g')" "getopt_wf g'" "r \<noteq> - 1 \<longrightarrow> scan_left g' < scan_left g"
    by (auto simp: getopt_long_def)
  with Suc show ?case by (cases "r = - 1") (auto split: prod.splits)
qed simp

theorem getopt_calls_end_witness:
  "getopt_calls 50 None ''hViu:f:d:xyc:'' [] (getopt_start sample_argv) \<noteq> None"
  by (rule getopt_calls_end)
    (simp_all add: getopt_wf_def getopt_start_def sample_argv_def no_w_def scan_left_def)

text \<open>C7: The calls of \<open>getopt_long\<close> return the events of the direct reading \<open>scan\<close> of the
  command line, one by one, in both orders of operation; at the end the options and their
  arguments stand in front of the operands, each in the order in which they were given, and
  \<open>optind\<close> is the first operand.\<close>

theorem getopt_reads_the_command_line:
  assumes "list_all (\<lambda>a. NUL \<notin> set a) (prog # args)"
    and "c_at os 0 \<noteq> CHR ''-''" "c_at os 0 \<noteq> CHR ''+''" "no_w os"
    and "scan (P \<noteq> None) os ps args = (es, opts, operands)"
    and "list_all (\<lambda>e. fst e \<noteq> - 1) es" "length es < n"
  shows "(\<exists>g'. getopt_calls n P os ps (getopt_start (prog # args)) = Some (es, g')
    \<and> argv g' = prog # opts @ operands \<and> optind g' = 1 + length opts)
    \<and> mset opts + mset operands = mset args \<and> subseq opts args \<and> subseq operands args"
proof -
  have "getopt_calls n P os ps (getopt_start (prog # args)) = getopt_calls n P os ps (entered P (prog # args))"
    using getopt_first_call [OF _ assms(2,3)] assms(7) by (cases n) simp_all
  with scan_order [OF assms(5)] getopt_calls_scanning [OF assms(4) entered_scanning, of "prog # args" P ps n]
    entered_outlook [of "P \<noteq> None" os ps P prog args] assms(1,5-7)
  show ?thesis by auto
qed

theorem getopt_reads_the_command_line_witness:
  "\<exists>g'. getopt_calls 5 None ''hViu:f:d:xyc:'' sample_options (getopt_start sample_argv)
      = Some ([(char_int (CHR ''x''), None), (char_int (CHR ''u''), Some ''joe''),
          (char_int (CHR ''i''), None)], g')
    \<and> argv g' = [''rootsh'', ''-xu'', ''joe'', ''--login'', ''--'', ''file'', ''dir'', ''-y'']
    \<and> optind g' = 1 + length [''-xu'', ''joe'', ''--login'', ''--'']"
  using getopt_reads_the_command_line [of "''rootsh''" "tl sample_argv" "''hViu:f:d:xyc:''" None
      sample_options
      "[(char_int (CHR ''x''), None), (char_int (CHR ''u''), Some ''joe''), (char_int (CHR ''i''), None)]"
      "[''-xu'', ''joe'', ''--login'', ''--'']" "[''file'', ''dir'', ''-y'']" 5]
  by (simp add: sample_argv_def scan.simps nonoption_p_def c_at_def element_events_def kind_of_def
      long_event_def find_long_def no_w_def char_int_def sample_options_def name_part_def value_part_def)

end
