(* ===== verification/Config_Parser.thy ===== *)
theory Config_Parser
  imports Prelude
begin

text \<open>
  The configuration line parser, \<^verbatim>\<open>configParser.c\<close>: trimming, recognising and splitting a
  \<open>key = value\<close> line, and reading a boolean. \<open>malloc\<close> may fail: whether a request of
  \<open>n\<close> bytes succeeds is the argument \<open>malloc_ok\<close>. A \<open>NULL\<close> result is
  \<^term>\<open>None\<close>; reading outside a string or copying from \<open>NULL\<close> is a \<^typ>\<open>fault\<close>.
\<close>

section \<open>The code\<close>

definition isWhitespace :: "char \<Rightarrow> bool" where
  "isWhitespace c \<longleftrightarrow>
     c = CHR '' '' \<or> c = LF \<or> c = CR \<or> c = CHR 0x09 \<or> c = CHR 0x0C \<or> c = CHR 0x0B \<or> c = NUL"

text \<open>
  The two pointer loops of \<open>trimWhitespace\<close>; a pointer is its offset in \<open>data\<close>, and
  \<^term>\<open>None\<close> is a read outside the string.
\<close>

function trim_begin :: "string \<Rightarrow> nat \<Rightarrow> nat \<Rightarrow> nat option" where
  "trim_begin data b e =
     (if b < length data then
        (if isWhitespace (data ! b) \<and> b \<noteq> e then trim_begin data (Suc b) e else Some b)
      else None)"
  by pat_completeness auto
termination
  by (relation "measure (\<lambda>(data, b, e). length data - b)") auto

fun trim_end :: "string \<Rightarrow> nat \<Rightarrow> nat option" where
  "trim_end data e =
     (if e < length data then
        (if isWhitespace (data ! e) then (if e = 0 then None else trim_end data (e - 1))
         else Some e)
      else None)"

declare trim_begin.simps [simp del] trim_end.simps [simp del]

definition trimWhitespace :: "(nat \<Rightarrow> bool) \<Rightarrow> string \<Rightarrow> fault + string option" where
  "trimWhitespace malloc_ok data =
     (let len = length data in
      if len = 0 then Inr None
      else if \<not> malloc_ok (len + 1) then Inr None
      else case trim_begin data 0 (len - 1) of
        None \<Rightarrow> Inl Out_Of_Bounds
      | Some b \<Rightarrow>
          if b = len - 1 then Inr (Some [])
          else case trim_end data (len - 1) of
            None \<Rightarrow> Inl Out_Of_Bounds
          | Some e \<Rightarrow> let newLen = e - b + 1 in Inr (Some (take newLen (drop b data))))"

definition isConfigLine :: "string \<Rightarrow> bool" where
  "isConfigLine line =
     (if length line = 0 then False
      else if line ! 0 = CHR ''#'' then False
      else c_index line (CHR ''='') \<noteq> None)"

text \<open>\<open>strcpy (dest, src)\<close> where \<open>src\<close> may be \<open>NULL\<close>.\<close>

definition strcpy_from :: "string option \<Rightarrow> fault + string" where
  "strcpy_from src = (case src of None \<Rightarrow> Inl Null_Deref | Some s \<Rightarrow> Inr s)"

text \<open>
  \<open>splitConfigLine\<close> returns its flag and the contents of its two output buffers, which it
  is given with their old contents.
\<close>

definition splitConfigLine ::
  "(nat \<Rightarrow> bool) \<Rightarrow> string \<Rightarrow> nat \<Rightarrow> string \<Rightarrow> nat \<Rightarrow> string
    \<Rightarrow> fault + bool \<times> string \<times> string" where
  "splitConfigLine malloc_ok line keyLength key valueLength value =
     (if \<not> isConfigLine line then Inr (False, key, value)
      else case c_index line (CHR ''='') of
        None \<Rightarrow> Inr (False, key, value)
      | Some actualKeyLength \<Rightarrow>
          if actualKeyLength \<ge> keyLength then Inr (False, key, value)
          else let actualValueLength = length line - actualKeyLength - 1 in
          if actualValueLength \<ge> valueLength then Inr (False, key, value)
          else if \<not> malloc_ok (actualKeyLength + 1) then Inr (False, key, value)
          else let tempKey = take actualKeyLength line in
          bindR (trimWhitespace malloc_ok tempKey) (\<lambda>trimmedKey.
          bindR (strcpy_from trimmedKey) (\<lambda>key'.
          if \<not> malloc_ok (actualValueLength + 1) then Inr (False, key', value)
          else let tempValue = take actualValueLength (drop (actualKeyLength + 1) line) in
          bindR (trimWhitespace malloc_ok tempValue) (\<lambda>trimmedValue.
          bindR (strcpy_from trimmedValue) (\<lambda>value'.
          Inr (True, key', value'))))))"

text \<open>\<open>strcasecmp (a, b) == 0\<close> in the C locale.\<close>

definition tolower_ascii :: "char \<Rightarrow> char" where
  "tolower_ascii c =
     (let n = of_char c :: nat in if 65 \<le> n \<and> n \<le> 90 then char_of (n + 32) else c)"

definition strcasecmp_eq :: "string \<Rightarrow> string \<Rightarrow> bool" where
  "strcasecmp_eq a b \<longleftrightarrow> map tolower_ascii a = map tolower_ascii b"

definition parseBool :: "string option \<Rightarrow> bool" where
  "parseBool data =
     (case data of None \<Rightarrow> False
      | Some s \<Rightarrow> if strcasecmp_eq ''true'' s then True else False)"

section \<open>What trimming computes\<close>

text \<open>The intended result: white space removed from both ends.\<close>

definition strip :: "string \<Rightarrow> string" where
  "strip s = rev (dropWhile isWhitespace (rev (dropWhile isWhitespace s)))"

lemma strip_Nil [simp]: "strip [] = []"
  by (simp add: strip_def)

lemma length_strip_le: "length (strip s) \<le> length s"
  by (metis length_dropWhile_le length_rev order_trans strip_def)

lemma set_strip_subset: "set (strip s) \<subseteq> set s"
  unfolding strip_def by (auto dest!: set_dropWhileD)

lemma trim_begin_Some:
  assumes "b \<le> e" "e < length data"
  shows "\<exists>b'. trim_begin data b e = Some b' \<and> b \<le> b' \<and> b' \<le> e
    \<and> (\<forall>i. b \<le> i \<and> i < b' \<longrightarrow> isWhitespace (data ! i))
    \<and> (b' \<noteq> e \<longrightarrow> \<not> isWhitespace (data ! b'))"
  using assms
proof (induction data b e rule: trim_begin.induct)
  case (1 data b e)
  show ?case
  proof (cases "isWhitespace (data ! b) \<and> b \<noteq> e")
    case True
    with 1 obtain b' where b': "trim_begin data (Suc b) e = Some b'" "Suc b \<le> b'" "b' \<le> e"
      "\<forall>i. Suc b \<le> i \<and> i < b' \<longrightarrow> isWhitespace (data ! i)"
      "b' \<noteq> e \<longrightarrow> \<not> isWhitespace (data ! b')"
      by force
    have "isWhitespace (data ! i)" if "b \<le> i" "i < b'" for i
      using that b'(4) True by (cases "i = b") auto
    with b' True 1 show ?thesis
      by (auto simp: trim_begin.simps [of data b e])
  next
    case False
    with 1 show ?thesis by (auto simp: trim_begin.simps [of data b e])
  qed
qed

lemma trim_end_Some:
  assumes "b \<le> e" "e < length data" "\<not> isWhitespace (data ! b)"
  shows "\<exists>e'. trim_end data e = Some e' \<and> b \<le> e' \<and> e' \<le> e
    \<and> (\<forall>i. e' < i \<and> i \<le> e \<longrightarrow> isWhitespace (data ! i)) \<and> \<not> isWhitespace (data ! e')"
  using assms
proof (induction data e rule: trim_end.induct)
  case (1 data e)
  show ?case
  proof (cases "isWhitespace (data ! e)")
    case True
    with 1 have be: "b < e" by (metis le_neq_implies_less)
    with 1 True obtain e' where e': "trim_end data (e - 1) = Some e'" "b \<le> e'" "e' \<le> e - 1"
      "\<forall>i. e' < i \<and> i \<le> e - 1 \<longrightarrow> isWhitespace (data ! i)" "\<not> isWhitespace (data ! e')"
      by force
    have "isWhitespace (data ! i)" if "e' < i" "i \<le> e" for i
      using that e'(4) True by (cases "i = e") auto
    with e' True 1 be show ?thesis
      by (auto simp: trim_end.simps [of data e])
  next
    case False
    with 1 show ?thesis by (auto simp: trim_end.simps [of data e])
  qed
qed

lemma dropWhile_offset:
  assumes "b < length xs" "\<forall>i<b. P (xs ! i)" "\<not> P (xs ! b)"
  shows "dropWhile P xs = drop b xs"
proof -
  have "xs = take b xs @ drop b xs" by simp
  moreover have "dropWhile P (take b xs @ drop b xs) = dropWhile P (drop b xs)"
    using assms by (intro dropWhile_append2) (auto simp: in_set_conv_nth)
  moreover have "drop b xs = xs ! b # drop (Suc b) xs"
    using assms by (simp add: Cons_nth_drop_Suc)
  ultimately show ?thesis using assms(3) by simp
qed

lemma strip_offsets:
  assumes "b \<le> e" "e < length s" "\<forall>i<b. isWhitespace (s ! i)" "\<not> isWhitespace (s ! b)"
    "\<forall>i. e < i \<and> i < length s \<longrightarrow> isWhitespace (s ! i)" "\<not> isWhitespace (s ! e)"
  shows "strip s = take (e - b + 1) (drop b s)"
proof -
  let ?d = "drop b s"
  from assms have d: "dropWhile isWhitespace s = ?d" by (intro dropWhile_offset) auto
  let ?k = "length ?d - 1 - (e - b)"
  have "dropWhile isWhitespace (rev ?d) = drop ?k (rev ?d)"
  proof (rule dropWhile_offset)
    show "?k < length (rev ?d)" using assms by simp
    show "\<forall>i<?k. isWhitespace (rev ?d ! i)"
    proof (intro allI impI)
      fix i
      assume i: "i < ?k"
      with assms have "e < length s - Suc i" "length s - Suc i < length s" by auto
      with assms(5) have "isWhitespace (s ! (length s - Suc i))" by blast
      with i assms show "isWhitespace (rev ?d ! i)" by (simp add: rev_nth)
    qed
    show "\<not> isWhitespace (rev ?d ! ?k)" using assms by (auto simp: rev_nth)
  qed
  with d assms show ?thesis
    by (simp add: strip_def rev_drop [symmetric] drop_rev Suc_diff_le)
qed

text \<open>
  What the code computes instead: when everything but the last character is white space, the
  loop that looks for the first visible character stops on the last one and the code takes the
  string for blank.
\<close>

definition trimmed :: "string \<Rightarrow> string" where
  "trimmed s = (if list_all isWhitespace (butlast s) then [] else strip s)"

lemma length_trimmed_le: "length (trimmed s) \<le> length s"
  by (simp add: trimmed_def length_strip_le)

lemma set_trimmed_subset: "set (trimmed s) \<subseteq> set s"
  using set_strip_subset by (simp add: trimmed_def)

lemma strip_blank: "list_all isWhitespace s \<Longrightarrow> strip s = []"
  by (auto simp: strip_def list_all_iff dest: set_dropWhileD)

lemma trimmed_eq_strip:
  assumes "s \<noteq> []" "isWhitespace (last s)"
  shows "trimmed s = strip s"
proof -
  have "list_all isWhitespace s" if "list_all isWhitespace (butlast s)"
  proof -
    from assms have "s = butlast s @ [last s]" by simp
    with that assms show ?thesis by (metis list_all_append list.pred_inject)
  qed
  then show ?thesis by (auto simp: trimmed_def strip_blank)
qed

lemma trimWhitespace_eq:
  "trimWhitespace M s =
     (if s = [] \<or> \<not> M (length s + 1) then Inr None else Inr (Some (trimmed s)))"
proof (cases "s = [] \<or> \<not> M (length s + 1)")
  case True
  then show ?thesis by (auto simp: trimWhitespace_def Let_def)
next
  case False
  let ?e = "length s - 1"
  from False have e: "?e < length s" by simp
  from trim_begin_Some [OF _ e, of 0] obtain b where b: "trim_begin s 0 ?e = Some b" "b \<le> ?e"
    "\<forall>i<b. isWhitespace (s ! i)" "b \<noteq> ?e \<longrightarrow> \<not> isWhitespace (s ! b)"
    by auto
  show ?thesis
  proof (cases "b = ?e")
    case True
    with b(3) have "list_all isWhitespace (butlast s)"
      by (auto simp: list_all_length nth_butlast)
    with False True b(1) show ?thesis by (simp add: trimWhitespace_def trimmed_def)
  next
    case neq: False
    with b have ws: "\<not> isWhitespace (s ! b)" and blt: "b < length (butlast s)" by auto
    then have nb: "\<not> list_all isWhitespace (butlast s)"
      by (auto simp: list_all_length nth_butlast)
    from trim_end_Some [OF b(2) e ws] obtain e' where e': "trim_end s ?e = Some e'" "b \<le> e'"
      "e' \<le> ?e" "\<forall>i. e' < i \<and> i \<le> ?e \<longrightarrow> isWhitespace (s ! i)" "\<not> isWhitespace (s ! e')"
      by blast
    have "strip s = take (e' - b + 1) (drop b s)"
      using e' e b(3) ws by (intro strip_offsets) auto
    with False neq b(1) e'(1) nb show ?thesis
      by (simp add: trimWhitespace_def trimmed_def Let_def)
  qed
qed

section \<open>What splitting computes\<close>

lemma isConfigLine_iff:
  "isConfigLine line \<longleftrightarrow> line \<noteq> [] \<and> hd line \<noteq> CHR ''#'' \<and> CHR ''='' \<in> set line"
  by (auto simp: isConfigLine_def hd_conv_nth)

lemma isConfigLine_cases:
  assumes "isConfigLine line"
  obtains k v where "line = k @ CHR ''='' # v" "CHR ''='' \<notin> set k"
    "c_index line (CHR ''='') = Some (length k)"
  using assms by (metis c_index_append isConfigLine_iff split_list_first)

text \<open>\<open>splitConfigLine\<close> on a line whose first equals sign separates \<open>k\<close> from \<open>v\<close>.\<close>

lemma splitConfigLine_eq:
  assumes "CHR ''='' \<notin> set k"
  shows "splitConfigLine M (k @ CHR ''='' # v) kl key vl val =
    (if k \<noteq> [] \<and> hd k = CHR ''#'' then Inr (False, key, val)
     else if length k \<ge> kl \<or> length v \<ge> vl \<or> \<not> M (length k + 1) then Inr (False, key, val)
     else if k = [] then Inl Null_Deref
     else if \<not> M (length v + 1) then Inr (False, trimmed k, val)
     else if v = [] then Inl Null_Deref
     else Inr (True, trimmed k, trimmed v))"
proof -
  have "isConfigLine (k @ CHR ''='' # v) \<longleftrightarrow> \<not> (k \<noteq> [] \<and> hd k = CHR ''#'')"
    by (cases k) (auto simp: isConfigLine_iff)
  with assms show ?thesis
    by (simp add: splitConfigLine_def c_index_append trimWhitespace_eq strcpy_from_def Let_def)
qed

lemma splitConfigLine_not_config:
  "\<not> isConfigLine line \<Longrightarrow> splitConfigLine M line kl key vl val = Inr (False, key, val)"
  by (simp add: splitConfigLine_def)

lemma splitConfigLine_fits:
  assumes "splitConfigLine M line kl key vl val = Inr (True, k', v')"
  shows "length k' < kl \<and> length v' < vl \<and> set k' \<subseteq> set line \<and> set v' \<subseteq> set line"
proof -
  from assms have "isConfigLine line" by (auto simp: splitConfigLine_def split: if_splits)
  then obtain k v where line: "line = k @ CHR ''='' # v" "CHR ''='' \<notin> set k"
    by (rule isConfigLine_cases)
  with assms have "k' = trimmed k" "v' = trimmed v" "length k < kl" "length v < vl"
    by (auto simp: splitConfigLine_eq split: if_splits)
  with line show ?thesis
    using length_trimmed_le [of k] length_trimmed_le [of v]
      set_trimmed_subset [of k] set_trimmed_subset [of v] by fastforce
qed

lemma parseBool_Some: "parseBool (Some s) \<longleftrightarrow> map tolower_ascii s = ''true''"
proof -
  have "map tolower_ascii ''true'' = ''true''"
    by (simp add: tolower_ascii_def)
  then show ?thesis by (auto simp: parseBool_def strcasecmp_eq_def)
qed

text \<open>The letters that \<open>tolower\<close> maps to a given lower-case letter.\<close>

lemma of_char_tolower_ascii:
  "of_char (tolower_ascii c) =
    (if 65 \<le> (of_char c :: nat) \<and> (of_char c :: nat) \<le> 90 then of_char c + 32
     else of_char c :: nat)"
  by (simp add: tolower_ascii_def Let_def)

lemma tolower_ascii_eq:
  assumes "of_char d = (n :: nat)" "of_char d' + 32 = n" "97 \<le> n" "n \<le> 122"
  shows "tolower_ascii c = d \<longleftrightarrow> c = d \<or> c = d'"
proof -
  have "tolower_ascii c = d \<longleftrightarrow> of_char (tolower_ascii c) = n"
    using assms(1) by auto
  also have "\<dots> \<longleftrightarrow> of_char c = n \<or> of_char c + 32 = n"
    using assms(3,4) by (auto simp: of_char_tolower_ascii)
  also have "\<dots> \<longleftrightarrow> (of_char c :: nat) = of_char d \<or> (of_char c :: nat) = of_char d'"
    using assms(1,2) by linarith
  finally show ?thesis by simp
qed

lemma lower_true:
  "tolower_ascii c = CHR ''t'' \<longleftrightarrow> c = CHR ''t'' \<or> c = CHR ''T''"
  "tolower_ascii c = CHR ''r'' \<longleftrightarrow> c = CHR ''r'' \<or> c = CHR ''R''"
  "tolower_ascii c = CHR ''u'' \<longleftrightarrow> c = CHR ''u'' \<or> c = CHR ''U''"
  "tolower_ascii c = CHR ''e'' \<longleftrightarrow> c = CHR ''e'' \<or> c = CHR ''E''"
  by (rule tolower_ascii_eq [OF refl]; simp)+

lemma map_tolower_true:
  "map tolower_ascii s = ''true'' \<longleftrightarrow> (\<exists>t r u e. s = [t, r, u, e]
     \<and> (t = CHR ''t'' \<or> t = CHR ''T'') \<and> (r = CHR ''r'' \<or> r = CHR ''R'')
     \<and> (u = CHR ''u'' \<or> u = CHR ''U'') \<and> (e = CHR ''e'' \<or> e = CHR ''E''))"
  unfolding lower_true [symmetric] by (simp only: map_eq_Cons_conv list.map_disc_iff) blast

section \<open>Properties\<close>

text \<open>A string that neither starts nor ends with white space.\<close>

definition no_blank_ends :: "string \<Rightarrow> bool" where
  "no_blank_ends c \<longleftrightarrow> c = [] \<or> \<not> isWhitespace (hd c) \<and> \<not> isWhitespace (last c)"

lemma dropWhile_blank_prefix:
  assumes "list_all isWhitespace a" "c = [] \<or> \<not> isWhitespace (hd c)"
  shows "dropWhile isWhitespace (a @ c) = c"
proof -
  have "dropWhile isWhitespace (a @ c) = dropWhile isWhitespace c"
    using assms(1) by (intro dropWhile_append2) (auto simp: list_all_iff)
  also have "\<dots> = c" using assms(2) by (cases c) auto
  finally show ?thesis .
qed

lemma strip_core:
  assumes "list_all isWhitespace a" "list_all isWhitespace b" "no_blank_ends c"
  shows "strip (a @ c @ b) = c"
proof (cases "c = []")
  case True
  with assms show ?thesis by (simp add: strip_blank)
next
  case False
  with assms have "dropWhile isWhitespace (a @ c @ b) = c @ b"
    by (intro dropWhile_blank_prefix) (auto simp: no_blank_ends_def)
  moreover have "dropWhile isWhitespace (rev b @ rev c) = rev c"
    using False assms by (intro dropWhile_blank_prefix) (auto simp: no_blank_ends_def hd_rev)
  ultimately show ?thesis by (simp add: strip_def)
qed

lemma list_all_butlast: "list_all P s \<Longrightarrow> list_all P (butlast s)"
  by (auto simp: list_all_iff dest: in_set_butlastD)

lemma trimmed_core:
  assumes "list_all isWhitespace a" "list_all isWhitespace b" "no_blank_ends c"
    and "2 \<le> length c \<or> b \<noteq> []"
  shows "trimmed (a @ c @ b) = c"
proof (cases "list_all isWhitespace (butlast (a @ c @ b))")
  case False
  with assms show ?thesis by (simp add: trimmed_def strip_core)
next
  case True
  have "c = []"
  proof (rule ccontr)
    assume c: "c \<noteq> []"
    have "hd c \<in> set (butlast (a @ c @ b))"
    proof (cases "b = []")
      case True
      with assms(4) obtain x y r where "c = x # y # r"
        by (cases c; cases "tl c") auto
      with True show ?thesis by (simp add: butlast_append)
    qed (use c in \<open>simp add: butlast_append\<close>)
    with True assms(3) c show False by (auto simp: list_all_iff no_blank_ends_def)
  qed
  with True show ?thesis by (simp add: trimmed_def)
qed

text \<open>\<open>trimWhitespace\<close> removes exactly the white space around a text, whatever it is, as
  long as the text has two characters or is followed by white space (as every value read from a
  line is, by its newline); it never reads outside the string.\<close>

theorem trim_removes_surrounding_blanks:
  assumes "list_all isWhitespace a" "list_all isWhitespace b" "no_blank_ends c"
    and "2 \<le> length c \<or> b \<noteq> []" "a @ c @ b \<noteq> []"
  shows "trimWhitespace (\<lambda>_. True) (a @ c @ b) = Inr (Some c)"
  using assms trimmed_core [OF assms(1-4)] by (auto simp: trimWhitespace_eq)

theorem trim_removes_surrounding_blanks_witness:
  "trimWhitespace (\<lambda>_. True) ('' '' @ ''in between'' @ [CHR '' '', LF]) = Inr (Some ''in between'')"
  by (rule trim_removes_surrounding_blanks) (simp_all add: isWhitespace_def no_blank_ends_def)

text \<open>A text of one visible character that ends the string is lost: \<open>trimWhitespace\<close>
  returns the empty string for it, with or without white space before it.\<close>

theorem trim_loses_last_single_char:
  assumes "list_all isWhitespace a" "\<not> isWhitespace c"
  shows "trimWhitespace (\<lambda>_. True) (a @ [c]) = Inr (Some [])"
  using assms by (simp add: trimWhitespace_eq trimmed_def)

theorem trim_loses_last_single_char_witness:
  "trimWhitespace (\<lambda>_. True) ('' '' @ [CHR ''7'']) = Inr (Some []) \<and> strip '' 7'' = ''7''"
proof
  show "trimWhitespace (\<lambda>_. True) ('' '' @ [CHR ''7'']) = Inr (Some [])"
    by (rule trim_loses_last_single_char) (simp_all add: isWhitespace_def)
  show "strip '' 7'' = ''7''" by (simp add: strip_def isWhitespace_def)
qed

text \<open>C37: Splitting a line copies through a \<open>NULL\<close> pointer exactly when the line is a
  configuration line that fits the buffers and whose key or value is the empty string, with
  nothing at all before or after the first equals sign.\<close>

theorem split_faults_iff_empty_side:
  "(\<exists>f. splitConfigLine (\<lambda>_. True) line kl key vl val = Inl f) \<longleftrightarrow>
     (\<exists>k v. line = k @ CHR ''='' # v \<and> CHR ''='' \<notin> set k \<and> isConfigLine line
        \<and> length k < kl \<and> length v < vl \<and> (k = [] \<or> v = []))"
proof (cases "isConfigLine line")
  case True
  then obtain k v where line: "line = k @ CHR ''='' # v" "CHR ''='' \<notin> set k"
    by (rule isConfigLine_cases)
  have uniq: "k' = k \<and> v' = v" if "k @ CHR ''='' # v = k' @ CHR ''='' # v'" "CHR ''='' \<notin> set k'"
    for k' v'
    using first_occurrence_unique [OF that(1) line(2) that(2)] by simp
  from True line(1) have "\<not> (k \<noteq> [] \<and> hd k = CHR ''#'')" by (cases k) (auto simp: isConfigLine_iff)
  with line have "(\<exists>f. splitConfigLine (\<lambda>_. True) line kl key vl val = Inl f) \<longleftrightarrow>
      length k < kl \<and> length v < vl \<and> (k = [] \<or> v = [])"
    by (auto simp: splitConfigLine_eq not_le)
  also have "\<dots> \<longleftrightarrow> (\<exists>k v. line = k @ CHR ''='' # v \<and> CHR ''='' \<notin> set k \<and> isConfigLine line
        \<and> length k < kl \<and> length v < vl \<and> (k = [] \<or> v = []))"
    using line True uniq by metis
  finally show ?thesis .
qed (auto simp: splitConfigLine_not_config)

text \<open>What \<open>splitConfigLine\<close> stores always fits the two buffers it is given, terminator
  included, for every line and however \<open>malloc\<close> behaves.\<close>

theorem split_stays_in_buffers:
  assumes "splitConfigLine malloc_ok line kl key vl val = Inr (True, key', val')"
  shows "length key' + 1 \<le> kl \<and> length val' + 1 \<le> vl"
  using splitConfigLine_fits [OF assms] by simp

theorem split_stays_in_buffers_witness:
  "splitConfigLine (\<lambda>_. True) ''var=10'' 4 [] 3 [] = Inr (True, ''var'', ''10'')
    \<and> length ''var'' + 1 \<le> (4::nat) \<and> length ''10'' + 1 \<le> (3::nat)"
proof -
  have h: "splitConfigLine (\<lambda>_. True) (''var'' @ CHR ''='' # ''10'') 4 [] 3 []
      = Inr (True, ''var'', ''10'')"
    by (subst splitConfigLine_eq) (simp_all add: trimmed_def strip_def isWhitespace_def)
  show ?thesis using h split_stays_in_buffers [OF h] by simp
qed

text \<open>\<open>parseBool\<close> is true exactly for the spellings of \<open>true\<close> in any mix of upper
  and lower case, and false for everything else, \<open>NULL\<close> included.\<close>

theorem parseBool_iff:
  "parseBool d \<longleftrightarrow> (\<exists>t r u e. d = Some [t, r, u, e] \<and> t \<in> {CHR ''t'', CHR ''T''}
     \<and> r \<in> {CHR ''r'', CHR ''R''} \<and> u \<in> {CHR ''u'', CHR ''U''} \<and> e \<in> {CHR ''e'', CHR ''E''})"
proof (cases d)
  case None
  then show ?thesis by (simp add: parseBool_def)
next
  case (Some s)
  then show ?thesis
    by (simp only: parseBool_Some map_tolower_true insert_iff empty_iff option.inject simp_thms)
qed

end
