(* ===== verification/Config_File.thy ===== *)
theory Config_File
  imports Config_Parser
begin

text \<open>
  Reading the configuration file, \<open>readConfigFile\<close> of \<^verbatim>\<open>rootsh.c\<close>. The program's
  global options are the record \<^verbatim>\<open>settings\<close>; the file is its contents (\<^term>\<open>None\<close> when
  \<open>fopen\<close> fails), read line by line with \<open>fgets\<close> into a buffer of \<open>MAXPATHLEN\<close>
  characters; messages to the standard error stream are collected.
\<close>

section \<open>The code\<close>

record settings =
  logtofile :: bool
  logdir :: string
  logtosyslog :: bool
  syslogLogLineCount :: bool
  syslogLogUsername :: bool
  defaultshell :: string

text \<open>
  The choices made at build time: which of the macros \<open>LOGTOFILE\<close>, \<open>LOGTOSYSLOG\<close>,
  \<open>LINECNT\<close> and \<open>LOGUSERNAMETOSYSLOG\<close> are defined, and the two compiled paths. They
  give the options their static initial values; \<open>main\<close> then copies the paths in, after
  checking that they fit.
\<close>

record build =
  LOGTOFILE :: bool
  LOGTOSYSLOG :: bool
  LINECNT :: bool
  LOGUSERNAMETOSYSLOG :: bool
  LOGDIR :: string
  DEFAULTSHELL :: string

definition static_settings :: "build \<Rightarrow> settings" where
  "static_settings bld =
     \<lparr>logtofile = (if \<not> LOGTOFILE bld then False else True), logdir = [],
      logtosyslog = (if \<not> LOGTOSYSLOG bld then False else True),
      syslogLogLineCount = (if LINECNT bld then True else False),
      syslogLogUsername = (if LOGUSERNAMETOSYSLOG bld then True else False),
      defaultshell = []\<rparr>"

definition compiled_settings :: "build \<Rightarrow> stop + settings" where
  "compiled_settings bld =
     (let st = (static_settings bld)\<lparr>logdir := []\<rparr> in
      if length (LOGDIR bld) > MAXPATHLEN then Inl (Exited EXIT_FAILURE)
      else let st = st\<lparr>logdir := LOGDIR bld\<rparr> in
      if length (DEFAULTSHELL bld) > MAXPATHLEN then Inl (Exited EXIT_FAILURE)
      else Inr (st\<lparr>defaultshell := DEFAULTSHELL bld\<rparr>))"

text \<open>What \<^verbatim>\<open>configure.in\<close> chooses on Linux when no switch is given.\<close>

definition linux_build :: build where
  "linux_build = \<lparr>LOGTOFILE = True, LOGTOSYSLOG = True, LINECNT = True,
     LOGUSERNAMETOSYSLOG = True, LOGDIR = ''/var/log/rootsh'', DEFAULTSHELL = ''/bin/bash''\<rparr>"

definition linux_settings :: settings where
  "linux_settings = \<lparr>logtofile = True, logdir = ''/var/log/rootsh'', logtosyslog = True,
     syslogLogLineCount = True, syslogLogUsername = True, defaultshell = ''/bin/bash''\<rparr>"

lemma compiled_linux [simp]: "compiled_settings linux_build = Inr linux_settings"
  by (simp add: compiled_settings_def static_settings_def linux_build_def linux_settings_def
      MAXPATHLEN_def)

text \<open>\<open>fgets\<close>: at most \<open>n\<close> characters, up to and including a newline.\<close>

fun fgets_chars :: "nat \<Rightarrow> string \<Rightarrow> string \<times> string" where
  "fgets_chars 0 f = ([], f)"
| "fgets_chars (Suc n) [] = ([], [])"
| "fgets_chars (Suc n) (c # f) =
     (if c = LF then ([c], f) else let (l, r) = fgets_chars n f in (c # l, r))"

definition fgets :: "nat \<Rightarrow> string \<Rightarrow> (string \<times> string) option" where
  "fgets n f = (if f = [] then None else Some (fgets_chars (n - 1) f))"

definition path_error :: "string \<Rightarrow> string \<Rightarrow> string" where
  "path_error what v = ''Configured value for '' @ what @ '': '' @ [CHR 0x27] @ v @ [CHR 0x27]
     @ '' is longer than max path len: '' @ dec MAXPATHLEN @ [LF]"

text \<open>
  The body of the loop for one line: the flag is \<^term>\<open>False\<close> when the code jumps to
  \<open>cleanup\<close> with a failure.
\<close>

definition config_line ::
  "(nat \<Rightarrow> bool) \<Rightarrow> string \<Rightarrow> settings \<Rightarrow> string list \<Rightarrow> fault + bool \<times> settings \<times> string list"
where
  "config_line malloc_ok line st errs =
     (if isConfigLine line then
        bindR (splitConfigLine malloc_ok line (MAXPATHLEN + 1) [] (MAXPATHLEN + 1) [])
          (\<lambda>(result, key, value).
          if \<not> result then
            Inr (True, st, errs @ [''Error parsing config file line '' @ [CHR 0x27] @ line
              @ [CHR 0x27] @ '', skipping'' @ [LF]])
          else if strncmp_eq ''file'' key (MAXPATHLEN + 1) then
            (if parseBool (Some value) then Inr (True, st\<lparr>logtofile := True\<rparr>, errs)
             else Inr (True, st\<lparr>logtofile := False\<rparr>, errs))
          else if strncmp_eq ''file.dir'' key (MAXPATHLEN + 1) then
            (if length value > MAXPATHLEN then
               Inr (False, st, errs @ [path_error ''logdir'' value])
             else Inr (True, st\<lparr>logdir := value\<rparr>, errs))
          else if strncmp_eq ''syslog'' key (MAXPATHLEN + 1) then
            (if parseBool (Some value) then Inr (True, st\<lparr>logtosyslog := True\<rparr>, errs)
             else Inr (True, st\<lparr>logtosyslog := False\<rparr>, errs))
          else if strncmp_eq ''syslog.linenumbering'' key (MAXPATHLEN + 1) then
            (if parseBool (Some value) then Inr (True, st\<lparr>syslogLogLineCount := True\<rparr>, errs)
             else Inr (True, st\<lparr>syslogLogLineCount := False\<rparr>, errs))
          else if strncmp_eq ''syslog.username'' key (MAXPATHLEN + 1) then
            (if parseBool (Some value) then Inr (True, st\<lparr>syslogLogUsername := True\<rparr>, errs)
             else Inr (True, st\<lparr>syslogLogUsername := False\<rparr>, errs))
          else if strncmp_eq ''defaultshell'' key (MAXPATHLEN + 1) then
            (if length value > MAXPATHLEN then
               Inr (False, st, errs @ [path_error ''defaultshell'' value])
             else Inr (True, st\<lparr>defaultshell := value\<rparr>, errs))
          else Inr (True, st, errs))
      else Inr (True, st, errs))"

lemma fgets_chars_split: "fgets_chars n f = (l, r) \<Longrightarrow> f = l @ r \<and> length l \<le> n"
  by (induction n f arbitrary: l r rule: fgets_chars.induct) (auto split: if_splits prod.splits)

lemma fgets_chars_progress:
  "fgets_chars n (c # f) = (l, r) \<Longrightarrow> 0 < n \<Longrightarrow> length r < Suc (length f)"
  by (cases n) (auto split: if_splits prod.splits dest!: fgets_chars_split)

lemma fgets_shorter:
  assumes "fgets MAXPATHLEN f = Some (l, r)"
  shows "length r < length f"
proof -
  from assms obtain c f' where f: "f = c # f'" "fgets_chars (MAXPATHLEN - 1) (c # f') = (l, r)"
    by (cases f) (auto simp: fgets_def)
  then have "length r < Suc (length f')"
    by (rule_tac fgets_chars_progress) (auto simp: MAXPATHLEN_def)
  with f(1) show ?thesis by simp
qed

function config_loop ::
  "(nat \<Rightarrow> bool) \<Rightarrow> string \<Rightarrow> settings \<Rightarrow> string list \<Rightarrow> fault + bool \<times> settings \<times> string list"
where
  "config_loop malloc_ok f st errs =
     (case fgets MAXPATHLEN f of
        None \<Rightarrow> Inr (True, st, errs)
      | Some (buf, rest) \<Rightarrow>
          bindR (config_line malloc_ok (cstr buf) st errs) (\<lambda>(ok, st', errs').
            if ok then config_loop malloc_ok rest st' errs' else Inr (False, st', errs')))"
  by pat_completeness auto
termination
  by (relation "measure (\<lambda>(m, f, st, errs). length f)") (auto dest: fgets_shorter)

declare config_loop.simps [simp del]

definition readConfigFile ::
  "(nat \<Rightarrow> bool) \<Rightarrow> string option \<Rightarrow> settings \<Rightarrow> fault + bool \<times> settings \<times> string list" where
  "readConfigFile malloc_ok config st =
     (case config of None \<Rightarrow> Inr (True, st, [])
      | Some f \<Rightarrow> config_loop malloc_ok f st [])"

section \<open>Reading lines\<close>

lemma fgets_chars_line:
  "LF \<notin> set l \<Longrightarrow> length l < n \<Longrightarrow> fgets_chars n (l @ LF # r) = (l @ [LF], r)"
proof (induction l arbitrary: n)
  case Nil
  then show ?case by (cases n) auto
next
  case (Cons c l)
  then show ?case by (cases n) auto
qed

lemma fgets_line:
  "LF \<notin> set l \<Longrightarrow> length l + 1 < MAXPATHLEN \<Longrightarrow>
    fgets MAXPATHLEN (l @ LF # r) = Some (l @ [LF], r)"
  by (simp add: fgets_def fgets_chars_line)

lemma fgets_length: "fgets n f = Some (l, r) \<Longrightarrow> length l \<le> n - 1 \<and> f = l @ r"
  by (auto simp: fgets_def split: if_splits dest: fgets_chars_split)

section \<open>One line\<close>

text \<open>The specification: what an assignment of \<open>v\<close> to \<open>k\<close> does to the options.\<close>

definition assign :: "settings \<Rightarrow> string \<times> string \<Rightarrow> settings" where
  "assign st kv =
     (let k = fst kv; v = snd kv; b = parseBool (Some v) in
      if k = ''file'' then st\<lparr>logtofile := b\<rparr>
      else if k = ''file.dir'' then st\<lparr>logdir := v\<rparr>
      else if k = ''syslog'' then st\<lparr>logtosyslog := b\<rparr>
      else if k = ''syslog.linenumbering'' then st\<lparr>syslogLogLineCount := b\<rparr>
      else if k = ''syslog.username'' then st\<lparr>syslogLogUsername := b\<rparr>
      else if k = ''defaultshell'' then st\<lparr>defaultshell := v\<rparr>
      else st)"

lemma key_compare:
  assumes "NUL \<notin> set key" "NUL \<notin> set a" "length a < 100"
  shows "strncmp_eq a key (MAXPATHLEN + 1) \<longleftrightarrow> key = a"
  using assms by (subst strncmp_eq_iff) (auto simp: MAXPATHLEN_def)

lemma key_compares:
  assumes "NUL \<notin> set key"
  shows "strncmp_eq ''file'' key (MAXPATHLEN + 1) \<longleftrightarrow> key = ''file''"
    "strncmp_eq ''file.dir'' key (MAXPATHLEN + 1) \<longleftrightarrow> key = ''file.dir''"
    "strncmp_eq ''syslog'' key (MAXPATHLEN + 1) \<longleftrightarrow> key = ''syslog''"
    "strncmp_eq ''syslog.linenumbering'' key (MAXPATHLEN + 1) \<longleftrightarrow> key = ''syslog.linenumbering''"
    "strncmp_eq ''syslog.username'' key (MAXPATHLEN + 1) \<longleftrightarrow> key = ''syslog.username''"
    "strncmp_eq ''defaultshell'' key (MAXPATHLEN + 1) \<longleftrightarrow> key = ''defaultshell''"
  by (rule key_compare [OF assms]; simp)+

text \<open>A line that splits is an assignment: the length checks never fire.\<close>

lemma config_line_assign:
  assumes "splitConfigLine M line (MAXPATHLEN + 1) [] (MAXPATHLEN + 1) [] = Inr (True, k, v)"
    and "NUL \<notin> set line"
  shows "config_line M line st errs = Inr (True, assign st (k, v), errs)"
proof -
  have line: "isConfigLine line \<longleftrightarrow> True"
    using assms(1) by (auto simp: splitConfigLine_def split: if_splits)
  have v: "MAXPATHLEN < length v \<longleftrightarrow> False" and k: "NUL \<notin> set k"
    using splitConfigLine_fits [OF assms(1)] assms(2) by auto
  have push: "Inr (True, (if c then a else b), errs) =
      (if c then Inr (True, a, errs) else Inr (True, b, errs))" for c and a b :: settings
    by simp
  show ?thesis
    unfolding config_line_def assign_def fst_conv snd_conv Let_def assms(1) bindR.simps prod.case
      key_compares [OF k]
    by (cases "parseBool (Some v)")
      (simp_all only: line v push if_True if_False not_True_eq_False)
qed

lemma config_line_ok:
  assumes "config_line M line st errs = Inr (ok, st', errs')" "NUL \<notin> set line"
  shows "ok \<and> (st' = st \<or> (\<exists>k v. st' = assign st (k, v) \<and> length v \<le> MAXPATHLEN
    \<and> splitConfigLine M line (MAXPATHLEN + 1) [] (MAXPATHLEN + 1) [] = Inr (True, k, v)))"
proof (cases "isConfigLine line")
  case False
  with assms show ?thesis by (simp add: config_line_def)
next
  case True
  with assms(1) obtain r k v where
    split: "splitConfigLine M line (MAXPATHLEN + 1) [] (MAXPATHLEN + 1) [] = Inr (r, k, v)"
    by (auto simp: config_line_def result_iff)
  show ?thesis
  proof (cases r)
    case r: True
    with split have "splitConfigLine M line (MAXPATHLEN + 1) [] (MAXPATHLEN + 1) [] = Inr (True, k, v)"
      by simp
    moreover from config_line_assign [OF this assms(2)] assms(1)
    have "ok \<and> st' = assign st (k, v)" by simp
    moreover from calculation(1) have "length v \<le> MAXPATHLEN"
      using splitConfigLine_fits by fastforce
    ultimately show ?thesis by blast
  next
    case False
    with True split assms(1) show ?thesis by (simp add: config_line_def)
  qed
qed

section \<open>Whole files\<close>

text \<open>
  Every run of the loop that ends keeps the invariant that the two path options fit the buffers
  of size \<open>MAXPATHLEN + 1\<close> they are copied into.
\<close>

definition paths_fit :: "settings \<Rightarrow> bool" where
  "paths_fit st \<longleftrightarrow> length (logdir st) \<le> MAXPATHLEN \<and> length (defaultshell st) \<le> MAXPATHLEN"

lemma paths_fit_assign: "paths_fit st \<Longrightarrow> length v \<le> MAXPATHLEN \<Longrightarrow> paths_fit (assign st (k, v))"
  by (simp add: paths_fit_def assign_def Let_def)

lemma config_loop_ok:
  "config_loop M f st errs = Inr (ok, st', errs') \<Longrightarrow> ok \<and> (paths_fit st \<longrightarrow> paths_fit st')"
proof (induction M f st errs arbitrary: st' errs' rule: config_loop.induct)
  case (1 M f st errs)
  show ?case
  proof (cases "fgets MAXPATHLEN f")
    case None
    with "1.prems" show ?thesis by (simp add: config_loop.simps)
  next
    case (Some p)
    obtain buf rest where p: "p = (buf, rest)" by (cases p)
    with Some "1.prems" obtain ok1 st1 errs1 where
      line: "config_line M (cstr buf) st errs = Inr (ok1, st1, errs1)"
      and next_line: "(if ok1 then config_loop M rest st1 errs1 else Inr (False, st1, errs1))
        = Inr (ok, st', errs')"
      by (subst (asm) config_loop.simps) (auto simp: result_iff)
    from config_line_ok [OF line NUL_notin_cstr]
    have "ok1" "paths_fit st \<longrightarrow> paths_fit st1" by (auto intro: paths_fit_assign)
    with "1.IH" [OF Some p [symmetric] line refl refl] next_line show ?thesis by auto
  qed
qed

text \<open>
  The lines a file is read in, and the lines that can be read without a fault: they assign to a
  name that is not empty a value that is not empty, and to the default shell a path with a slash;
  comments and lines without an equals sign may be anything.
\<close>

function config_lines :: "string \<Rightarrow> string list" where
  "config_lines f =
     (case fgets MAXPATHLEN f of None \<Rightarrow> [] | Some (buf, rest) \<Rightarrow> cstr buf # config_lines rest)"
  by pat_completeness auto
termination
  by (relation "measure length") (auto dest: fgets_shorter)

declare config_lines.simps [simp del]

definition line_fine :: "string \<Rightarrow> bool" where
  "line_fine line \<longleftrightarrow>
     (case c_index line (CHR ''='') of
        None \<Rightarrow> True
      | Some n \<Rightarrow> hd line = CHR ''#'' \<or> n \<noteq> 0 \<and> n + 1 < length line
          \<and> (trimmed (take n line) = ''defaultshell'' \<longrightarrow> CHR ''/'' \<in> set (trimmed (drop (n + 1) line))))"

lemma config_line_fine:
  assumes "line_fine line" "NUL \<notin> set line" "CHR ''/'' \<in> set (defaultshell st)"
  shows "\<exists>st' errs'. config_line (\<lambda>_. True) line st errs = Inr (True, st', errs')
    \<and> CHR ''/'' \<in> set (defaultshell st')"
proof (cases "isConfigLine line")
  case False
  with assms(3) show ?thesis by (simp add: config_line_def)
next
  case True
  then obtain k v where line: "line = k @ CHR ''='' # v" "CHR ''='' \<notin> set k"
    "c_index line (CHR ''='') = Some (length k)"
    by (rule isConfigLine_cases)
  have "hd line \<noteq> CHR ''#''" using True by (simp add: isConfigLine_iff)
  with assms(1) line have f: "k \<noteq> []" "v \<noteq> []" "hd k \<noteq> CHR ''#''"
    "trimmed k = ''defaultshell'' \<longrightarrow> CHR ''/'' \<in> set (trimmed v)"
    by (auto simp: line_fine_def)
  show ?thesis
  proof (cases "length k \<ge> MAXPATHLEN + 1 \<or> length v \<ge> MAXPATHLEN + 1")
    case True': True
    with f have "splitConfigLine (\<lambda>_. True) line (MAXPATHLEN + 1) [] (MAXPATHLEN + 1) [] = Inr (False, [], [])"
      unfolding line(1) splitConfigLine_eq [OF line(2)] by auto
    with True assms(3) show ?thesis by (simp add: config_line_def)
  next
    case False
    with f have "splitConfigLine (\<lambda>_. True) line (MAXPATHLEN + 1) [] (MAXPATHLEN + 1) []
        = Inr (True, trimmed k, trimmed v)"
      unfolding line(1) splitConfigLine_eq [OF line(2)] by auto
    from config_line_assign [OF this assms(2)] f(4) assms(3) show ?thesis
      by (simp add: assign_def Let_def)
  qed
qed

lemma config_loop_fine:
  "list_all line_fine (config_lines f) \<Longrightarrow> CHR ''/'' \<in> set (defaultshell st) \<Longrightarrow>
    \<exists>st' errs'. config_loop (\<lambda>_. True) f st errs = Inr (True, st', errs')
      \<and> CHR ''/'' \<in> set (defaultshell st')"
proof (induction "length f" arbitrary: f st errs rule: less_induct)
  case less
  show ?case
  proof (cases "fgets MAXPATHLEN f")
    case None
    with less.prems show ?thesis by (simp add: config_loop.simps)
  next
    case (Some p)
    obtain buf rest where p: "fgets MAXPATHLEN f = Some (buf, rest)" using Some by (cases p) auto
    with less.prems(1) have "line_fine (cstr buf)" "list_all line_fine (config_lines rest)"
      by (simp_all add: config_lines.simps [of f])
    from config_line_fine [OF this(1) NUL_notin_cstr less.prems(2)] obtain st1 errs1 where
      "config_line (\<lambda>_. True) (cstr buf) st errs = Inr (True, st1, errs1)" "CHR ''/'' \<in> set (defaultshell st1)"
      by blast
    with less.hyps [OF fgets_shorter [OF p] \<open>list_all line_fine (config_lines rest)\<close>] p show ?thesis
      by (simp add: config_loop.simps [of _ f])
  qed
qed

text \<open>A well-formed entry, and the line an administrator writes for it.\<close>

definition wf_key :: "string \<Rightarrow> bool" where
  "wf_key k \<longleftrightarrow> k \<noteq> [] \<and> hd k \<noteq> CHR ''#'' \<and> no_blank_ends k
     \<and> CHR ''='' \<notin> set k \<and> LF \<notin> set k \<and> NUL \<notin> set k"

definition wf_value :: "string \<Rightarrow> bool" where
  "wf_value v \<longleftrightarrow> no_blank_ends v \<and> LF \<notin> set v \<and> NUL \<notin> set v"

definition render :: "string \<times> string \<Rightarrow> string" where
  "render kv = fst kv @ '' = '' @ snd kv @ [LF]"

definition wf_entry :: "string \<times> string \<Rightarrow> bool" where
  "wf_entry kv \<longleftrightarrow> wf_key (fst kv) \<and> wf_value (snd kv) \<and> length (render kv) < MAXPATHLEN"

lemma split_render:
  assumes "wf_entry (k, v)"
  shows "splitConfigLine (\<lambda>_. True) (render (k, v)) (MAXPATHLEN + 1) [] (MAXPATHLEN + 1) []
    = Inr (True, k, v)"
proof -
  from assms have wf: "wf_key k" "wf_value v" "length k < MAXPATHLEN" "length v + 2 < MAXPATHLEN"
    by (auto simp: wf_entry_def render_def)
  have "trimmed ([] @ k @ '' '') = k"
    using wf(1) by (intro trimmed_core) (auto simp: wf_key_def isWhitespace_def)
  moreover have "trimmed ('' '' @ v @ [LF]) = v"
    using wf(2) by (intro trimmed_core) (auto simp: wf_value_def isWhitespace_def)
  moreover have "render (k, v) = (k @ '' '') @ CHR ''='' # ('' '' @ v @ [LF])"
    by (simp add: render_def)
  moreover have eq: "CHR ''='' \<notin> set (k @ '' '')" and "hd (k @ '' '') \<noteq> CHR ''#''"
    using wf(1) by (auto simp: wf_key_def)
  ultimately show ?thesis
    using wf(3,4) by (simp add: splitConfigLine_eq [OF eq, simplified])
qed

lemma config_loop_render:
  assumes "wf_entry kv"
  shows "config_loop (\<lambda>_. True) (render kv @ f) st errs
    = config_loop (\<lambda>_. True) f (assign st kv) errs"
proof -
  obtain k v where kv: "kv = (k, v)" by (cases kv)
  let ?l = "k @ '' = '' @ v"
  have r: "render kv = ?l @ [LF]" by (simp add: render_def kv)
  from assms have wf: "LF \<notin> set ?l" "NUL \<notin> set (render kv)" "length ?l + 1 < MAXPATHLEN"
    by (auto simp: wf_entry_def wf_key_def wf_value_def render_def kv)
  from wf(1,3) have "fgets MAXPATHLEN (?l @ LF # f) = Some (?l @ [LF], f)"
    by (rule fgets_line)
  then have "fgets MAXPATHLEN (render kv @ f) = Some (render kv, f)"
    by (simp add: r)
  moreover have "config_line (\<lambda>_. True) (render kv) st errs = Inr (True, assign st kv, errs)"
    using config_line_assign [OF split_render] assms wf(2) by (simp add: kv)
  ultimately show ?thesis
    using wf(2) by (subst config_loop.simps) simp
qed

lemma config_loop_renders:
  "list_all wf_entry es \<Longrightarrow> config_loop (\<lambda>_. True) (concat (map render es)) st errs
    = Inr (True, foldl assign st es, errs)"
proof (induction es arbitrary: st)
  case Nil
  show ?case by (simp add: config_loop.simps fgets_def)
next
  case (Cons kv es)
  then show ?case by (simp add: config_loop_render)
qed

section \<open>Properties\<close>

text \<open>Reading the configuration never reports an error: whatever the file holds and however
  \<open>malloc\<close> behaves, \<open>readConfigFile\<close> returns true unless it faults, because no line
  read into a buffer of \<open>MAXPATHLEN\<close> characters can carry a value that is too long; and
  the two paths it sets fit their buffers.\<close>

theorem readConfigFile_never_fails:
  assumes "readConfigFile malloc_ok config st = Inr (ok, st', errs)" "paths_fit st"
  shows "ok \<and> paths_fit st'"
  using assms config_loop_ok by (fastforce simp: readConfigFile_def split: option.splits)

theorem readConfigFile_never_fails_witness:
  "readConfigFile (\<lambda>_. True) None linux_settings = Inr (True, linux_settings, [])
   \<and> paths_fit linux_settings"
proof -
  have r: "readConfigFile (\<lambda>_. True) None linux_settings = Inr (True, linux_settings, [])"
    by (simp add: readConfigFile_def)
  have p: "paths_fit linux_settings"
    by (simp add: paths_fit_def MAXPATHLEN_def linux_settings_def)
  from r readConfigFile_never_fails [OF r p] show ?thesis by simp
qed

text \<open>C25: A file of well-formed \<open>key = value\<close> lines is read as the sequence of its
  assignments, in order, so the last assignment of an option wins; unknown keys change nothing
  and no message is printed.\<close>

theorem readConfigFile_assigns_in_order:
  assumes "list_all wf_entry es"
  shows "readConfigFile (\<lambda>_. True) (Some (concat (map render es))) st
    = Inr (True, foldl assign st es, [])"
  using config_loop_renders [OF assms] by (simp add: readConfigFile_def)

theorem readConfigFile_assigns_in_order_witness:
  "readConfigFile (\<lambda>_. True) (Some (concat (map render
      [(''file.dir'', ''/a''), (''color'', ''blue''), (''file.dir'', ''/b c'')]))) linux_settings
    = Inr (True, linux_settings\<lparr>logdir := ''/b c''\<rparr>, [])"
proof -
  have "list_all wf_entry [(''file.dir'', ''/a''), (''color'', ''blue''), (''file.dir'', ''/b c'')]"
    by (simp add: wf_entry_def wf_key_def wf_value_def no_blank_ends_def isWhitespace_def
        render_def MAXPATHLEN_def)
  from readConfigFile_assigns_in_order [OF this] show ?thesis
    by (simp add: assign_def Let_def)
qed

text \<open>The options written out as a configuration file.\<close>

definition bool_text :: "bool \<Rightarrow> string" where
  "bool_text b = (if b then ''true'' else ''false'')"

definition settings_entries :: "settings \<Rightarrow> (string \<times> string) list" where
  "settings_entries st =
     [(''file'', bool_text (logtofile st)), (''file.dir'', logdir st),
      (''syslog'', bool_text (logtosyslog st)),
      (''syslog.linenumbering'', bool_text (syslogLogLineCount st)),
      (''syslog.username'', bool_text (syslogLogUsername st)),
      (''defaultshell'', defaultshell st)]"

definition settings_text :: "settings \<Rightarrow> string" where
  "settings_text st = concat (map render (settings_entries st))"

lemma parseBool_bool_text [simp]: "parseBool (Some (bool_text b)) = b"
  by (simp add: parseBool_Some bool_text_def tolower_ascii_def)

lemma wf_settings_entries:
  assumes "wf_value (logdir st)" "wf_value (defaultshell st)"
    "length (logdir st) + 50 < MAXPATHLEN" "length (defaultshell st) + 50 < MAXPATHLEN"
  shows "list_all wf_entry (settings_entries st)"
proof -
  have "wf_value (bool_text b)" "length (bool_text b) < n + 6" for b n
    by (auto simp: wf_value_def bool_text_def no_blank_ends_def isWhitespace_def)
  from this(1) this(2) [of _ 4080] this(2) [of _ 4066] this(2) [of _ 4071] this(2) [of _ 4082] assms
  show ?thesis
    by (simp add: settings_entries_def wf_entry_def wf_key_def no_blank_ends_def isWhitespace_def
        render_def MAXPATHLEN_def)
qed

text \<open>C24: Round trip: writing any options out as a configuration file and reading the file
  back, starting from any other options, gives the same options.\<close>

theorem config_roundtrip:
  assumes "wf_value (logdir st)" "wf_value (defaultshell st)"
    "length (logdir st) + 50 < MAXPATHLEN" "length (defaultshell st) + 50 < MAXPATHLEN"
  shows "readConfigFile (\<lambda>_. True) (Some (settings_text st)) st0 = Inr (True, st, [])"
proof -
  have "foldl assign st0 (settings_entries st) = st"
    by (simp add: settings_entries_def assign_def Let_def)
  with config_loop_renders [OF wf_settings_entries [OF assms]] show ?thesis
    by (simp add: readConfigFile_def settings_text_def)
qed

theorem config_roundtrip_witness:
  "readConfigFile (\<lambda>_. True) (Some (settings_text linux_settings))
      (static_settings linux_build) = Inr (True, linux_settings, [])"
  by (rule config_roundtrip)
    (simp_all add: linux_settings_def wf_value_def no_blank_ends_def isWhitespace_def MAXPATHLEN_def)

end
