(* ===== verification/Vt_Filter.thy ===== *)
theory Vt_Filter
  imports Prelude
begin

unbundle bit_operations_syntax

text \<open>
  The escape sequence filter \<open>stripesc\<close> of \<^verbatim>\<open>write2syslog.c\<close>: a machine over the
  global \<open>vtstate\<close> that reads a line character by character and builds a copy without
  terminal control sequences, and the copy back into the caller's buffer.
\<close>

section \<open>The code\<close>

definition BEL :: nat where "BEL = 0x07"
definition BS :: nat where "BS = 0x08"
definition TAB :: nat where "TAB = 0x09"
definition VT :: nat where "VT = 0x0B"
definition FF :: nat where "FF = 0x0C"
definition CAN :: nat where "CAN = 0x18"
definition SUB :: nat where "SUB = 0x1A"
definition ESC :: nat where "ESC = 0x1B"
definition DCS :: nat where "DCS = 0x90"
definition CSI :: nat where "CSI = 0x9B"
definition OSC :: nat where "OSC = 0x9D"
definition PM :: nat where "PM = 0x9E"
definition APC :: nat where "APC = 0x9F"

lemmas vt_codes = BEL_def BS_def TAB_def VT_def FF_def CAN_def SUB_def ESC_def DCS_def CSI_def
  OSC_def PM_def APC_def

datatype vtstate =
  Normal | Esc | Csi | Dcs | DcsString | Osc | OscString | DropOne | DecSet

text \<open>
  The body of the loop: the new \<open>vtstate\<close> and what is appended to the clean copy, for the
  character with code \<open>chr\<close> (masked with \<open>0xFF\<close>).
\<close>

definition vt_control :: "vtstate \<Rightarrow> nat \<Rightarrow> vtstate \<times> buffer" where
  "vt_control vt chr =
     (if chr = BEL then
        (if vt = OscString then (Normal, []) else (vt, [char_of chr]))
      else if chr = BS \<or> chr = TAB \<or> chr = 0x0A \<or> chr = VT \<or> chr = FF \<or> chr = 0x0D then
        (vt, [char_of chr])
      else (vt, []))"

definition vt_visible :: "vtstate \<Rightarrow> nat \<Rightarrow> vtstate \<times> buffer" where
  "vt_visible vt chr =
     (case vt of
        Normal \<Rightarrow> (Normal, [char_of chr])
      | Esc \<Rightarrow>
          (if char_of chr \<in> {CHR ''c'', CHR ''7'', CHR ''8'', CHR ''='', CHR ''>'', CHR 0x7E,
              CHR ''n'', CHR ''S'', CHR ''o'', CHR ''|''} then (Normal, [])
           else if char_of chr \<in> {CHR ''#'', CHR '' '', CHR ''('', CHR '')'', CHR ''*'', CHR ''+''}
             then (DropOne, [])
           else (Normal, []))
      | Csi \<Rightarrow> (if chr \<ge> 0x40 \<and> chr \<le> 0x7E then (Normal, []) else (Csi, []))
      | Dcs \<Rightarrow> (if chr \<ge> 0x40 \<and> chr \<le> 0x7E then (DcsString, []) else (Dcs, []))
      | Osc \<Rightarrow> (if chr \<ge> 0x40 \<and> chr \<le> 0x7E then (OscString, []) else (Osc, []))
      | DecSet \<Rightarrow> (if chr = 0x68 then (Normal, []) else (DecSet, []))
      | DcsString \<Rightarrow> (DcsString, [])
      | OscString \<Rightarrow> (OscString, [])
      | DropOne \<Rightarrow> (DropOne, []))"

definition vt_escape :: "vtstate \<Rightarrow> nat \<Rightarrow> vtstate \<times> nat" where
  "vt_escape vt chr =
     (if vt = Esc \<and> chr \<ge> 0x40 \<and> chr \<le> 0x5F then (Normal, chr + 0x40) else (vt, chr))"

definition vt_switch :: "vtstate \<Rightarrow> nat \<Rightarrow> vtstate \<times> buffer" where
  "vt_switch vt chr =
     (if chr = CAN \<or> chr = SUB then (Normal, [])
      else if chr = ESC then (Esc, [])
      else if chr = CSI then (Csi, [])
      else if chr = DCS \<or> chr = PM \<or> chr = APC then (Dcs, [])
      else if chr = OSC then (Osc, [])
      else if (chr AND 0x6F) < 0x20 then vt_control vt chr
      else vt_visible vt chr)"

definition vt_char :: "vtstate \<Rightarrow> char \<Rightarrow> vtstate \<times> buffer" where
  "vt_char vt c =
     (if vt = DropOne then (Normal, [])
      else case vt_escape vt (of_char c) of (vt', chr) \<Rightarrow> vt_switch vt' chr)"

text \<open>
  The loop \<open>while ((chr = *escBufferPtr++) && (buflen-- > 0))\<close> over the characters before
  the terminator; it ends with the final values of \<open>vtstate\<close>, \<open>buflen\<close> and the clean
  copy.
\<close>

fun strip_loop :: "vtstate \<Rightarrow> string \<Rightarrow> int \<Rightarrow> buffer \<Rightarrow> vtstate \<times> int \<times> buffer" where
  "strip_loop vt [] buflen clean = (vt, buflen, clean)"
| "strip_loop vt (c # cs) buflen clean =
     (if buflen > 0 then
        let (vt', out) = vt_char vt c in strip_loop vt' cs (buflen - 1) (clean @ out)
      else (vt, buflen - 1, clean))"

text \<open>The third argument of \<open>strncpy\<close> is \<open>buflen\<close> as a \<open>size_t\<close>.\<close>

definition stripesc :: "vtstate \<Rightarrow> buffer \<Rightarrow> vtstate \<times> buffer" where
  "stripesc vt escBuffer =
     (let s = cstr escBuffer;
          (vt', buflen, clean) = strip_loop vt s (int (length s)) [] in
      (vt', c_strncpy escBuffer clean (nat (buflen mod 2 ^ 64))))"

section \<open>Machines that read characters and write characters\<close>

fun transduce :: "('s \<Rightarrow> char \<Rightarrow> 's \<times> buffer) \<Rightarrow> 's \<Rightarrow> buffer \<Rightarrow> 's \<times> buffer" where
  "transduce f s [] = (s, [])"
| "transduce f s (c # cs) =
     (let (s1, o1) = f s c; (s2, o2) = transduce f s1 cs in (s2, o1 @ o2))"

text \<open>
  The contract of such a filter: at most one character out per character in, only acceptable
  characters out, and a resting state in which plain characters pass unchanged.
\<close>

locale char_filter =
  fixes f :: "'s \<Rightarrow> char \<Rightarrow> 's \<times> buffer"
    and rest :: 's
    and plain :: "char \<Rightarrow> bool"
    and ok :: "char \<Rightarrow> bool"
  assumes out_length: "length (snd (f s c)) \<le> 1"
    and out_ok: "d \<in> set (snd (f s c)) \<Longrightarrow> ok d"
    and plain_pass: "plain c \<Longrightarrow> f rest c = (rest, [c])"
begin

lemma transduce_append:
  "transduce f s (a @ b) =
     (let (s1, o1) = transduce f s a; (s2, o2) = transduce f s1 b in (s2, o1 @ o2))"
  by (induction a arbitrary: s) (auto simp: Let_def split: prod.splits)

lemma transduce_length: "length (snd (transduce f s xs)) \<le> length xs"
proof (induction xs arbitrary: s)
  case Nil
  then show ?case by simp
next
  case (Cons c xs)
  obtain s1 o1 where c: "f s c = (s1, o1)" by (cases "f s c")
  with out_length [of s c] Cons [of s1] show ?case
    by (auto split: prod.splits)
qed

lemma transduce_ok: "d \<in> set (snd (transduce f s xs)) \<Longrightarrow> ok d"
proof (induction xs arbitrary: s)
  case Nil
  then show ?case by simp
next
  case (Cons c xs)
  obtain s1 o1 where c: "f s c = (s1, o1)" by (cases "f s c")
  obtain s2 o2 where cs: "transduce f s1 xs = (s2, o2)" by (cases "transduce f s1 xs")
  from c cs Cons.prems have "d \<in> set o1 \<or> d \<in> set o2" by auto
  with c cs out_ok [of d s c] Cons.IH [of s1] show ?case by auto
qed

lemma transduce_plain: "list_all plain xs \<Longrightarrow> transduce f rest xs = (rest, xs)"
  by (induction xs) (auto simp: plain_pass)

end

section \<open>The filter satisfies the contract\<close>

text \<open>The test \<open>(chr & 0x6F) < 0x20\<close> finds the control characters of both halves.\<close>

lemma control_mask:
  assumes "n < (256 :: nat)"
  shows "((n AND 0x6F) < 0x20) \<longleftrightarrow> n < 0x20 \<or> 0x80 \<le> n \<and> n < 0xA0"
proof -
  have "drop_bit 5 (n AND 0x6F) = take_bit 2 (drop_bit 5 n)"
    by (simp add: take_bit_eq_mask mask_eq_exp_minus_1 drop_bit_and)
  then have "(n AND 0x6F) div 32 = n div 32 mod 4"
    by (simp add: drop_bit_eq_div take_bit_eq_mod)
  moreover have "q mod 4 = 0 \<longleftrightarrow> q = 0 \<or> q = 4" if "q < 8" for q :: nat
  proof -
    have "q \<in> {0, 1, 2, 3, 4, 5, 6, 7}" using that by auto
    then show ?thesis by auto
  qed
  moreover have "n div 32 < 8" using assms by simp
  moreover have "n div 32 = 0 \<longleftrightarrow> n < 0x20" by linarith
  moreover have "n div 32 = 4 \<longleftrightarrow> 0x80 \<le> n \<and> n < 0xA0" by linarith
  ultimately show ?thesis using div_eq_0_iff [of "n AND 0x6F" 32] by auto
qed

text \<open>The characters a clean line may hold, and those that the resting filter copies.\<close>

definition clean_char :: "char \<Rightarrow> bool" where
  "clean_char c \<longleftrightarrow> (let n = of_char c :: nat in
     7 \<le> n \<and> n \<le> 0x0D \<or> 0x20 \<le> n \<and> n < 0x80 \<or> 0xA0 \<le> n)"

lemma of_char_eqD: "of_char c = (n :: nat) \<Longrightarrow> char_of n = c"
  by auto

lemma of_char_lt_256: "(of_char c :: nat) < 256"
  by simp

text \<open>What each branch can append: nothing, or the character itself.\<close>

lemma vt_control_out:
  "snd (vt_control vt n) = [] \<or> snd (vt_control vt n) = [char_of n] \<and> 7 \<le> n \<and> n \<le> 0x0D"
  by (auto simp: vt_control_def vt_codes)

lemma vt_visible_out: "snd (vt_visible vt n) = [] \<or> snd (vt_visible vt n) = [char_of n]"
  by (cases vt; simp only: vt_visible_def vtstate.case split: if_split; simp)

lemma vt_switch_out:
  assumes "n < 256"
  shows "snd (vt_switch vt n) = [] \<or> snd (vt_switch vt n) = [char_of n] \<and> clean_char (char_of n)"
proof (cases "(n AND 0x6F) < 0x20")
  case True
  with vt_control_out [of vt n] assms show ?thesis
    by (auto simp: vt_switch_def clean_char_def of_char_of)
next
  case False
  then have "\<not> (n < 0x20 \<or> 0x80 \<le> n \<and> n < 0xA0)" by (simp add: control_mask [OF assms])
  with False vt_visible_out [of vt n] assms show ?thesis
    by (auto simp: vt_switch_def clean_char_def of_char_of)
qed

lemma vt_escape_256: "vt_escape vt (of_char c) = (v, n) \<Longrightarrow> n < 256"
  using of_char_lt_256 [of c] by (auto simp: vt_escape_def split: if_splits)

lemma vt_char_out: "snd (vt_char vt c) = [] \<or> (\<exists>d. snd (vt_char vt c) = [d] \<and> clean_char d)"
  using vt_switch_out vt_escape_256 [of vt c]
  by (fastforce simp: vt_char_def split: prod.splits)

lemma vt_control_Normal: "7 \<le> n \<Longrightarrow> n \<le> 0x0D \<Longrightarrow> vt_control Normal n = (Normal, [char_of n])"
  by (auto simp: vt_control_def vt_codes)

lemma vt_switch_Normal:
  assumes "clean_char c"
  shows "vt_switch Normal (of_char c) = (Normal, [c])"
proof -
  let ?n = "of_char c :: nat"
  from assms have n: "7 \<le> ?n \<and> ?n \<le> 0x0D \<or> 0x20 \<le> ?n \<and> ?n < 0x80 \<or> 0xA0 \<le> ?n"
    by (simp add: clean_char_def Let_def)
  have "vt_control Normal ?n = (Normal, [char_of ?n])" if "?n < 0x20"
    using n that by (intro vt_control_Normal) auto
  moreover have "vt_visible Normal ?n = (Normal, [char_of ?n])"
    by (simp add: vt_visible_def)
  moreover have "?n < 0x20" if "(?n AND 0x6F) < 0x20"
    using that n control_mask [OF of_char_lt_256, of c] by auto
  ultimately show ?thesis
    using n by (simp add: vt_switch_def vt_codes) arith
qed

lemma vt_char_Normal: "clean_char c \<Longrightarrow> vt_char Normal c = (Normal, [c])"
  by (simp add: vt_char_def vt_escape_def vt_switch_Normal)

interpretation vt_filter: char_filter vt_char Normal clean_char clean_char
proof
  fix s c d
  show "length (snd (vt_char s c)) \<le> 1" using vt_char_out [of s c] by auto
  show "d \<in> set (snd (vt_char s c)) \<Longrightarrow> clean_char d" using vt_char_out [of s c] by auto
qed (rule vt_char_Normal)

section \<open>The loop\<close>

text \<open>Run on a whole string the loop uses up \<open>buflen\<close> exactly.\<close>

lemma strip_loop_eq:
  "strip_loop vt s (int (length s)) clean =
     (fst (transduce vt_char vt s), 0, clean @ snd (transduce vt_char vt s))"
proof (induction s arbitrary: vt clean)
  case Nil
  then show ?case by simp
next
  case (Cons c s)
  obtain vt1 o1 where "vt_char vt c = (vt1, o1)" by (cases "vt_char vt c")
  with Cons [of vt1 "clean @ o1"] show ?case by (simp add: split_beta)
qed

lemma stripesc_eq: "stripesc vt b = (fst (transduce vt_char vt (cstr b)), b)"
  by (simp add: stripesc_def strip_loop_eq)

text \<open>The parameter bytes of a control sequence keep the machine in \<^const>\<open>Csi\<close>.\<close>

lemma vt_char_Csi_param:
  assumes "0x20 \<le> (of_char c :: nat)" "(of_char c :: nat) \<le> 0x3F"
  shows "vt_char Csi c = (Csi, [])"
  using assms control_mask [OF of_char_lt_256, of c]
  by (simp add: vt_char_def vt_escape_def vt_switch_def vt_visible_def vt_codes)

lemma vt_char_Csi_final:
  assumes "0x40 \<le> (of_char c :: nat)" "(of_char c :: nat) \<le> 0x7E"
  shows "vt_char Csi c = (Normal, [])"
  using assms control_mask [OF of_char_lt_256, of c]
  by (simp add: vt_char_def vt_escape_def vt_switch_def vt_visible_def vt_codes)

lemma transduce_Csi_params:
  "\<forall>c \<in> set ps. 0x20 \<le> (of_char c :: nat) \<and> (of_char c :: nat) \<le> 0x3F \<Longrightarrow>
    transduce vt_char Csi ps = (Csi, [])"
  by (induction ps) (auto simp: vt_char_Csi_param)

lemma transduce_Csi_intro: "transduce vt_char vt [CHR 0x1B, CHR ''[''] = (Csi, [])" if "vt = Normal"
  using that by (simp add: vt_char_def vt_escape_def vt_switch_def vt_codes)

section \<open>Properties\<close>

text \<open>C40: \<open>stripesc\<close> never changes the line it is given: the loop has counted \<open>buflen\<close>
  down to zero by the time it is used as the length of the copy back, so nothing is copied and
  every escape sequence stays in the text that goes to syslog.\<close>

theorem stripesc_changes_nothing: "snd (stripesc vt line) = line"
  by (simp add: stripesc_eq)

text \<open>The clean copy that \<open>stripesc\<close> builds and throws away holds no terminal control
  character: of the codes below 32 only the bell and the six layout characters are kept, and
  none of the C1 controls 128 to 159, whatever the state the filter starts in.\<close>

theorem clean_copy_is_clean:
  assumes "strip_loop vt s (int (length s)) [] = (vt', n, clean)"
  shows "list_all clean_char clean"
  using assms vt_filter.transduce_ok by (auto simp: strip_loop_eq list_all_iff)

theorem clean_copy_is_clean_witness:
  "list_all clean_char ''ok''"
proof -
  have "strip_loop Normal [CHR ''o'', CHR 0x1B, CHR ''['', CHR ''2'', CHR ''J'', CHR ''k'']
      (int (length [CHR ''o'', CHR 0x1B, CHR ''['', CHR ''2'', CHR ''J'', CHR ''k''])) []
      = (Normal, 0, ''ok'')"
    unfolding strip_loop_eq
    by (simp add: vt_char_def vt_escape_def vt_switch_def vt_visible_def vt_codes)
      (intro conjI of_char_eqD; simp)
  from clean_copy_is_clean [OF this] show ?thesis .
qed

text \<open>The clean copy never outgrows its allocation of \<open>buflen + 1\<close> bytes: at every
  iteration it is no longer than what has been read, and the loop ends with \<open>buflen\<close>
  exactly zero.\<close>

theorem clean_copy_fits:
  "\<exists>vt' clean. strip_loop vt s (int (length s)) [] = (vt', 0, clean) \<and> length clean \<le> length s"
  using vt_filter.transduce_length [of vt s] by (simp add: strip_loop_eq)

text \<open>Between clean text, a whole ANSI control sequence (\<open>ESC [\<close>, parameter bytes, a final
  byte) is removed from the clean copy, and the text around it is kept unchanged.\<close>

theorem csi_sequence_removed:
  assumes "list_all clean_char a" "list_all clean_char b"
    and "\<forall>c \<in> set ps. 0x20 \<le> (of_char c :: nat) \<and> (of_char c :: nat) \<le> 0x3F"
    and "0x40 \<le> (of_char z :: nat)" "(of_char z :: nat) \<le> 0x7E"
  shows "let s = a @ [CHR 0x1B, CHR ''[''] @ ps @ [z] @ b in
    strip_loop Normal s (int (length s)) [] = (Normal, 0, a @ b)"
proof -
  have "transduce vt_char Csi (ps @ [z] @ b) = (Normal, b)"
    using assms by (simp add: vt_filter.transduce_append transduce_Csi_params vt_char_Csi_final
        vt_filter.transduce_plain)
  then have "transduce vt_char Normal ([CHR 0x1B, CHR ''[''] @ (ps @ [z] @ b)) = (Normal, b)"
    by (simp only: vt_filter.transduce_append [of _ "[CHR 0x1B, CHR ''['']"]
        transduce_Csi_intro [OF refl] Let_def prod.case append_Nil)
  then have "transduce vt_char Normal (a @ [CHR 0x1B, CHR ''[''] @ ps @ [z] @ b) = (Normal, a @ b)"
    using assms(1) by (simp only: vt_filter.transduce_append [of _ a] vt_filter.transduce_plain
        Let_def prod.case)
  then show ?thesis by (simp only: strip_loop_eq Let_def fst_conv snd_conv append_Nil)
qed

theorem csi_sequence_removed_witness:
  "let s = ''ab'' @ [CHR 0x1B, CHR ''[''] @ ''1;31'' @ ''m'' @ ''cd'' in
    strip_loop Normal s (int (length s)) [] = (Normal, 0, ''ab'' @ ''cd'')"
  by (rule csi_sequence_removed) (simp_all add: clean_char_def)

end
