(* ===== verification/Syslog_Writer.thy ===== *)
theory Syslog_Writer
  imports Vt_Filter
begin

text \<open>
  The buffered line writer \<open>write2syslog\<close> of \<^verbatim>\<open>write2syslog.c\<close>: it joins what is left
  of the last call with the new output, cuts the result into lines at carriage returns, filters
  and sends each line, and keeps the unfinished rest. Its static variables and the global
  \<open>vtstate\<close> are the record \<^verbatim>\<open>w2s\<close>; a pointer into the buffer is an offset; the messages
  handed to \<open>syslog\<close> are collected with their priority.
\<close>

section \<open>The code\<close>

record w2s =
  rptr :: "buffer option"
  rptrLength :: nat
  rflag :: bool
  linecnt :: nat
  vtstate :: vtstate
  messages :: "(int \<times> string) list"

definition init_w2s :: w2s where
  "init_w2s = \<lparr>rptr = None, rptrLength = 0, rflag = False, linecnt = 0, vtstate = Normal,
     messages = []\<rparr>"

definition syslog :: "int \<Rightarrow> string \<Rightarrow> w2s \<Rightarrow> w2s" where
  "syslog prio text s = s\<lparr>messages := messages s @ [(prio, text)]\<rparr>"

text \<open>\<open>memchr (buf + from, c, n)\<close>, as an offset into \<open>buf\<close>.\<close>

definition memchr :: "buffer \<Rightarrow> nat \<Rightarrow> char \<Rightarrow> nat \<Rightarrow> nat option" where
  "memchr buf from c n = map_option (\<lambda>i. from + i) (c_index (take n (drop from buf)) c)"

text \<open>
  One line: allocate \<open>eptr\<close>, copy, terminate, filter, send, count. The result of this
  \<open>malloc\<close> is not checked, nor is that of the one inside the filter, which is for the
  text up to the first null character.
\<close>

definition emit_line ::
  "(nat \<Rightarrow> bool) \<Rightarrow> bool \<Rightarrow> int \<Rightarrow> buffer \<Rightarrow> w2s \<Rightarrow> stop + w2s" where
  "emit_line malloc_ok useLinecnt prio line s =
     (if \<not> malloc_ok (length line + 1) then Inl (Faulted Null_Deref)
      else if \<not> malloc_ok (length (cstr (line @ [NUL])) + 1) then Inl (Faulted Null_Deref)
      else
        let (vt, eptr) = stripesc (vtstate s) (line @ [NUL]);
            s = s\<lparr>vtstate := vt\<rparr> in
        if useLinecnt then
          let s = syslog prio (pad0 3 (linecnt s) @ '': '' @ cstr eptr) s;
              s = s\<lparr>linecnt := linecnt s + 1\<rparr> in
          if linecnt s = 101 then Inr (s\<lparr>linecnt := 0\<rparr>) else Inr s
        else Inr (syslog prio (cstr eptr) s))"

lemma memchr_Some: "memchr buf from c n = Some i \<Longrightarrow> from \<le> i \<and> i < from + n \<and> i < length buf"
  by (auto simp: memchr_def c_index_Some_iff)

function w2s_loop ::
  "(nat \<Rightarrow> bool) \<Rightarrow> bool \<Rightarrow> int \<Rightarrow> buffer \<Rightarrow> nat \<Rightarrow> nat \<Rightarrow> nat option \<Rightarrow> w2s
    \<Rightarrow> stop + nat \<times> nat option \<times> w2s" where
  "w2s_loop malloc_ok useLinecnt prio buf len tptr lptr s =
     (case lptr of
        None \<Rightarrow> Inr (tptr, None, s)
      | Some l \<Rightarrow>
          if tptr < len then
            bindR (emit_line malloc_ok useLinecnt prio (take (l - tptr) (drop tptr buf))
                (s\<lparr>rflag := True\<rparr>)) (\<lambda>s.
              if l = len - 1 \<and> buf ! l = CR then
                w2s_loop malloc_ok useLinecnt prio buf len (l + 1) None s
              else if l < len - 1 then
                let tptr = l + 1 in
                if buf ! tptr = LF \<and> tptr = len - 1 then
                  w2s_loop malloc_ok useLinecnt prio buf len tptr None s
                else if buf ! tptr = LF \<and> tptr < len - 1 then
                  let tptr = tptr + 1 in
                  w2s_loop malloc_ok useLinecnt prio buf len tptr (memchr buf tptr CR (len - tptr)) s
                else
                  w2s_loop malloc_ok useLinecnt prio buf len tptr (memchr buf tptr CR (len - tptr)) s
              else w2s_loop malloc_ok useLinecnt prio buf len tptr None s)
          else Inr (tptr, lptr, s))"
  by pat_completeness auto
termination
proof (relation "measure (\<lambda>(m, u, p, buf, len, tptr, lptr, s).
    case lptr of None \<Rightarrow> 0 | Some l \<Rightarrow> Suc (len - l))", goal_cases)
  case 1
  then show ?case by simp
qed (auto split: option.split dest!: memchr_Some)

declare w2s_loop.simps [simp del]

text \<open>The loop that skips empty lines in front of the rest.\<close>

function skip_newlines :: "buffer \<Rightarrow> nat \<Rightarrow> nat \<Rightarrow> nat" where
  "skip_newlines buf len tptr =
     (if tptr < len \<and> buf ! tptr = LF then skip_newlines buf len (tptr + 1) else tptr)"
  by pat_completeness auto
termination
  by (relation "measure (\<lambda>(buf, len, tptr). len - tptr)") auto

declare skip_newlines.simps [simp del]

text \<open>The end of a call: what no carriage return has ended is kept for the next one.\<close>

definition keep_rest ::
  "(nat \<Rightarrow> bool) \<Rightarrow> buffer \<Rightarrow> nat \<Rightarrow> nat \<Rightarrow> nat option \<Rightarrow> w2s \<Rightarrow> stop + w2s" where
  [simp]: "keep_rest malloc_ok buf len tptr lptr s =
     (if lptr = None \<and> tptr < len then
        (if malloc_ok (len - tptr) then
           Inr (s\<lparr>rptr := Some (drop tptr buf), rptrLength := len - tptr\<rparr>)
         else Inl (Exited 1))
      else Inr (s\<lparr>rptr := None, rptrLength := 0\<rparr>))"

definition write2syslog ::
  "(nat \<Rightarrow> bool) \<Rightarrow> buffer option \<Rightarrow> bool \<Rightarrow> int \<Rightarrow> w2s \<Rightarrow> stop + w2s" where
  "write2syslog malloc_ok optr useLinecnt prio s =
     (case optr of None \<Rightarrow> Inr s
      | Some optr \<Rightarrow>
          if length optr = 0 then Inr s
          else
            let optr = (if rflag s \<and> hd optr = LF then tl optr else optr);
                s = s\<lparr>rflag := False\<rparr> in
            bindR (case rptr s of
                None \<Rightarrow> if malloc_ok (length optr) then Inr [] else Inl (Faulted Null_Deref)
              | Some old \<Rightarrow>
                  if malloc_ok (rptrLength s + length optr) then Inr old else Inl (Exited 1))
            (\<lambda>old.
            let buf = take (rptrLength s) old @ optr;
                len = rptrLength s + length optr in
            bindR (w2s_loop malloc_ok useLinecnt prio buf len 0 (memchr buf 0 CR len) s)
            (\<lambda>(tptr, lptr, s).
            keep_rest malloc_ok buf len (skip_newlines buf len tptr) lptr s)))"

section \<open>The specification: cutting at carriage returns\<close>

definition drop_newline :: "buffer \<Rightarrow> buffer" where
  "drop_newline s = (if s \<noteq> [] \<and> hd s = LF then tl s else s)"

lemma length_drop_newline: "length (drop_newline s) \<le> length s"
  by (simp add: drop_newline_def)

function cr_split :: "buffer \<Rightarrow> buffer list \<times> buffer" where
  "cr_split s =
     (case c_index s CR of
        None \<Rightarrow> ([], s)
      | Some i \<Rightarrow>
          let (ls, r) = cr_split (drop_newline (drop (Suc i) s)) in (take i s # ls, r))"
  by pat_completeness auto
termination
proof (relation "measure length", goal_cases)
  case (2 s i)
  then show ?case
    using length_drop_newline [of "drop (Suc i) s"] by (auto simp: c_index_Some_iff)
qed simp

declare cr_split.simps [simp del]

section \<open>The loop refines the specification\<close>

text \<open>Sending a line when memory is available.\<close>

definition emit :: "bool \<Rightarrow> int \<Rightarrow> w2s \<Rightarrow> buffer \<Rightarrow> w2s" where
  "emit u prio s line =
     s\<lparr>vtstate := fst (stripesc (vtstate s) (line @ [NUL])),
       messages := messages s @
         [(prio, (if u then pad0 3 (linecnt s) @ '': '' else []) @ cstr line)],
       linecnt := (if u then if linecnt s = 100 then 0 else linecnt s + 1 else linecnt s)\<rparr>"

lemma cstr_snoc_NUL [simp]: "cstr (b @ [NUL]) = cstr b"
  by (induction b) (auto simp: cstr_def)

lemma emit_line_True: "emit_line (\<lambda>_. True) u prio line s = Inr (emit u prio s line)"
  by (simp add: emit_line_def emit_def syslog_def stripesc_eq Let_def)

lemma emit_frame [simp]:
  "rptr (emit u prio s l) = rptr s"
  "rptrLength (emit u prio s l) = rptrLength s"
  "rflag (emit u prio s l) = rflag s"
  by (simp_all add: emit_def)

lemma emits_frame [simp]:
  "rptr (foldl (emit u prio) s ls) = rptr s"
  "rptrLength (foldl (emit u prio) s ls) = rptrLength s"
  "rflag (foldl (emit u prio) s ls) = rflag s"
  by (induction ls arbitrary: s) simp_all

lemma emit_rflag: "emit u prio (s\<lparr>rflag := b\<rparr>) l = (emit u prio s l)\<lparr>rflag := b\<rparr>"
  by (simp add: emit_def)

lemma cr_split_None: "CR \<notin> set s \<Longrightarrow> cr_split s = ([], s)"
  by (subst cr_split.simps) simp

lemma cr_split_Some:
  "c_index s CR = Some i \<Longrightarrow> cr_split s =
    (take i s # fst (cr_split (drop_newline (drop (Suc i) s))),
     snd (cr_split (drop_newline (drop (Suc i) s))))"
  by (subst cr_split.simps) (simp add: split_beta)

lemma w2s_loop_None: "w2s_loop m u p buf len t None s = Inr (t, None, s)"
  by (simp add: w2s_loop.simps)

lemma drop_nth_Cons: "t < length b \<Longrightarrow> drop t b = b ! t # drop (Suc t) b"
  by (simp add: Cons_nth_drop_Suc)

lemma w2s_loop_eq:
  assumes "t \<le> length buf" "cr_split (drop t buf) = (ls, r)"
  shows "\<exists>t'. w2s_loop (\<lambda>_. True) u prio buf (length buf) t (memchr buf t CR (length buf - t)) s
      = Inr (t', None, foldl (emit u prio) (s\<lparr>rflag := rflag s \<or> ls \<noteq> []\<rparr>) ls)
    \<and> t' \<le> length buf
    \<and> dropWhile (\<lambda>c. c = LF) (drop t' buf) = dropWhile (\<lambda>c. c = LF) r"
  using assms
proof (induction "length buf - t" arbitrary: t s ls r rule: less_induct)
  case less
  let ?len = "length buf"
  show ?case
  proof (cases "c_index (drop t buf) CR")
    case None
    then have "CR \<notin> set (drop t buf)" by simp
    with less.prems show ?thesis
      by (intro exI [of _ t]) (auto simp: cr_split_None memchr_def w2s_loop_None)
  next
    case (Some i)
    define l where "l = t + i"
    from Some have l: "l < ?len" "buf ! l = CR" "t < ?len"
      by (auto simp: c_index_Some_iff l_def)
    let ?line = "take i (drop t buf)"
    let ?rest = "drop (Suc l) buf"
    let ?s = "(emit u prio s ?line)\<lparr>rflag := True\<rparr>"
    obtain ls' r' where split': "cr_split (drop_newline ?rest) = (ls', r')"
      by (cases "cr_split (drop_newline ?rest)")
    from Some less.prems(2) split' have ls: "ls = ?line # ls'" "r = r'"
      by (simp_all add: cr_split_Some l_def add.commute)
    have mem: "memchr buf t CR (?len - t) = Some l"
      using Some by (simp add: memchr_def l_def)
    note unfold = w2s_loop.simps [of _ _ _ _ _ t] mem
    show ?thesis
    proof (cases "l = ?len - 1")
      case True
      with split' ls have "ls = [?line]" "r = []"
        by (auto simp: drop_newline_def cr_split_None)
      moreover have "i = ?len - Suc t" using True l_def l by simp
      ultimately show ?thesis
        using l True by (intro exI [of _ "Suc l"])
          (simp add: unfold emit_line_True w2s_loop_None l_def emit_rflag)
    next
      case False
      with l have rest: "?rest = buf ! Suc l # drop (Suc (Suc l)) buf" and sl: "Suc l < ?len"
        by (auto intro: drop_nth_Cons)
      consider (last) "buf ! Suc l = LF" "Suc l = ?len - 1"
        | (skip) "buf ! Suc l = LF" "Suc l < ?len - 1" | (plain) "buf ! Suc l \<noteq> LF"
        using sl by linarith
      then show ?thesis
      proof cases
        case last
        with rest have "drop_newline ?rest = []"
          by (simp only: drop_newline_def) simp
        with split' ls have "ls = [?line]" "r = []"
          by (simp_all only: cr_split_None [of "[]", simplified] prod.inject)
        with l last rest False show ?thesis
          by (intro exI [of _ "Suc l"])
            (simp add: unfold emit_line_True w2s_loop_None l_def emit_rflag)
      next
        case skip
        with split' rest have "cr_split (drop (Suc (Suc l)) buf) = (ls', r')"
          by (simp add: drop_newline_def)
        moreover have "?len - Suc (Suc l) < ?len - t" using l l_def by linarith
        ultimately obtain t' where
          "w2s_loop (\<lambda>_. True) u prio buf ?len (Suc (Suc l))
             (memchr buf (Suc (Suc l)) CR (?len - Suc (Suc l))) ?s
           = Inr (t', None, foldl (emit u prio) (?s\<lparr>rflag := True\<rparr>) ls')"
          "t' \<le> ?len" "dropWhile (\<lambda>c. c = LF) (drop t' buf) = dropWhile (\<lambda>c. c = LF) r'"
          using less.hyps [of "Suc (Suc l)" ls' r' ?s] skip sl by auto
        with l skip ls show ?thesis
          by (intro exI [of _ t']) (simp add: unfold emit_line_True l_def emit_rflag)
      next
        case plain
        with split' rest have "cr_split (drop (Suc l) buf) = (ls', r')"
          by (simp add: drop_newline_def)
        moreover have "?len - Suc l < ?len - t" using l l_def by linarith
        ultimately obtain t' where
          "w2s_loop (\<lambda>_. True) u prio buf ?len (Suc l) (memchr buf (Suc l) CR (?len - Suc l)) ?s
           = Inr (t', None, foldl (emit u prio) (?s\<lparr>rflag := True\<rparr>) ls')"
          "t' \<le> ?len" "dropWhile (\<lambda>c. c = LF) (drop t' buf) = dropWhile (\<lambda>c. c = LF) r'"
          using less.hyps [of "Suc l" ls' r' ?s] sl by auto
        moreover have "t + i < ?len - 1" using sl l_def by simp
        ultimately show ?thesis
          using l plain sl ls by (intro exI [of _ t']) (simp add: unfold emit_line_True l_def emit_rflag)
      qed
    qed
  qed
qed

lemma skip_newlines_eq:
  "t \<le> length buf \<Longrightarrow> skip_newlines buf (length buf) t \<le> length buf
    \<and> drop (skip_newlines buf (length buf) t) buf = dropWhile (\<lambda>c. c = LF) (drop t buf)"
proof (induction buf "length buf" t rule: skip_newlines.induct)
  case (1 buf t)
  show ?case
  proof (cases "t < length buf")
    case True
    with 1 show ?thesis
      by (subst (1 2) skip_newlines.simps) (auto simp: drop_nth_Cons)
  next
    case False
    with 1 show ?thesis by (simp add: skip_newlines.simps)
  qed
qed

section \<open>One call refines the specification\<close>

definition pending :: "w2s \<Rightarrow> buffer" where
  "pending s = (case rptr s of None \<Rightarrow> [] | Some r \<Rightarrow> r)"

text \<open>What one call is meant to do, on the pending text and the chunk as lists.\<close>

definition w2s_spec :: "bool \<Rightarrow> int \<Rightarrow> w2s \<Rightarrow> buffer \<Rightarrow> w2s" where
  "w2s_spec u prio s chunk =
     (if chunk = [] then s
      else
        let chunk' = (if rflag s then drop_newline chunk else chunk);
            (ls, r) = cr_split (pending s @ chunk');
            r' = dropWhile (\<lambda>c. c = LF) r in
        (foldl (emit u prio) (s\<lparr>rflag := ls \<noteq> []\<rparr>) ls)
          \<lparr>rptr := if r' = [] then None else Some r', rptrLength := length r'\<rparr>)"

text \<open>
  The invariant between calls: the recorded length is the length of the pending block; pending
  text is non-empty, holds no carriage return and does not start with a newline; the counter is
  in its range.
\<close>

definition w2s_inv :: "w2s \<Rightarrow> bool" where
  "w2s_inv s \<longleftrightarrow> rptrLength s = length (pending s) \<and> rptr s \<noteq> Some []
     \<and> CR \<notin> set (pending s) \<and> (pending s \<noteq> [] \<longrightarrow> hd (pending s) \<noteq> LF) \<and> linecnt s \<le> 100"

lemma write2syslog_refines:
  assumes "w2s_inv s"
  shows "write2syslog (\<lambda>_. True) (Some chunk) u prio s = Inr (w2s_spec u prio s chunk)"
proof (cases "chunk = []")
  case True
  then show ?thesis by (simp add: write2syslog_def w2s_spec_def)
next
  case False
  define chunk' where "chunk' = (if rflag s then drop_newline chunk else chunk)"
  define buf where "buf = pending s @ chunk'"
  define s0 where "s0 = s\<lparr>rflag := False\<rparr>"
  obtain ls r where split: "cr_split buf = (ls, r)" by (cases "cr_split buf")
  define s1 where "s1 = foldl (emit u prio) (s0\<lparr>rflag := ls \<noteq> []\<rparr>) ls"
  have len: "rptrLength s + length chunk' = length buf"
    using assms by (simp add: buf_def w2s_inv_def)
  from w2s_loop_eq [of 0 buf ls r u prio s0] split obtain t where
    loop: "w2s_loop (\<lambda>_. True) u prio buf (length buf) 0 (memchr buf 0 CR (length buf)) s0
        = Inr (t, None, s1)"
    and t: "t \<le> length buf" "dropWhile (\<lambda>c. c = LF) (drop t buf) = dropWhile (\<lambda>c. c = LF) r"
    by (auto simp: s0_def s1_def)
  define t' where "t' = skip_newlines buf (length buf) t"
  from skip_newlines_eq [OF t(1)] t(2) have
    t': "t' \<le> length buf" "drop t' buf = dropWhile (\<lambda>c. c = LF) r"
    by (simp_all add: t'_def)
  then have len': "length buf - t' = length (dropWhile (\<lambda>c. c = LF) r)"
    by (metis length_drop)
  have "write2syslog (\<lambda>_. True) (Some chunk) u prio s =
      (if t' < length buf then Inr (s1\<lparr>rptr := Some (drop t' buf), rptrLength := length buf - t'\<rparr>)
       else Inr (s1\<lparr>rptr := None, rptrLength := 0\<rparr>))"
  proof -
    have c: "(if rflag s \<and> hd chunk = LF then tl chunk else chunk) = chunk'"
      using False by (simp add: chunk'_def drop_newline_def)
    define old where "old = (case rptr s of None \<Rightarrow> [] | Some old \<Rightarrow> old)"
    have b: "take (rptrLength s) old @ chunk' = buf"
      using assms by (simp add: buf_def w2s_inv_def pending_def old_def split: option.splits)
    have o: "(case rptr s of None \<Rightarrow> if True then Inr [] else Inl (Faulted Null_Deref)
        | Some old \<Rightarrow> if True then Inr old else Inl (Exited 1)) = (Inr old :: stop + buffer)"
      by (simp add: old_def split: option.split)
    have frame: "rptr s0 = rptr s" "rptrLength s0 = rptrLength s"
      by (simp_all add: s0_def)
    show ?thesis
      unfolding write2syslog_def keep_rest_def option.case Let_def c s0_def [symmetric] frame o bindR.simps b len
        loop prod.case t'_def [symmetric]
      using False by simp
  qed
  also have "\<dots> = Inr (w2s_spec u prio s chunk)"
  proof -
    have s1: "s1 = foldl (emit u prio) (s\<lparr>rflag := ls \<noteq> []\<rparr>) ls"
      by (simp add: s1_def s0_def)
    have "t' < length buf \<longleftrightarrow> dropWhile (\<lambda>c. c = LF) r \<noteq> []"
      using t'(1) len' by (metis length_greater_0_conv zero_less_diff)
    moreover have "w2s_spec u prio s chunk =
        s1\<lparr>rptr := if dropWhile (\<lambda>c. c = LF) r = [] then None else Some (dropWhile (\<lambda>c. c = LF) r),
           rptrLength := length (dropWhile (\<lambda>c. c = LF) r)\<rparr>"
      unfolding w2s_spec_def Let_def chunk'_def [symmetric] buf_def [symmetric] split prod.case s1
      using False by simp
    ultimately show ?thesis
      using t' len' by (simp del: dropWhile_eq_Nil_conv)
  qed
  finally show ?thesis .
qed

section \<open>What the specification keeps\<close>

lemma cr_split_rest: "CR \<notin> set (snd (cr_split s))"
proof (induction s rule: cr_split.induct)
  case (1 s)
  show ?case
  proof (cases "c_index s CR")
    case None
    then show ?thesis by (simp add: cr_split_None)
  next
    case (Some i)
    with 1 show ?thesis by (simp add: cr_split_Some)
  qed
qed

lemma linecnt_emits: "linecnt s \<le> 100 \<Longrightarrow> linecnt (foldl (emit u prio) s ls) \<le> 100"
  by (induction ls arbitrary: s) (auto simp: emit_def)

lemma pending_w2s_spec:
  "chunk \<noteq> [] \<Longrightarrow> pending (w2s_spec u prio s chunk) = dropWhile (\<lambda>c. c = LF) (snd (cr_split
     (pending s @ (if rflag s then drop_newline chunk else chunk))))"
  by (auto simp: w2s_spec_def pending_def Let_def split_beta simp del: dropWhile_eq_Nil_conv)

lemma w2s_spec_inv: "w2s_inv s \<Longrightarrow> w2s_inv (w2s_spec u prio s chunk)"
proof (cases "chunk = []")
  case True
  assume "w2s_inv s"
  with True show ?thesis by (simp add: w2s_spec_def)
next
  case False
  assume inv: "w2s_inv s"
  let ?r = "snd (cr_split (pending s @ (if rflag s then drop_newline chunk else chunk)))"
  let ?r' = "dropWhile (\<lambda>c. c = LF) ?r"
  have "CR \<notin> set ?r'" using cr_split_rest by (auto dest: set_dropWhileD)
  moreover have "?r' \<noteq> [] \<longrightarrow> hd ?r' \<noteq> LF" using hd_dropWhile by blast
  moreover have "rptr (w2s_spec u prio s chunk) \<noteq> Some []"
      "rptrLength (w2s_spec u prio s chunk) = length ?r'"
      "linecnt (w2s_spec u prio s chunk) \<le> 100"
    using False inv by (auto simp: w2s_spec_def Let_def split_beta w2s_inv_def intro!: linecnt_emits)
  ultimately show ?thesis
    using pending_w2s_spec [OF False, of u prio s] by (simp add: w2s_inv_def)
qed

lemma init_w2s_inv: "w2s_inv init_w2s"
  by (simp add: w2s_inv_def init_w2s_def pending_def)

section \<open>No output is lost\<close>

definition no_lf :: "buffer \<Rightarrow> buffer" where
  "no_lf s = filter (\<lambda>c. c \<noteq> LF) s"

lemma no_lf_append [simp]: "no_lf (a @ b) = no_lf a @ no_lf b"
  by (simp add: no_lf_def)

lemma no_lf_Nil [simp]: "no_lf [] = []"
  by (simp add: no_lf_def)

lemma no_lf_CR [simp]: "no_lf (CR # b) = CR # no_lf b"
  by (simp add: no_lf_def)

lemma no_lf_dropWhile [simp]: "no_lf (dropWhile (\<lambda>c. c = LF) s) = no_lf s"
  by (simp add: no_lf_def filter_dropWhile_eq)

lemma no_lf_drop_newline [simp]: "no_lf (drop_newline s) = no_lf s"
  by (cases s) (auto simp: no_lf_def drop_newline_def)

lemma set_drop_newline: "set (drop_newline s) \<subseteq> set s"
  by (cases s) (auto simp: drop_newline_def)

text \<open>The lines, each with its carriage return, and the rest are the input without newlines.\<close>

lemma cr_split_concat:
  "no_lf (concat (map (\<lambda>l. l @ [CR]) (fst (cr_split s))) @ snd (cr_split s)) = no_lf s"
proof (induction s rule: cr_split.induct)
  case (1 s)
  show ?case
  proof (cases "c_index s CR")
    case None
    then show ?thesis by (simp add: cr_split_None)
  next
    case (Some i)
    then obtain a b where s: "s = a @ CR # b" "length a = i" by (rule c_index_split)
    with Some have d: "drop (Suc i) s = b" "take i s = a" by auto
    from 1 [OF Some] d have "no_lf (concat (map (\<lambda>l. l @ [CR]) (fst (cr_split (drop_newline b))))
        @ snd (cr_split (drop_newline b))) = no_lf (drop_newline b)"
      by simp
    then have "no_lf (concat (map (\<lambda>l. l @ [CR]) (fst (cr_split s))) @ snd (cr_split s))
        = no_lf (a @ [CR] @ b)"
      using Some d by (simp add: cr_split_Some)
    with s show ?thesis by simp
  qed
qed

lemma cr_split_chars:
  "l \<in> set (fst (cr_split s)) \<Longrightarrow> set l \<subseteq> set s" "set (snd (cr_split s)) \<subseteq> set s"
proof (induction s rule: cr_split.induct)
  case (1 s)
  {
    case 1
    then show ?case
      using "1.IH" set_drop_newline
      by (cases "c_index s CR")
        (fastforce simp: cr_split_None cr_split_Some dest: in_set_takeD in_set_dropD)+
  next
    case 2
    then show ?case
      using "1.IH" set_drop_newline
      by (cases "c_index s CR")
        (fastforce simp: cr_split_None cr_split_Some dest: in_set_takeD in_set_dropD)+
  }
qed

text \<open>A number up to 100 prints with three characters.\<close>

lemma length_dec_le: "n < 10 \<Longrightarrow> length (dec n) = 1" "n < 100 \<Longrightarrow> length (dec n) \<le> 2"
  "n < 1000 \<Longrightarrow> length (dec n) \<le> 3"
proof -
  show one: "length (dec n) = 1" if "n < 10" for n using that by (simp add: dec.simps)
  show two: "length (dec n) \<le> 2" if "n < 100" for n
    using that one [of "n div 10"] by (subst dec.simps) simp
  show "n < 1000 \<Longrightarrow> length (dec n) \<le> 3"
    using two [of "n div 10"] by (subst dec.simps) simp
qed

lemma length_pad0: "n \<le> 100 \<Longrightarrow> length (pad0 3 n) = 3"
  using length_dec_le(3) [of n] by (simp add: pad0_def)

text \<open>
  What the log holds: the text of every message, without its line number, ended by a carriage
  return, and the pending text; newlines aside.
\<close>

definition message_text :: "bool \<Rightarrow> int \<times> string \<Rightarrow> buffer" where
  "message_text u m = (if u then drop 5 (snd m) else snd m) @ [CR]"

definition syslog_view :: "bool \<Rightarrow> w2s \<Rightarrow> buffer" where
  "syslog_view u s = no_lf (concat (map (message_text u) (messages s)) @ pending s)"

lemma emits_text:
  "linecnt s \<le> 100 \<Longrightarrow> \<forall>l \<in> set ls. NUL \<notin> set l \<Longrightarrow>
    concat (map (message_text u) (messages (foldl (emit u prio) s ls)))
    = concat (map (message_text u) (messages s)) @ concat (map (\<lambda>l. l @ [CR]) ls)"
proof (induction ls arbitrary: s)
  case Nil
  then show ?case by simp
next
  case (Cons l ls)
  have "linecnt (emit u prio s l) \<le> 100" using Cons.prems(1) by (simp add: emit_def)
  moreover have "concat (map (message_text u) (messages (emit u prio s l)))
      = concat (map (message_text u) (messages s)) @ l @ [CR]"
    using Cons.prems by (simp add: emit_def message_text_def length_pad0)
  ultimately show ?case using Cons by simp
qed

definition sink_inv :: "w2s \<Rightarrow> bool" where
  "sink_inv s \<longleftrightarrow> w2s_inv s \<and> NUL \<notin> set (pending s)"

lemma w2s_spec_view:
  assumes "sink_inv s" "NUL \<notin> set chunk"
  shows "syslog_view u (w2s_spec u prio s chunk) = syslog_view u s @ no_lf chunk
    \<and> NUL \<notin> set (pending (w2s_spec u prio s chunk))"
proof (cases "chunk = []")
  case True
  with assms show ?thesis by (simp add: w2s_spec_def sink_inv_def)
next
  case False
  define buf where "buf = pending s @ (if rflag s then drop_newline chunk else chunk)"
  let ?ls = "fst (cr_split buf)"
  have nul: "NUL \<notin> set buf"
    using assms set_drop_newline [of chunk] by (auto simp: buf_def sink_inv_def)
  have "linecnt s \<le> 100" using assms by (simp add: sink_inv_def w2s_inv_def)
  moreover have "\<forall>l \<in> set ?ls. NUL \<notin> set l" using cr_split_chars(1) nul by blast
  moreover have "messages (w2s_spec u prio s chunk)
      = messages (foldl (emit u prio) (s\<lparr>rflag := ?ls \<noteq> []\<rparr>) ?ls)"
    using False by (simp add: w2s_spec_def buf_def Let_def split_beta)
  ultimately have "concat (map (message_text u) (messages (w2s_spec u prio s chunk)))
      = concat (map (message_text u) (messages s)) @ concat (map (\<lambda>l. l @ [CR]) ?ls)"
    by (simp add: emits_text)
  moreover have pend: "pending (w2s_spec u prio s chunk) = dropWhile (\<lambda>c. c = LF) (snd (cr_split buf))"
    using pending_w2s_spec [OF False] by (simp add: buf_def)
  ultimately have "syslog_view u (w2s_spec u prio s chunk)
      = no_lf (concat (map (message_text u) (messages s))) @ no_lf buf"
    using cr_split_concat [of buf] by (simp add: syslog_view_def)
  moreover have "NUL \<notin> set (pending (w2s_spec u prio s chunk))"
    using nul cr_split_chars(2) [of buf] pend by (auto dest!: set_dropWhileD)
  ultimately show ?thesis by (simp add: syslog_view_def buf_def)
qed

text \<open>A call with memory available, as a function of the state.\<close>

definition w2s_put :: "bool \<Rightarrow> int \<Rightarrow> w2s \<Rightarrow> buffer \<Rightarrow> w2s" where
  "w2s_put u prio s chunk =
     (case write2syslog (\<lambda>_. True) (Some chunk) u prio s of Inr s' \<Rightarrow> s' | Inl _ \<Rightarrow> s)"

lemma w2s_put_eq: "w2s_inv s \<Longrightarrow> w2s_put u prio s chunk = w2s_spec u prio s chunk"
  by (simp add: w2s_put_def write2syslog_refines)

interpretation syslog_sink: chunk_sink "w2s_put u prio" sink_inv "\<lambda>c. c \<noteq> NUL" "syslog_view u" no_lf
  for u prio
proof
  fix s and c :: buffer
  assume inv: "sink_inv s" and "list_all (\<lambda>c. c \<noteq> NUL) c"
  then have c: "NUL \<notin> set c" by (auto simp: list_all_iff)
  from inv have eq: "w2s_put u prio s c = w2s_spec u prio s c"
    by (simp add: sink_inv_def w2s_put_eq)
  from w2s_spec_view [OF inv c] w2s_spec_inv inv
  show "sink_inv (w2s_put u prio s c)" by (simp add: eq sink_inv_def)
  from w2s_spec_view [OF inv c]
  show "syslog_view u (w2s_put u prio s c) = syslog_view u s @ no_lf c" by (simp add: eq)
qed simp_all

section \<open>Line numbers\<close>

text \<open>From message number \<open>n\<close> on, the messages are numbered 0, 1, \<dots>, 100, 0, \<dots>\<close>

definition numbered :: "nat \<Rightarrow> w2s \<Rightarrow> bool" where
  "numbered n s \<longleftrightarrow> n \<le> length (messages s) \<and> linecnt s = (length (messages s) - n) mod 101
     \<and> (\<forall>i. n \<le> i \<and> i < length (messages s) \<longrightarrow>
          take 5 (snd (messages s ! i)) = pad0 3 ((i - n) mod 101) @ '': '')"

lemma Suc_mod_101: "(if k mod 101 = 100 then 0 else k mod 101 + 1) = Suc k mod (101::nat)"
  by (simp add: mod_Suc)

lemma emit_numbered:
  assumes "numbered n s"
  shows "numbered n (emit True prio s l)"
proof -
  let ?k = "length (messages s) - n"
  have "?k mod 101 \<le> 100" by simp
  then have "length (pad0 3 (?k mod 101)) = 3" by (rule length_pad0)
  moreover have "Suc (length (messages s)) - n = Suc ?k"
    using assms by (simp add: numbered_def Suc_diff_le)
  ultimately show ?thesis
    using assms Suc_mod_101 [of ?k]
    by (auto simp: numbered_def emit_def nth_append less_Suc_eq)
qed

lemma emits_numbered: "numbered n s \<Longrightarrow> numbered n (foldl (emit True prio) s ls)"
  by (induction ls arbitrary: s) (auto intro: emit_numbered)

lemma w2s_spec_numbered: "numbered n s \<Longrightarrow> numbered n (w2s_spec True prio s c)"
proof -
  assume n: "numbered n s"
  have cong: "numbered n (s\<lparr>rflag := b\<rparr>)" for b using n by (simp add: numbered_def)
  have "numbered n (t\<lparr>rptr := p, rptrLength := m\<rparr>) = numbered n t" for t p m
    by (simp add: numbered_def)
  with n emits_numbered [OF cong] show ?thesis
    by (simp add: w2s_spec_def Let_def split_beta)
qed

interpretation numbering: invariant_machine "w2s_put True prio" "\<lambda>s. w2s_inv s \<and> numbered n s" "\<lambda>_. True"
  for prio n
  by unfold_locales (auto simp: w2s_put_eq intro: w2s_spec_inv w2s_spec_numbered)

section \<open>Properties\<close>

text \<open>C14: When memory is available every call of \<open>write2syslog\<close>, on every chunk and from
  every state in which the invariant holds, returns and does exactly what the list
  specification says: it joins the pending text and the chunk, sends the text before each
  carriage return as a line, skips one newline after each, and keeps the rest without leading
  newlines.\<close>

theorem write2syslog_meets_spec:
  assumes "w2s_inv s"
  shows "write2syslog (\<lambda>_. True) (Some chunk) u prio s = Inr (w2s_spec u prio s chunk)"
  by (rule write2syslog_refines [OF assms])

theorem write2syslog_meets_spec_witness:
  "write2syslog (\<lambda>_. True) (Some [CHR ''i'', CHR ''d'', CR, LF, CHR ''#'']) False 173 init_w2s
    = Inr (w2s_spec False 173 init_w2s [CHR ''i'', CHR ''d'', CR, LF, CHR ''#''])
   \<and> w2s_spec False 173 init_w2s [CHR ''i'', CHR ''d'', CR, LF, CHR ''#'']
    = \<lparr>rptr = Some ''#'', rptrLength = 1, rflag = True, linecnt = 0, vtstate = Normal,
       messages = [(173, ''id'')]\<rparr>"
proof
  show "write2syslog (\<lambda>_. True) (Some [CHR ''i'', CHR ''d'', CR, LF, CHR ''#'']) False 173 init_w2s
    = Inr (w2s_spec False 173 init_w2s [CHR ''i'', CHR ''d'', CR, LF, CHR ''#''])"
    by (rule write2syslog_meets_spec [OF init_w2s_inv])
  have "fst (stripesc Normal (''id'' @ [NUL])) = Normal"
    by (simp add: stripesc_eq vt_char_Normal clean_char_def cstr_def)
  then show "w2s_spec False 173 init_w2s [CHR ''i'', CHR ''d'', CR, LF, CHR ''#'']
    = \<lparr>rptr = Some ''#'', rptrLength = 1, rflag = True, linecnt = 0, vtstate = Normal,
       messages = [(173, ''id'')]\<rparr>"
    by (simp add: w2s_spec_def init_w2s_def pending_def cr_split.simps drop_newline_def emit_def)
qed

text \<open>The invariant of the static variables is kept by every call: the recorded length is
  the length of the pending block, the pending text is a non-empty line fragment without
  carriage return or leading newline, and the line counter stays within 0 to 100.\<close>

theorem write2syslog_keeps_inv:
  assumes "w2s_inv s" "write2syslog (\<lambda>_. True) optr u prio s = Inr s'"
  shows "w2s_inv s'"
  using assms w2s_spec_inv
  by (cases optr) (auto simp: write2syslog_refines write2syslog_def [of _ None])

theorem write2syslog_keeps_inv_witness:
  "w2s_inv (w2s_spec True 173 init_w2s ''login: '')"
  by (rule write2syslog_keeps_inv [OF init_w2s_inv, of "Some ''login: ''" True 173])
    (rule write2syslog_refines [OF init_w2s_inv])

text \<open>C13: Nothing but newlines is lost on the way to syslog: for any sequence of chunks without
  \<open>NUL\<close> bytes, however the terminal cut them, the texts of the messages sent so far and the
  pending text are together the whole output, character for character and in order.\<close>

theorem syslog_gets_all_output:
  assumes "sink_inv s" "\<forall>c \<in> set chunks. NUL \<notin> set c"
  shows "syslog_view u (foldl (w2s_put u prio) s chunks) = syslog_view u s @ no_lf (concat chunks)"
  using assms by (intro syslog_sink.run_view) (auto simp: list_all_iff)

theorem syslog_gets_all_output_witness:
  "syslog_view True (foldl (w2s_put True 173) init_w2s
      [''ec'', ''ho hi'' @ [CR], [LF] @ ''hi'' @ [CR, LF], ''# ''])
    = ''echo hi'' @ [CR] @ ''hi'' @ [CR] @ ''# ''"
proof -
  have "sink_inv init_w2s"
    using init_w2s_inv by (simp add: sink_inv_def) (simp add: init_w2s_def pending_def)
  from syslog_gets_all_output [OF this, of
      "[''ec'', ''ho hi'' @ [CR], [LF] @ ''hi'' @ [CR, LF], ''# '']" True 173]
  show ?thesis by (simp add: syslog_view_def init_w2s_def pending_def no_lf_def)
qed

text \<open>With line numbering on, the lines sent in a session carry consecutive three-digit
  numbers 000, 001, \<dots>, 100 and then 000 again, so a missing line shows, whatever output is
  written in whatever chunks.\<close>

theorem lines_numbered_consecutively:
  assumes "w2s_inv s" "linecnt s = 0" "length (messages s) \<le> i"
    and "i < length (messages (foldl (w2s_put True prio) s chunks))"
  shows "take 5 (snd (messages (foldl (w2s_put True prio) s chunks) ! i))
    = pad0 3 ((i - length (messages s)) mod 101) @ '': ''"
proof -
  have "numbered (length (messages s)) s" using assms(2) by (auto simp: numbered_def)
  with assms numbering.run_inv [of s "length (messages s)" chunks prio]
  show ?thesis by (auto simp: numbered_def list_all_iff)
qed

theorem lines_numbered_consecutively_witness:
  "take 5 (snd (messages (foldl (w2s_put True 173) init_w2s [''a'' @ [CR], ''b'' @ [CR]]) ! 1))
    = pad0 3 ((1 - length (messages init_w2s)) mod 101) @ '': ''"
proof (rule lines_numbered_consecutively [OF init_w2s_inv])
  show "1 < length (messages (foldl (w2s_put True 173) init_w2s [''a'' @ [CR], ''b'' @ [CR]]))"
    unfolding foldl_Cons foldl_Nil w2s_put_eq [OF init_w2s_inv]
      w2s_put_eq [OF w2s_spec_inv [OF init_w2s_inv]]
    by (simp add: w2s_spec_def init_w2s_def pending_def cr_split.simps drop_newline_def emit_def)
qed (simp_all add: init_w2s_def)

text \<open>A newline can vanish that did not follow a carriage return: whenever the flag is set,
  which it is after any call that completed a line even if text follows the last carriage
  return, the first newline of the next call is dropped, in the middle of the pending line.\<close>

theorem newline_after_rest_dropped:
  assumes "rflag s" "chunk \<noteq> []"
  shows "write2syslog malloc_ok (Some (LF # chunk)) u prio s
    = write2syslog malloc_ok (Some chunk) u prio (s\<lparr>rflag := False\<rparr>)"
  using assms by (simp add: write2syslog_def)

theorem newline_after_rest_dropped_witness:
  "let s = w2s_put False 173 init_w2s (''x'' @ [CR] @ ''y'') in
     rflag s \<and> pending s = ''y''
     \<and> write2syslog (\<lambda>_. True) (Some (LF # ''z'')) False 173 s
       = write2syslog (\<lambda>_. True) (Some ''z'') False 173 (s\<lparr>rflag := False\<rparr>)"
proof -
  let ?s = "w2s_put False 173 init_w2s (''x'' @ [CR] @ ''y'')"
  have r: "rflag ?s" and p: "pending ?s = ''y''"
    unfolding w2s_put_eq [OF init_w2s_inv]
    by (simp_all add: w2s_spec_def init_w2s_def pending_def cr_split.simps drop_newline_def)
  from newline_after_rest_dropped [OF r, of "''z''" "\<lambda>_. True" False 173] r p show ?thesis
    by (simp add: Let_def)
qed

text \<open>A \<open>NUL\<close> byte hides the rest of its line from syslog: only what precedes it in the
  line is sent, and what follows it up to the carriage return appears in no message.\<close>

theorem nul_hides_rest_of_line:
  assumes "w2s_inv s" "pending s = []" "\<not> rflag s" "NUL \<notin> set a" "CR \<notin> set a" "CR \<notin> set b"
  shows "messages (w2s_put u prio s (a @ NUL # b @ [CR])) = messages s @
    [(prio, (if u then pad0 3 (linecnt s) @ '': '' else []) @ a)]"
proof -
  have "cr_split ((a @ NUL # b) @ CR # []) = ([a @ NUL # b], [])"
    using assms(5,6) c_index_append [of CR "a @ NUL # b" "[]"]
    by (simp add: cr_split_Some drop_newline_def cr_split_None)
  then show ?thesis
    using assms by (simp add: w2s_put_eq w2s_spec_def emit_def cstr_append_NUL)
qed

theorem nul_hides_rest_of_line_witness:
  "messages (w2s_put False 173 init_w2s (''ls'' @ NUL # ''; rm -r /'' @ [CR])) = [(173, ''ls'')]"
proof -
  have "messages (w2s_put False 173 init_w2s (''ls'' @ NUL # ''; rm -r /'' @ [CR]))
      = messages init_w2s @
        [(173, (if False then pad0 3 (linecnt init_w2s) @ '': '' else []) @ ''ls'')]"
    by (rule nul_hides_rest_of_line [OF init_w2s_inv]) (simp_all add: init_w2s_def pending_def)
  then show ?thesis by (simp add: init_w2s_def)
qed

text \<open>When the buffer cannot grow, the whole program stops with status 1 instead of the
  logging call failing: a pending line and a failing \<open>realloc\<close> end the session.\<close>

theorem realloc_failure_exits:
  assumes "rptr s = Some r" "chunk \<noteq> []" "\<forall>n. n \<ge> rptrLength s \<longrightarrow> \<not> malloc_ok n"
  shows "write2syslog malloc_ok (Some chunk) u prio s = Inl (Exited 1)"
  using assms by (simp add: write2syslog_def Let_def)

theorem realloc_failure_exits_witness:
  "write2syslog (\<lambda>n. n < 2) (Some ''b'') True 173
     (init_w2s\<lparr>rptr := Some ''aa'', rptrLength := 2\<rparr>) = Inl (Exited 1)"
  by (rule realloc_failure_exits) simp_all

end
