(* ===== verification/Posix_Files.thy ===== *)
theory Posix_Files
  imports Prelude
begin

text \<open>
  The part of the operating system the log files live in: path names that refer to inodes,
  inodes that hold a file or a directory, and open file descriptors that keep referring to
  their inode whatever happens to its name. The operations are the system calls rootsh makes;
  a failing call returns an error number, and which opens and writes fail for reasons outside
  the model (permissions, a full disk) is part of the state. The steps another process can
  take on the same files are \<open>user_step\<close>.
\<close>

section \<open>State\<close>

text \<open>An inode is identified by its device and its number, as \<open>st_dev\<close> and \<open>st_ino\<close>.\<close>

type_synonym ino = "nat \<times> nat"

datatype node = File buffer | Dir bool  \<comment> \<open>the flag: the directory is empty\<close>

datatype errno = EEXIST | EISDIR | EOTHER nat

record fdesc =
  fd_ino :: ino
  fd_off :: nat
  fd_append :: bool

record fs =
  names :: "string \<Rightarrow> ino option"
  nodes :: "ino \<Rightarrow> node option"
  next_ino :: nat
  fds :: "nat \<Rightarrow> fdesc option"
  next_fd :: nat
  device_of :: "string \<Rightarrow> nat"
  open_error :: "string \<Rightarrow> errno option"
  write_room :: "ino \<Rightarrow> nat option"

section \<open>System calls\<close>

definition new_fd :: "ino \<Rightarrow> bool \<Rightarrow> fs \<Rightarrow> (errno + nat) \<times> fs" where
  "new_fd i app f =
     (Inr (next_fd f),
      f\<lparr>fds := (fds f)(next_fd f \<mapsto> \<lparr>fd_ino = i, fd_off = 0, fd_append = app\<rparr>),
        next_fd := Suc (next_fd f)\<rparr>)"

text \<open>\<open>open (path, O_RDWR | O_CREAT)\<close>, with \<open>O_APPEND\<close> or not.\<close>

definition sys_open :: "string \<Rightarrow> bool \<Rightarrow> fs \<Rightarrow> (errno + nat) \<times> fs" where
  "sys_open path app f =
     (case open_error f path of
        Some e \<Rightarrow> (Inl e, f)
      | None \<Rightarrow>
          (case names f path of
             Some i \<Rightarrow>
               (case nodes f i of
                  Some (File c) \<Rightarrow> new_fd i app f
                | Some (Dir b) \<Rightarrow> (Inl EISDIR, f)
                | None \<Rightarrow> (Inl (EOTHER 5), f))
           | None \<Rightarrow>
               let i = (device_of f path, next_ino f) in
               new_fd i app (f\<lparr>names := (names f)(path \<mapsto> i),
                 nodes := (nodes f)(i \<mapsto> File []), next_ino := Suc (next_ino f)\<rparr>)))"

text \<open>What a device takes of the bytes it is given at once.\<close>

definition taken :: "nat option \<Rightarrow> buffer \<Rightarrow> buffer" where
  "taken room data = (case room of None \<Rightarrow> data | Some k \<Rightarrow> take k data)"

lemma taken_simps [simp]:
  "taken None data = data" "taken (Some k) data = take k data" "taken room [] = []"
  by (simp_all add: taken_def split: option.splits)

lemma length_taken: "length (taken room data) \<le> length data"
  by (cases room) simp_all

text \<open>\<open>write\<close>: the number of bytes written, which may be fewer than were given, or \<open>-1\<close>.\<close>

definition sys_write :: "nat \<Rightarrow> buffer \<Rightarrow> fs \<Rightarrow> int \<times> fs" where
  "sys_write fd data f =
     (case fds f fd of
        None \<Rightarrow> (-1, f)
      | Some d \<Rightarrow>
          if write_room f (fd_ino d) = Some 0 then (-1, f)
          else
            (case nodes f (fd_ino d) of
               Some (File c) \<Rightarrow>
                 let data = taken (write_room f (fd_ino d)) data;
                     off = (if fd_append d then length c else fd_off d);
                     c' = take off c @ replicate (off - length c) NUL @ data
                            @ drop (off + length data) c in
                 (int (length data),
                  f\<lparr>nodes := (nodes f)(fd_ino d \<mapsto> File c'),
                    fds := (fds f)(fd \<mapsto> d\<lparr>fd_off := off + length data\<rparr>)\<rparr>)
             | _ \<Rightarrow> (-1, f)))"

text \<open>\<open>read\<close>: the bytes read, none at the end of the file or on an error.\<close>

definition sys_read :: "nat \<Rightarrow> nat \<Rightarrow> fs \<Rightarrow> buffer \<times> fs" where
  "sys_read fd n f =
     (case fds f fd of
        None \<Rightarrow> ([], f)
      | Some d \<Rightarrow>
          (case nodes f (fd_ino d) of
             Some (File c) \<Rightarrow>
               let b = take n (drop (fd_off d) c) in
               (b, f\<lparr>fds := (fds f)(fd \<mapsto> d\<lparr>fd_off := fd_off d + length b\<rparr>)\<rparr>)
           | _ \<Rightarrow> ([], f)))"

definition sys_rewind :: "nat \<Rightarrow> fs \<Rightarrow> fs" where
  "sys_rewind fd f =
     (case fds f fd of None \<Rightarrow> f
      | Some d \<Rightarrow> f\<lparr>fds := (fds f)(fd \<mapsto> d\<lparr>fd_off := 0\<rparr>)\<rparr>)"

definition sys_close :: "nat \<Rightarrow> fs \<Rightarrow> fs" where
  "sys_close fd f = f\<lparr>fds := (fds f)(fd := None)\<rparr>"

definition sys_stat :: "string \<Rightarrow> fs \<Rightarrow> ino option" where
  "sys_stat path f = names f path"

definition sys_fstat :: "nat \<Rightarrow> fs \<Rightarrow> ino option" where
  "sys_fstat fd f = map_option fd_ino (fds f fd)"

definition sys_unlink :: "string \<Rightarrow> fs \<Rightarrow> bool \<times> fs" where
  "sys_unlink path f =
     (case names f path of
        None \<Rightarrow> (False, f)
      | Some i \<Rightarrow>
          (case nodes f i of
             Some (Dir b) \<Rightarrow> (False, f)
           | _ \<Rightarrow> (True, f\<lparr>names := (names f)(path := None)\<rparr>)))"

definition sys_rmdir :: "string \<Rightarrow> fs \<Rightarrow> bool \<times> fs" where
  "sys_rmdir path f =
     (case names f path of
        None \<Rightarrow> (False, f)
      | Some i \<Rightarrow>
          (case nodes f i of
             Some (Dir True) \<Rightarrow> (True, f\<lparr>names := (names f)(path := None)\<rparr>)
           | _ \<Rightarrow> (False, f)))"

text \<open>\<open>rename\<close> replaces a file of the new name, but not a directory.\<close>

definition sys_rename :: "string \<Rightarrow> string \<Rightarrow> fs \<Rightarrow> bool \<times> fs" where
  "sys_rename old new f =
     (case names f old of
        None \<Rightarrow> (False, f)
      | Some i \<Rightarrow>
          if old = new \<or> names f new = Some i then (True, f)
          else
            (case Option.bind (names f new) (nodes f) of
               Some (Dir b) \<Rightarrow> (False, f)
             | _ \<Rightarrow> (True, f\<lparr>names := (names f)(old := None, new \<mapsto> i)\<rparr>)))"

section \<open>Other processes\<close>

text \<open>
  What a user can do to the log directory while rootsh holds its file open: remove, rename and
  link names, make new files and directories under free names, and write into an existing file
  through one of its names.
\<close>

datatype user_act =
    U_unlink string | U_rmdir string | U_rename string string | U_link string string
  | U_create string buffer | U_mkdir string bool | U_overwrite string buffer

fun user_step :: "fs \<Rightarrow> user_act \<Rightarrow> fs" where
  "user_step f (U_unlink p) = snd (sys_unlink p f)"
| "user_step f (U_rmdir p) = snd (sys_rmdir p f)"
| "user_step f (U_rename p q) = snd (sys_rename p q f)"
| "user_step f (U_link p q) =
     (case (names f p, names f q) of
        (Some i, None) \<Rightarrow> f\<lparr>names := (names f)(q \<mapsto> i)\<rparr> | _ \<Rightarrow> f)"
| "user_step f (U_create p c) =
     (if names f p = None then
        let i = (device_of f p, next_ino f) in
        f\<lparr>names := (names f)(p \<mapsto> i), nodes := (nodes f)(i \<mapsto> File c),
          next_ino := Suc (next_ino f)\<rparr>
      else f)"
| "user_step f (U_mkdir p b) =
     (if names f p = None then
        let i = (device_of f p, next_ino f) in
        f\<lparr>names := (names f)(p \<mapsto> i), nodes := (nodes f)(i \<mapsto> Dir b),
          next_ino := Suc (next_ino f)\<rparr>
      else f)"
| "user_step f (U_overwrite p c) =
     (case names f p of
        Some i \<Rightarrow> (case nodes f i of Some (File _) \<Rightarrow> f\<lparr>nodes := (nodes f)(i \<mapsto> File c)\<rparr> | _ \<Rightarrow> f)
      | None \<Rightarrow> f)"

text \<open>The actions that leave the contents of existing files alone.\<close>

fun names_only :: "user_act \<Rightarrow> bool" where
  "names_only (U_overwrite p c) = False"
| "names_only _ = True"

section \<open>Invariants\<close>

text \<open>Inode numbers in use are below the next one, and names refer to existing inodes.\<close>

definition fs_inv :: "fs \<Rightarrow> bool" where
  "fs_inv f \<longleftrightarrow> (\<forall>i n. nodes f i = Some n \<longrightarrow> snd i < next_ino f)
     \<and> (\<forall>p i. names f p = Some i \<longrightarrow> nodes f i \<noteq> None)
     \<and> (\<forall>n. next_fd f \<le> n \<longrightarrow> fds f n = None)"

text \<open>The descriptor is open on the inode, for appending, and the inode holds \<open>c\<close>.\<close>

definition log_open :: "nat \<Rightarrow> ino \<Rightarrow> buffer \<Rightarrow> fs \<Rightarrow> bool" where
  "log_open fd i c f \<longleftrightarrow> nodes f i = Some (File c) \<and> write_room f i = None
     \<and> (\<exists>d. fds f fd = Some d \<and> fd_ino d = i \<and> fd_append d)"

lemma fresh_ino: "fs_inv f \<Longrightarrow> nodes f (d, next_ino f) = None"
  by (metis fs_inv_def less_irrefl not_Some_eq snd_conv)

lemma fs_invD:
  "fs_inv f \<Longrightarrow> nodes f i = Some n \<Longrightarrow> snd i < next_ino f"
  "fs_inv f \<Longrightarrow> names f p = Some i \<Longrightarrow> nodes f i \<noteq> None"
  "fs_inv f \<Longrightarrow> next_fd f \<le> k \<Longrightarrow> fds f k = None"
  unfolding fs_inv_def by blast+

lemmas sys_defs = sys_unlink_def sys_rmdir_def sys_rename_def sys_close_def sys_rewind_def
  sys_stat_def sys_fstat_def

lemma fs_inv_names:
  assumes "fs_inv f" "\<And>p i. m p = Some i \<Longrightarrow> nodes f i \<noteq> None"
  shows "fs_inv (f\<lparr>names := m\<rparr>)"
  using assms unfolding fs_inv_def by simp

lemma fs_inv_new:
  assumes "fs_inv f"
  shows "fs_inv (f\<lparr>names := (names f)(p \<mapsto> (d, next_ino f)),
    nodes := (nodes f)((d, next_ino f) \<mapsto> n), next_ino := Suc (next_ino f)\<rparr>)"
  using assms unfolding fs_inv_def by (simp add: less_Suc_eq)

lemma fs_inv_rewrite:
  assumes "fs_inv f" "nodes f i \<noteq> None"
  shows "fs_inv (f\<lparr>nodes := (nodes f)(i \<mapsto> n)\<rparr>)"
  using assms unfolding fs_inv_def by auto

lemma user_step_fs_inv: "fs_inv f \<Longrightarrow> fs_inv (user_step f a)"
  by (cases a)
    (auto simp: sys_defs Let_def dest: fs_invD(2) intro!: fs_inv_names fs_inv_new fs_inv_rewrite
      split: option.splits node.splits bool.splits if_splits)

text \<open>Whatever the user does to names, the open log keeps its inode and its contents.\<close>

lemma user_step_log_open:
  "fs_inv f \<Longrightarrow> log_open fd i c f \<Longrightarrow> names_only a \<Longrightarrow> log_open fd i c (user_step f a)"
  by (cases a)
    (auto simp: log_open_def sys_defs Let_def fresh_ino
      split: option.splits node.splits if_splits bool.splits)

interpretation user_acts: invariant_machine user_step
  "\<lambda>f. fs_inv f \<and> log_open fd i c f" names_only for fd i c
  by unfold_locales (simp add: user_step_fs_inv user_step_log_open)

lemma user_step_frame:
  "fds (user_step f a) = fds f" "open_error (user_step f a) = open_error f"
  "write_room (user_step f a) = write_room f" "next_fd (user_step f a) = next_fd f"
  by (cases a; auto simp: sys_defs Let_def split: option.splits node.splits bool.splits)+

section \<open>Opening\<close>

lemma new_fd_inv:
  assumes "fs_inv f" "new_fd i app f = (r, f')"
  shows "fs_inv f'" "log_open fd j c f \<Longrightarrow> log_open fd j c f'"
    "r = Inr (next_fd f)" "fds f' (next_fd f) = Some \<lparr>fd_ino = i, fd_off = 0, fd_append = app\<rparr>"
    "names f' = names f" "nodes f' = nodes f" "write_room f' = write_room f"
    "open_error f' = open_error f"
proof -
  from assms(2) have f': "f' = f\<lparr>fds := (fds f)(next_fd f \<mapsto> \<lparr>fd_ino = i, fd_off = 0, fd_append = app\<rparr>),
      next_fd := Suc (next_fd f)\<rparr>"
    by (simp add: new_fd_def)
  show "fs_inv f'" using assms(1) unfolding f' fs_inv_def by simp
  show "log_open fd j c f \<Longrightarrow> log_open fd j c f'"
    using fs_invD(3) [OF assms(1), of "next_fd f"] by (auto simp: f' log_open_def)
  show "r = Inr (next_fd f)" using assms(2) by (simp add: new_fd_def)
qed (use assms(2) in \<open>auto simp: new_fd_def\<close>)

lemma log_open_new:
  "log_open fd j c f \<Longrightarrow> nodes f i = None \<Longrightarrow>
    log_open fd j c (f\<lparr>names := m, nodes := (nodes f)(i \<mapsto> n), next_ino := k\<rparr>)"
  by (auto simp: log_open_def)

text \<open>Opening succeeds unless the name is a directory or the host refuses.\<close>

lemma sys_open_ok:
  assumes "fs_inv f" "open_error f path = None"
    and "\<And>i b. names f path = Some i \<Longrightarrow> nodes f i \<noteq> Some (Dir b)"
  shows "\<exists>f' j old. sys_open path app f = (Inr (next_fd f), f') \<and> fs_inv f'
    \<and> fds f' (next_fd f) = Some \<lparr>fd_ino = j, fd_off = 0, fd_append = app\<rparr>
    \<and> names f' path = Some j \<and> (names f path \<noteq> None \<longrightarrow> names f path = Some j)
    \<and> nodes f' j = Some (File old)
    \<and> old = (case names f path of None \<Rightarrow> [] | Some i \<Rightarrow>
        (case nodes f i of Some (File d) \<Rightarrow> d | _ \<Rightarrow> []))
    \<and> (\<forall>q. q \<noteq> path \<longrightarrow> names f' q = names f q) \<and> write_room f' = write_room f
    \<and> open_error f' = open_error f
    \<and> (\<forall>fd i c. log_open fd i c f \<longrightarrow> log_open fd i c f')"
proof (cases "names f path")
  case None
  define i where "i = (device_of f path, next_ino f)"
  define f1 where "f1 = f\<lparr>names := (names f)(path \<mapsto> i), nodes := (nodes f)(i \<mapsto> File []),
    next_ino := Suc (next_ino f)\<rparr>"
  from assms(1) have "fs_inv f1" unfolding f1_def i_def by (rule fs_inv_new)
  moreover obtain r f' where new: "new_fd i app f1 = (r, f')" by (cases "new_fd i app f1")
  ultimately have f': "fs_inv f'" "\<And>fd j c. log_open fd j c f1 \<Longrightarrow> log_open fd j c f'"
    "r = Inr (next_fd f)" "fds f' (next_fd f) = Some \<lparr>fd_ino = i, fd_off = 0, fd_append = app\<rparr>"
    "names f' = names f1" "nodes f' = nodes f1" "write_room f' = write_room f"
    "open_error f' = open_error f"
    using new_fd_inv [of f1 i app r f'] by (simp_all add: f1_def)
  moreover have "log_open fd j c f1" if "log_open fd j c f" for fd j c
    using log_open_new [OF that fresh_ino [OF assms(1)]] by (simp add: f1_def i_def)
  moreover have "sys_open path app f = (Inr (next_fd f), f')"
    using None assms(2) new f'(3) by (simp add: sys_open_def i_def f1_def Let_def)
  ultimately show ?thesis using None by (intro exI [of _ f']) (auto simp: f1_def)
next
  case (Some i)
  with fs_invD(2) [OF assms(1)] assms(3) obtain old where old: "nodes f i = Some (File old)"
    by (metis node.exhaust not_None_eq)
  obtain r f' where new: "new_fd i app f = (r, f')" by (cases "new_fd i app f")
  note f' = new_fd_inv [OF assms(1) new]
  moreover have "sys_open path app f = (Inr (next_fd f), f')"
    using Some old assms(2) new f'(3) by (simp add: sys_open_def)
  ultimately show ?thesis using Some old by (intro exI [of _ f']) auto
qed

lemma sys_open_dir:
  assumes "open_error f path = None" "names f path = Some i" "nodes f i = Some (Dir b)"
  shows "sys_open path app f = (Inl EISDIR, f)"
  using assms by (simp add: sys_open_def)

end
