(* ===== verification/User_Shells.thy ===== *)
theory User_Shells
  imports Prelude
begin

text \<open>
  The list of login shells, \<open>getusershell\<close>, \<open>setusershell\<close>, \<open>endusershell\<close> and
  \<open>readname\<close> of \<^verbatim>\<open>getusershell.c\<close>, which the program brings for hosts without them. The
  static variables are the record \<^verbatim>\<open>shells\<close>; an open stream is what is left to read of it.
\<close>

section \<open>The code\<close>

definition ISSPACE :: "char \<Rightarrow> bool" where
  "ISSPACE c \<longleftrightarrow> c \<in> {CHR '' '', CHR 0x09, CHR 0x0A, CHR 0x0B, CHR 0x0C, CHR 0x0D}"

definition default_shells :: "string list" where
  "default_shells = [''/bin/sh'', ''/bin/csh'', ''/usr/bin/sh'', ''/usr/bin/csh'']"

record shells =
  default_index :: nat
  shellstream :: "string option"
  line_size :: nat

text \<open>The loop that doubles the buffer; its size is at least ten when it is entered.\<close>

function grow_line :: "nat \<Rightarrow> nat \<Rightarrow> nat" where
  "grow_line name_index sz =
     (if 0 < sz \<and> name_index \<ge> sz then grow_line name_index (sz * 2) else sz)"
  by pat_completeness auto
termination
  by (relation "measure (\<lambda>(name_index, sz). name_index + 1 - sz)") auto

declare grow_line.simps [simp del]

fun skip_blanks :: "string \<Rightarrow> string" where
  "skip_blanks [] = []"
| "skip_blanks (c # f) = (if ISSPACE c then skip_blanks f else c # f)"

text \<open>The name read so far, the size of its buffer and what is left of the stream.\<close>

fun read_word :: "string \<Rightarrow> nat \<Rightarrow> string \<Rightarrow> string \<times> nat \<times> string" where
  "read_word name sz [] = (name, sz, [])"
| "read_word name sz (c # f) =
     (if \<not> ISSPACE c then read_word (name @ [c]) (grow_line (length name + 1) sz) f
      else (name, sz, f))"

definition readname :: "nat \<Rightarrow> string \<Rightarrow> string \<times> nat \<times> string" where
  "readname sz f = read_word [] (if sz = 0 then 10 else sz) (skip_blanks f)"

lemma read_word_length: "read_word name sz f = (w, sz', f') \<Longrightarrow> length f' \<le> length f
    \<and> (w = name \<or> length f' < length f)"
  by (induction name sz f rule: read_word.induct) (auto split: if_splits)

lemma length_skip_blanks: "length (skip_blanks f) \<le> length f"
  by (induction f) auto

lemma readname_length:
  "readname sz f = (w, sz', f') \<Longrightarrow> w \<noteq> [] \<Longrightarrow> length f' < length f"
  using read_word_length length_skip_blanks [of f] by (fastforce simp: readname_def)

function next_shell :: "nat \<Rightarrow> string \<Rightarrow> string option \<times> nat \<times> string" where
  "next_shell sz f =
     (case readname sz f of (name, sz', f') \<Rightarrow>
        if name = [] then (None, sz', f')
        else if hd name \<noteq> CHR ''#'' then (Some (cstr name), sz', f')
        else next_shell sz' f')"
  by pat_completeness auto
termination
  by (relation "measure (\<lambda>(sz, f). length f)") (auto dest: readname_length [OF sym])

declare next_shell.simps [simp del]

definition init_shells :: shells where
  "init_shells = \<lparr>default_index = 0, shellstream = None, line_size = 0\<rparr>"

text \<open>The argument is the shells file, \<^term>\<open>None\<close> when it cannot be opened.\<close>

definition getusershell :: "string option \<Rightarrow> shells \<Rightarrow> string option \<times> shells" where
  "getusershell src st =
     (if default_index st > 0 then
        (if default_index st < length default_shells then
           (Some (default_shells ! default_index st), st\<lparr>default_index := default_index st + 1\<rparr>)
         else (None, st))
      else
        (case (case shellstream st of None \<Rightarrow> src | Some f \<Rightarrow> Some f) of
           None \<Rightarrow> (Some (default_shells ! 0), st\<lparr>default_index := 1\<rparr>)
         | Some f \<Rightarrow>
             (case next_shell (line_size st) f of
                (r, sz, f') \<Rightarrow> (r, st\<lparr>shellstream := Some f', line_size := sz\<rparr>))))"

definition setusershell :: "string option \<Rightarrow> shells \<Rightarrow> shells" where
  "setusershell src st =
     (let st = st\<lparr>default_index := 0\<rparr> in
      if shellstream st \<noteq> None then st\<lparr>shellstream := src\<rparr> else st)"

definition endusershell :: "shells \<Rightarrow> shells" where
  "endusershell st = (if shellstream st \<noteq> None then st\<lparr>shellstream := None\<rparr> else st)"

text \<open>How many more names the list can give.\<close>

definition shells_left :: "string option \<Rightarrow> shells \<Rightarrow> nat" where
  "shells_left src st =
     (if default_index st > 0 then length default_shells - default_index st
      else (case shellstream st of
              Some f \<Rightarrow> length f
            | None \<Rightarrow> (case src of Some f \<Rightarrow> length f | None \<Rightarrow> length default_shells)))"

lemma next_shell_length: "next_shell sz f = (Some w, sz', f') \<Longrightarrow> length f' < length f"
proof (induction sz f rule: next_shell.induct)
  case (1 sz f)
  obtain n s g where r: "readname sz f = (n, s, g)" by (cases "readname sz f")
  show ?case
  proof (cases "n = []")
    case True
    with 1(2) r show ?thesis by (simp add: next_shell.simps)
  next
    case False
    from readname_length [OF r False] have "length g < length f" .
    with 1(1) [OF r [symmetric] refl False] 1(2) r False show ?thesis
      by (fastforce simp: next_shell.simps [of sz f] split: if_splits)
  qed
qed

lemma getusershell_left:
  "getusershell src st = (Some w, st') \<Longrightarrow> shells_left src st' < shells_left src st"
  by (auto simp: getusershell_def shells_left_def default_shells_def
      split: if_splits option.splits prod.splits dest: next_shell_length)

text \<open>
  The loop of \<open>setupshell\<close> in \<^verbatim>\<open>rootsh.c\<close>:
  \<open>for (setusershell (), v = getusershell (); v && ! isvalid; v = getusershell ())\<close>.
\<close>

function shell_loop :: "string option \<Rightarrow> string \<Rightarrow> string option \<Rightarrow> bool \<Rightarrow> shells \<Rightarrow> bool \<times> shells" where
  "shell_loop src shell v isvalid st =
     (case v of
        None \<Rightarrow> (isvalid, st)
      | Some validshell \<Rightarrow>
          if isvalid then (isvalid, st)
          else
            (case getusershell src st of
               (v', st') \<Rightarrow> shell_loop src shell v' (validshell = shell) st'))"
  by pat_completeness auto
termination
  by (relation "measure (\<lambda>(src, shell, v, isvalid, st).
      case v of None \<Rightarrow> 0 | Some _ \<Rightarrow> Suc (shells_left src st))")
    (auto split: option.split dest: getusershell_left [OF sym])

declare shell_loop.simps [simp del]

definition shell_is_valid :: "string option \<Rightarrow> string \<Rightarrow> shells \<Rightarrow> bool \<times> shells" where
  "shell_is_valid src shell st =
     (case getusershell src (setusershell src st) of
        (v, st) \<Rightarrow> (case shell_loop src shell v False st of (b, st) \<Rightarrow> (b, endusershell st)))"

section \<open>The specification: the words of the file\<close>

fun words_from :: "string \<Rightarrow> string \<Rightarrow> string list" where
  "words_from w [] = (if w = [] then [] else [w])"
| "words_from w (c # f) =
     (if ISSPACE c then (if w = [] then words_from [] f else w # words_from [] f)
      else words_from (w @ [c]) f)"

definition listed_shells :: "string option \<Rightarrow> string list" where
  "listed_shells src = (case src of None \<Rightarrow> default_shells
     | Some f \<Rightarrow> map cstr (filter (\<lambda>w. hd w \<noteq> CHR ''#'') (words_from [] f)))"

lemma words_skip_blanks: "words_from [] (skip_blanks f) = words_from [] f"
  by (induction f) auto

lemma read_word_words:
  "w \<noteq> [] \<Longrightarrow> read_word w sz f = (w', sz', f') \<Longrightarrow>
    w' \<noteq> [] \<and> words_from w f = w' # words_from [] f'"
proof (induction w sz f rule: read_word.induct)
  case (1 name sz)
  then show ?case by simp
next
  case (2 name sz c f)
  then show ?case by (cases "ISSPACE c") auto
qed

lemma readname_words:
  assumes "readname sz f = (w, sz', f')"
  shows "words_from [] f = (if w = [] then [] else w # words_from [] f')"
proof (cases "skip_blanks f")
  case Nil
  with assms words_skip_blanks [of f] show ?thesis by (simp add: readname_def)
next
  case (Cons c g)
  then have "\<not> ISSPACE c" by (induction f) (auto split: if_splits)
  with assms Cons words_skip_blanks [of f] read_word_words [of "[c]" _ g w sz' f']
  show ?thesis by (auto simp: readname_def)
qed

lemma next_shell_words:
  "next_shell sz f = (r, sz', f') \<Longrightarrow>
    map cstr (filter (\<lambda>w. hd w \<noteq> CHR ''#'') (words_from [] f))
    = (case r of None \<Rightarrow> [] | Some w \<Rightarrow>
        w # map cstr (filter (\<lambda>w. hd w \<noteq> CHR ''#'') (words_from [] f')))"
proof (induction sz f rule: next_shell.induct)
  case (1 sz f)
  obtain n s g where r: "readname sz f = (n, s, g)" by (cases "readname sz f")
  show ?case
  proof (cases "n = []")
    case True
    with 1(2) r readname_words [OF r] show ?thesis by (auto simp: next_shell.simps)
  next
    case False
    with 1(1) [OF r [symmetric] refl False] 1(2) r readname_words [OF r] show ?thesis
      by (cases "hd n = CHR ''#''") (auto simp: next_shell.simps [of sz f])
  qed
qed

text \<open>What \<open>getusershell\<close> has still to give.\<close>

definition rest_shells :: "string option \<Rightarrow> shells \<Rightarrow> string list" where
  "rest_shells src st =
     (if default_index st > 0 then drop (default_index st) default_shells
      else (case shellstream st of None \<Rightarrow> listed_shells src | Some f \<Rightarrow> listed_shells (Some f)))"

lemma getusershell_rest:
  assumes "getusershell src st = (r, st')"
  shows "rest_shells src st = (case r of None \<Rightarrow> [] | Some w \<Rightarrow> w # rest_shells src st')"
proof (cases "default_index st > 0")
  case True
  with assms show ?thesis
    by (auto simp: getusershell_def rest_shells_def Cons_nth_drop_Suc split: if_splits)
next
  case idx: False
  show ?thesis
  proof (cases "case shellstream st of None \<Rightarrow> src | Some f \<Rightarrow> Some f")
    case None
    with idx assms show ?thesis
      by (auto simp: getusershell_def rest_shells_def listed_shells_def default_shells_def
          split: option.splits)
  next
    case (Some f)
    obtain w sz f' where n: "next_shell (line_size st) f = (w, sz, f')"
      by (cases "next_shell (line_size st) f")
    with idx assms Some next_shell_words [OF n] show ?thesis
      by (auto simp: getusershell_def rest_shells_def listed_shells_def split: option.splits)
  qed
qed

lemma shell_loop_eq:
  "fst (shell_loop src shell v b st) \<longleftrightarrow> b \<or>
    (case v of None \<Rightarrow> False | Some w \<Rightarrow> shell \<in> set (w # rest_shells src st))"
proof (induction src shell v b st rule: shell_loop.induct)
  case (1 src shell v b st)
  show ?case
  proof (cases v)
    case None
    then show ?thesis by (simp add: shell_loop.simps)
  next
    case (Some w)
    obtain v' st' where g: "getusershell src st = (v', st')" by (cases "getusershell src st")
    show ?thesis
    proof (cases b)
      case True
      with Some show ?thesis by (simp add: shell_loop.simps)
    next
      case False
      have "shell_loop src shell v b st = shell_loop src shell v' (w = shell) st'"
        using Some False g by (subst shell_loop.simps) simp
      with 1 [OF Some False g [symmetric]] Some False getusershell_rest [OF g] show ?thesis
        by (auto split: option.splits)
    qed
  qed
qed

text \<open>The buffer always has room for the next character and the terminator.\<close>

lemma grow_line_fits: "0 < sz \<Longrightarrow> n < grow_line n sz \<and> 0 < grow_line n sz"
proof (induction n sz rule: grow_line.induct)
  case (1 n sz)
  then show ?case by (subst (1 2) grow_line.simps) auto
qed

lemma read_word_fits:
  "length name < sz \<Longrightarrow> read_word name sz f = (w, sz', f') \<Longrightarrow> length w < sz'"
proof (induction name sz f rule: read_word.induct)
  case (2 name sz c f)
  then show ?case
    using grow_line_fits [of sz "length name + 1"] by (auto split: if_splits)
qed simp

lemma shell_valid_listed:
  assumes "src \<noteq> None \<or> shellstream st = None"
  shows "fst (shell_is_valid src shell st) \<longleftrightarrow> shell \<in> set (listed_shells src)"
proof -
  let ?st = "setusershell src st"
  obtain v st' where g: "getusershell src ?st = (v, st')" by (cases "getusershell src ?st")
  have "rest_shells src ?st = listed_shells src"
    using assms by (auto simp: rest_shells_def setusershell_def Let_def)
  with getusershell_rest [OF g] shell_loop_eq [of src shell v False st'] g show ?thesis
    by (auto simp: shell_is_valid_def split: option.splits prod.splits)
qed

section \<open>Properties\<close>

text \<open>C27: A shell is accepted exactly if it is a word of the shells file that does not start with
  \<open>#\<close>, or one of the default shells when there is no such file; the whole file is searched,
  whatever calls went before.\<close>

theorem shell_is_valid_iff:
  assumes "src \<noteq> None \<or> shellstream st = None"
  shows "fst (shell_is_valid src shell st) \<longleftrightarrow> shell \<in> set (listed_shells src)"
  by (rule shell_valid_listed [OF assms])

theorem shell_is_valid_iff_witness:
  "fst (shell_is_valid (Some (''/bin/sh'' @ [LF] @ ''/bin/bash'' @ [LF])) ''/bin/bash'' init_shells)"
  by (subst shell_is_valid_iff) (simp_all add: listed_shells_def ISSPACE_def init_shells_def)

text \<open>Words inside a comment are taken for shells: a line of the shells file that starts with
  \<open># \<close> does not hide the path that follows in it.\<close>

theorem commented_shell_accepted:
  assumes "shell \<noteq> []" "hd shell \<noteq> CHR ''#''" "list_all (\<lambda>c. \<not> ISSPACE c \<and> c \<noteq> NUL) shell"
  shows "fst (shell_is_valid (Some (''# '' @ shell @ [LF])) shell init_shells)"
proof -
  have "words_from w (shell @ [LF]) = [w @ shell]" if "w \<noteq> [] \<or> shell \<noteq> []"
    "list_all (\<lambda>c. \<not> ISSPACE c \<and> c \<noteq> NUL) shell" for w shell
    using that by (induction shell arbitrary: w) (auto simp: ISSPACE_def)
  moreover have "NUL \<notin> set shell" using assms(3) by (auto simp: list_all_iff)
  ultimately have "shell \<in> set (listed_shells (Some (''# '' @ shell @ [LF])))"
    using assms by (simp add: listed_shells_def ISSPACE_def)
  then show ?thesis
    by (simp add: shell_valid_listed)
qed

theorem commented_shell_accepted_witness:
  "fst (shell_is_valid (Some (''# /bin/old'' @ [LF])) ''/bin/old'' init_shells)"
  using commented_shell_accepted [of "''/bin/old''"] by (simp add: ISSPACE_def)

text \<open>The buffer of \<open>readname\<close> has room for the name and its terminator, however long the
  name is.\<close>

theorem readname_fits:
  assumes "readname sz f = (w, sz', f')"
  shows "length w < sz'"
  using assms read_word_fits [of "[]" "if sz = 0 then 10 else sz" "skip_blanks f"]
  by (simp add: readname_def split: if_splits)

theorem readname_fits_witness:
  "\<exists>sz f. readname 0 (''/usr/local/bin/zsh'' @ [LF]) = (''/usr/local/bin/zsh'', sz, f)
    \<and> length ''/usr/local/bin/zsh'' < sz"
proof -
  obtain w sz f where r: "readname 0 (''/usr/local/bin/zsh'' @ [LF]) = (w, sz, f)"
    by (cases "readname 0 (''/usr/local/bin/zsh'' @ [LF])")
  then have "w = ''/usr/local/bin/zsh''" by (auto simp: readname_def ISSPACE_def)
  with r readname_fits [OF r] show ?thesis by blast
qed

end
