(* ===== verification/Rootsh_State.thy ===== *)
theory Rootsh_State
  imports Config_File Syslog_Writer Posix_Files User_Shells
begin

text \<open>
  The state of the program and what it asks its host: the global variables of
  \<^verbatim>\<open>rootsh.c\<close> as the record \<^verbatim>\<open>rootsh\<close>, the answers of the operating system at the time of
  a call as the record \<^verbatim>\<open>host\<close>, and \<open>dologging\<close>, through which everything that is
  logged goes.
\<close>

section \<open>The host\<close>

record passwd =
  pw_name :: "string option"
  pw_shell :: "string option"

record tm =
  tm_year :: nat
  tm_mon :: nat
  tm_mday :: nat
  tm_hour :: nat
  tm_min :: nat
  tm_sec :: nat

text \<open>
  \<open>stack\<close> is what an automatic array holds before it is written; \<open>tty_owner\<close> is the owner
  found by \<open>stat\<close> on the terminal; \<open>SHELLS_FILE\<close> is the contents of
  \<^verbatim>\<open>/etc/shells\<close> when it can be opened.
\<close>

record host =
  malloc_ok :: "nat \<Rightarrow> bool"
  stack :: "nat \<Rightarrow> char"
  getpid :: nat
  getuid :: nat
  geteuid :: nat
  getpwuid :: "nat \<Rightarrow> passwd option"
  getpwnam :: "string \<Rightarrow> passwd option"
  ttyname0 :: "string option"
  tty_owner :: "nat option"
  localtime :: tm
  ctime :: string
  SHELLS_FILE :: "string option"

section \<open>The global variables\<close>

text \<open>
  \<open>senv\<close> and \<open>senvp\<close> are the static variables of \<open>saveenv\<close>: a block of pointers and
  an offset into it. An entry that has not been written is \<open>Wild\<close>.
\<close>

datatype envptr = Null_Ptr | Str string | Wild

record rootsh =
  opts :: settings
  progName :: string
  sessionId :: string
  logFile :: nat
  logInode :: nat
  logDev :: nat
  logFileName :: string
  userLogFileName :: "string option"
  userLogFileDir :: "string option"
  userName :: string
  runAsUser :: "string option"
  standalone :: bool
  useLoginShell :: bool
  isaLoginShell :: bool
  environ :: "string list"
  senv :: "envptr list option"
  senvp :: nat
  usershells :: shells
  syslogs :: w2s
  openlog_ident :: "string option"
  files :: fs
  stderr_text :: "string list"

text \<open>\<open>fprintf (stderr, \<dots>)\<close> and \<open>perror\<close>: the text, without what \<open>perror\<close> adds
  and without the newline.\<close>

definition print_error :: "string \<Rightarrow> rootsh \<Rightarrow> rootsh" where
  "print_error msg g = g\<lparr>stderr_text := stderr_text g @ [msg]\<rparr>"

text \<open>\<open>LOG_LOCAL5 | LOG_NOTICE\<close>.\<close>

definition SYSLOG_PRIO :: int where "SYSLOG_PRIO = 173"

section \<open>Messages\<close>

text \<open>
  \<open>char msgbuf[BUFSIZ]; msglen = snprintf (msgbuf, sizeof (msgbuf) - 1, \<dots>)\<close>: the whole
  array, and the length of the text whether or not it fits.
\<close>

definition msgbuf_of :: "host \<Rightarrow> string \<Rightarrow> buffer" where
  "msgbuf_of h text =
     (let t = snprintf_text (BUFSIZ - 1) text in
      t @ [NUL] @ map (stack h) [length t + 1..<BUFSIZ])"

definition dologging :: "host \<Rightarrow> buffer \<Rightarrow> nat \<Rightarrow> rootsh \<Rightarrow> (stop + unit) \<times> rootsh" where
  "dologging h msgbuf msglen g =
     (if (logtofile (opts g) \<or> logtosyslog (opts g)) \<and> length msgbuf < msglen then
        (Inl (Faulted Out_Of_Bounds), g)
      else
        let data = take msglen msgbuf;
            g = (if logtofile (opts g) then
                   let (n, f) = sys_write (logFile g) data (files g); g = g\<lparr>files := f\<rparr> in
                   if n < 0 then print_error ''Error writing to logfile'' g else g
                 else g) in
        if logtosyslog (opts g) then
          (case write2syslog (malloc_ok h) (Some data) (syslogLogLineCount (opts g)) SYSLOG_PRIO
              (syslogs g) of
             Inl e \<Rightarrow> (Inl e, g)
           | Inr w \<Rightarrow> (Inr (), g\<lparr>syslogs := w\<rparr>))
        else (Inr (), g))"

definition log_message :: "host \<Rightarrow> string \<Rightarrow> rootsh \<Rightarrow> (stop + unit) \<times> rootsh" where
  "log_message h text = dologging h (msgbuf_of h text) (length text)"

text \<open>\<open>write (logFile, msgbuf, msglen)\<close> of a formatted message.\<close>

definition write_message :: "host \<Rightarrow> string \<Rightarrow> rootsh \<Rightarrow> (stop + int) \<times> rootsh" where
  "write_message h text g =
     (if length (msgbuf_of h text) < length text then (Inl (Faulted Out_Of_Bounds), g)
      else
        let (n, f) = sys_write (logFile g) (take (length text) (msgbuf_of h text)) (files g) in
        (Inr n, g\<lparr>files := f\<rparr>))"

section \<open>Lemmas\<close>

lemma length_msgbuf [simp]: "length (msgbuf_of h text) = BUFSIZ"
  by (simp add: msgbuf_of_def snprintf_text_def BUFSIZ_def Let_def)

lemma msgbuf_text: "length text \<le> BUFSIZ - 2 \<Longrightarrow> take (length text) (msgbuf_of h text) = text"
  by (simp add: msgbuf_of_def snprintf_text_def BUFSIZ_def Let_def)

text \<open>Appending through an open log.\<close>

definition same_dir :: "fs \<Rightarrow> fs \<Rightarrow> bool" where
  "same_dir f f' \<longleftrightarrow> names f' = names f \<and> next_ino f' = next_ino f \<and> next_fd f' = next_fd f
     \<and> device_of f' = device_of f \<and> open_error f' = open_error f \<and> write_room f' = write_room f"

lemma same_dir_refl [simp]: "same_dir f f"
  by (simp add: same_dir_def)

lemma same_dir_trans: "same_dir f g \<Longrightarrow> same_dir g h \<Longrightarrow> same_dir f h"
  by (simp add: same_dir_def)

lemma sys_write_append:
  assumes "nodes f i = Some (File c)" "write_room f i = None" "fds f fd = Some d" "fd_ino d = i"
    "fd_append d"
  shows "sys_write fd data f = (int (length data),
    f\<lparr>nodes := (nodes f)(i \<mapsto> File (c @ data)),
      fds := (fds f)(fd \<mapsto> d\<lparr>fd_off := length c + length data\<rparr>)\<rparr>)"
  using assms by (simp add: sys_write_def Let_def)

lemma fs_inv_write:
  assumes "fs_inv f" "nodes f i \<noteq> None" "fds f fd \<noteq> None"
  shows "fs_inv (f\<lparr>nodes := (nodes f)(i \<mapsto> n), fds := (fds f)(fd \<mapsto> d)\<rparr>)"
proof -
  have "fs_inv (f'\<lparr>fds := (fds f')(fd \<mapsto> d)\<rparr>)" if "fs_inv f'" "fds f' fd \<noteq> None" for f'
    using that unfolding fs_inv_def by fastforce
  from this [OF fs_inv_rewrite [OF assms(1,2)]] assms(3) show ?thesis by simp
qed

lemma sys_write_log:
  assumes "log_open fd i c f" "fs_inv f"
  shows "\<exists>f'. sys_write fd data f = (int (length data), f') \<and> log_open fd i (c @ data) f'
    \<and> same_dir f f' \<and> fs_inv f' \<and> (\<forall>j. j \<noteq> i \<longrightarrow> nodes f' j = nodes f j)"
proof -
  from assms(1) obtain d where "nodes f i = Some (File c)" "write_room f i = None" "fds f fd = Some d"
    "fd_ino d = i" "fd_append d"
    by (auto simp: log_open_def)
  with sys_write_append [OF this] assms(2) show ?thesis
    by (auto simp: log_open_def same_dir_def intro!: fs_inv_write)
qed

text \<open>
  The program can log: the file is open for appending and holds \<open>c\<close>, and the state of the
  syslog writer is a proper one.
\<close>

definition logging :: "buffer \<Rightarrow> rootsh \<Rightarrow> bool" where
  "logging c g \<longleftrightarrow> logtofile (opts g) \<and> fs_inv (files g) \<and> w2s_inv (syslogs g)
     \<and> log_open (logFile g) (logDev g, logInode g) c (files g)"

definition log_frame :: "rootsh \<Rightarrow> rootsh \<Rightarrow> bool" where
  "log_frame g g' \<longleftrightarrow> (\<forall>j. j \<noteq> (logDev g, logInode g) \<longrightarrow> nodes (files g') j = nodes (files g) j)"

text \<open>\<open>g'\<close> differs from \<open>g\<close> in what has been logged and printed, and in the files only.\<close>

definition same_vars :: "rootsh \<Rightarrow> rootsh \<Rightarrow> bool" where
  "same_vars g g' \<longleftrightarrow> (\<exists>f w e. g' = g\<lparr>files := f, syslogs := w, stderr_text := e\<rparr>)"

definition same_session :: "rootsh \<Rightarrow> rootsh \<Rightarrow> bool" where
  "same_session g g' \<longleftrightarrow> same_vars g g' \<and> same_dir (files g) (files g')"

lemma same_vars_intro [intro, simp]:
  "same_vars g (g\<lparr>files := f\<rparr>)" "same_vars g g"
  "same_vars g (g\<lparr>files := f, syslogs := w\<rparr>)"
proof -
  show "same_vars g (g\<lparr>files := f, syslogs := w\<rparr>)" for f w
    unfolding same_vars_def
    by (intro exI [of _ f] exI [of _ w] exI [of _ "stderr_text g"]) simp
  from this [where f = f and w = "syslogs g"] this [where f = "files g" and w = "syslogs g"]
  show "same_vars g (g\<lparr>files := f\<rparr>)" "same_vars g g" by simp_all
qed

lemma same_vars_trans: "same_vars g g1 \<Longrightarrow> same_vars g1 g2 \<Longrightarrow> same_vars g g2"
  unfolding same_vars_def by force

lemma same_vars_simps:
  assumes "same_vars g g'"
  shows "opts g' = opts g" "logFile g' = logFile g" "logInode g' = logInode g"
    "logDev g' = logDev g" "logFileName g' = logFileName g" "progName g' = progName g"
    "userName g' = userName g" "sessionId g' = sessionId g"
  using assms unfolding same_vars_def by auto

lemma same_session_refl [simp]: "same_session g g"
  by (simp add: same_session_def)

lemma same_session_trans: "same_session g g1 \<Longrightarrow> same_session g1 g2 \<Longrightarrow> same_session g g2"
  unfolding same_session_def using same_vars_trans same_dir_trans by blast

lemma dologging_ok:
  assumes "logging c g" "n \<le> length buf" "malloc_ok h = (\<lambda>_. True)"
  shows "\<exists>g'. dologging h buf n g = (Inr (), g') \<and> logging (c @ take n buf) g'
    \<and> same_session g g' \<and> log_frame g g' \<and> stderr_text g' = stderr_text g
    \<and> syslogs g' = (if logtosyslog (opts g)
        then w2s_put (syslogLogLineCount (opts g)) SYSLOG_PRIO (syslogs g) (take n buf)
        else syslogs g)"
proof -
  from assms(1) sys_write_log [of "logFile g" "(logDev g, logInode g)" c "files g" "take n buf"]
  obtain f' where f': "sys_write (logFile g) (take n buf) (files g) = (int (length (take n buf)), f')"
    "log_open (logFile g) (logDev g, logInode g) (c @ take n buf) f'" "same_dir (files g) f'"
    "fs_inv f'" "\<And>j. j \<noteq> (logDev g, logInode g) \<Longrightarrow> nodes f' j = nodes (files g) j"
    by (auto simp: logging_def)
  from assms(1) have "w2s_inv (syslogs g)" by (simp add: logging_def)
  note w = w2s_spec_inv [OF this] write2syslog_refines [OF this] w2s_put_eq [OF this]
  let ?w = "if logtosyslog (opts g)
    then w2s_put (syslogLogLineCount (opts g)) SYSLOG_PRIO (syslogs g) (take n buf) else syslogs g"
  have "dologging h buf n g = (Inr (), g\<lparr>files := f', syslogs := ?w\<rparr>)"
    using assms f'(1) w by (simp add: dologging_def logging_def)
  moreover have "logging (c @ take n buf) (g\<lparr>files := f', syslogs := ?w\<rparr>)"
    using assms(1) f'(2,4) w by (simp add: logging_def)
  moreover have "same_session g (g\<lparr>files := f', syslogs := ?w\<rparr>)"
    using f'(3) by (simp add: same_session_def)
  moreover have "log_frame g (g\<lparr>files := f', syslogs := ?w\<rparr>)"
    using f'(5) by (simp add: log_frame_def)
  ultimately show ?thesis by (intro exI [of _ "g\<lparr>files := f', syslogs := ?w\<rparr>"]) simp
qed

lemma log_message_ok:
  assumes "logging c g" "length m \<le> BUFSIZ - 2" "malloc_ok h = (\<lambda>_. True)"
  shows "\<exists>g'. log_message h m g = (Inr (), g') \<and> logging (c @ m) g' \<and> same_session g g'
    \<and> log_frame g g'"
  using dologging_ok [OF assms(1) _ assms(3), of "length m" "msgbuf_of h m"]
    msgbuf_text [OF assms(2)] assms(2)
  by (auto simp: log_message_def BUFSIZ_def)

lemma write_message_ok:
  assumes "logging c g" "length m \<le> BUFSIZ - 2"
  shows "\<exists>g'. write_message h m g = (Inr (int (length m)), g') \<and> logging (c @ m) g'
    \<and> same_session g g' \<and> log_frame g g'"
proof -
  from assms(1) sys_write_log [of "logFile g" "(logDev g, logInode g)" c "files g" m]
  obtain f' where f': "sys_write (logFile g) m (files g) = (int (length m), f')"
    "log_open (logFile g) (logDev g, logInode g) (c @ m) f'" "same_dir (files g) f'"
    "fs_inv f'" "\<And>j. j \<noteq> (logDev g, logInode g) \<Longrightarrow> nodes f' j = nodes (files g) j"
    by (auto simp: logging_def)
  with assms msgbuf_text [OF assms(2)] show ?thesis
    by (simp add: write_message_def logging_def same_session_def log_frame_def)
qed

text \<open>What other processes do to names, the program survives.\<close>

lemma logging_user_step:
  "logging c g \<Longrightarrow> names_only a \<Longrightarrow> logging c (g\<lparr>files := user_step (files g) a\<rparr>)"
  by (simp add: logging_def user_step_log_open user_step_fs_inv)

lemma logging_user_steps:
  "logging c g \<Longrightarrow> list_all names_only acts \<Longrightarrow>
    logging c (g\<lparr>files := foldl user_step (files g) acts\<rparr>)"
  using user_acts.run_inv [of "files g" "logFile g" "(logDev g, logInode g)" c acts]
  by (simp add: logging_def)

end
