(* ===== verification/Environment.thy ===== *)
theory Environment
  imports Rootsh_State
begin

text \<open>
  The environment, \<open>saveenv\<close> and \<open>restoreenv\<close> of \<^verbatim>\<open>rootsh.c\<close>, over the library's
  \<open>getenv\<close>, \<open>putenv\<close> and \<open>clearenv\<close>. The environment is the list of its
  \<open>name=value\<close> entries; the saved one is the block of pointers the code allocates.
\<close>

section \<open>The library\<close>

definition env_name :: "string \<Rightarrow> string" where
  "env_name entry = takeWhile (\<lambda>c. c \<noteq> CHR ''='') entry"

fun getenv :: "string list \<Rightarrow> string \<Rightarrow> string option" where
  "getenv [] name = None"
| "getenv (e # es) name =
     (if take (length name + 1) e = name @ ''='' then Some (drop (length name + 1) e)
      else getenv es name)"

text \<open>\<open>putenv\<close> of a string with an equals sign.\<close>

fun putenv :: "string \<Rightarrow> string list \<Rightarrow> string list" where
  "putenv entry [] = [entry]"
| "putenv entry (e # es) =
     (if env_name e = env_name entry then entry # es else e # putenv entry es)"

definition clearenv :: "rootsh \<Rightarrow> rootsh" where
  "clearenv g = g\<lparr>environ := []\<rparr>"

section \<open>The code\<close>

text \<open>
  The loop that positions \<open>senvp\<close>. An entry without an equals sign, which the code never
  stores, would make the length it compares meaningless.
\<close>

function find_saved :: "envptr list \<Rightarrow> nat \<Rightarrow> string \<Rightarrow> fault + nat" where
  "find_saved block p name =
     (if p \<ge> length block then Inl Out_Of_Bounds
      else
        (case block ! p of
           Null_Ptr \<Rightarrow> Inr p
         | Wild \<Rightarrow> Inl Out_Of_Bounds
         | Str s \<Rightarrow>
             (case c_index s (CHR ''='') of
                None \<Rightarrow> Inl Null_Deref
              | Some n \<Rightarrow>
                  if strncmp_eq s name n then Inr p else find_saved block (p + 1) name)))"
  by pat_completeness auto
termination
  by (relation "measure (\<lambda>(block, p, name). length block - p)") auto

declare find_saved.simps [simp del]

text \<open>\<open>calloc\<close> gives null pointers, \<open>realloc\<close> leaves new entries unwritten.\<close>

definition realloc_ptrs :: "envptr list \<Rightarrow> nat \<Rightarrow> envptr list" where
  "realloc_ptrs block n = take n block @ replicate (n - length block) Wild"

text \<open>\<open>saveenv (name)\<close> for a name; \<open>saveenv (NULL)\<close> is the value of \<open>senv\<close>.\<close>

definition saveenv :: "host \<Rightarrow> string \<Rightarrow> rootsh \<Rightarrow> (stop + envptr list option) \<times> rootsh" where
  "saveenv h name g =
     (case getenv (environ g) name of
        None \<Rightarrow> (Inr (senv g), g)
      | Some value \<Rightarrow>
          bindM (\<lambda>g.
            case senv g of
              None \<Rightarrow>
                if malloc_ok h 2 then (Inr [Null_Ptr, Null_Ptr], g) else (Inl (Faulted Null_Deref), g)
            | Some block \<Rightarrow>
                if malloc_ok h (senvp g + 2) then (Inr (realloc_ptrs block (senvp g + 2)), g)
                else (Inl (Exited EXIT_FAILURE),
                  print_error ''Unable to allocate memory for saving environemnt'' g))
          (\<lambda>block g.
            case find_saved block 0 name of
              Inl e \<Rightarrow> (Inl (Faulted e), g)
            | Inr p \<Rightarrow>
                if block ! p = Null_Ptr then
                  if \<not> malloc_ok h (length name + length value + 2) then
                    (Inl (Faulted Null_Deref), g)
                  else if p + 1 \<ge> length block then (Inl (Faulted Out_Of_Bounds), g)
                  else
                    let block = block[p := Str (name @ ''='' @ value), p + 1 := Null_Ptr] in
                    (Inr (Some block), g\<lparr>senv := Some block, senvp := p + 1\<rparr>)
                else (Inr (Some block), g\<lparr>senv := Some block, senvp := p\<rparr>)) g)"

fun put_saved :: "envptr list \<Rightarrow> string list \<Rightarrow> fault + string list" where
  "put_saved [] env = Inl Out_Of_Bounds"
| "put_saved (Null_Ptr # ps) env = Inr env"
| "put_saved (Wild # ps) env = Inl Out_Of_Bounds"
| "put_saved (Str s # ps) env = put_saved ps (putenv s env)"

definition restoreenv :: "rootsh \<Rightarrow> (stop + unit) \<times> rootsh" where
  "restoreenv g =
     (case senv g of
        None \<Rightarrow> (Inl (Faulted Null_Deref), g)
      | Some block \<Rightarrow>
          (case put_saved block (environ g) of
             Inl e \<Rightarrow> (Inl (Faulted e), g)
           | Inr env \<Rightarrow> (Inr (), g\<lparr>environ := env\<rparr>)))"

text \<open>
  The \<open>clearenv\<close> for hosts without one, with the status and the block \<open>environ\<close> points to
  afterwards: room for one pointer, which is never written. That the old block can be given to
  \<open>free\<close> is assumed.
\<close>

definition clearenv_fallback :: "(nat \<Rightarrow> bool) \<Rightarrow> int \<times> envptr list option" where
  "clearenv_fallback mem = (if mem 1 then (0, Some [Wild]) else (- 1, None))"

text \<open>What \<open>getenv\<close> and \<open>putenv\<close> read of a block: the entries up to the null pointer.\<close>

fun env_entries :: "envptr list \<Rightarrow> fault + string list" where
  "env_entries [] = Inl Out_Of_Bounds"
| "env_entries (Null_Ptr # ps) = Inr []"
| "env_entries (Wild # ps) = Inl Out_Of_Bounds"
| "env_entries (Str s # ps) = bindR (env_entries ps) (\<lambda>es. Inr (s # es))"

section \<open>Lemmas\<close>

text \<open>The fallback does not leave an empty environment but one that cannot be read.\<close>

lemma fallback_environment_unreadable:
  "clearenv_fallback mem = (0, block) \<Longrightarrow> map_option env_entries block = Some (Inl Out_Of_Bounds)"
  by (auto simp: clearenv_fallback_def split: if_splits)

lemma env_name_eq: "CHR ''='' \<notin> set name \<Longrightarrow> env_name (name @ ''='' @ value) = name"
  unfolding env_name_def by (induction name) auto

lemma getenv_putenv [simp]:
  "CHR ''='' \<notin> set name \<Longrightarrow> getenv (putenv (name @ ''='' @ value) env) name = Some value"
proof (induction env)
  case Nil
  then show ?case by simp
next
  case (Cons e es)
  have name: "env_name (name @ ''='' @ value) = name"
    using Cons.prems by (rule env_name_eq)
  show ?case
  proof (cases "env_name e = name")
    case False
    have "take (length name + 1) e \<noteq> name @ ''=''"
    proof
      assume "take (length name + 1) e = name @ ''=''"
      then have "e = name @ ''='' @ drop (length name + 1) e"
        by (metis append_assoc append_take_drop_id)
      then have "env_name e = name"
        using Cons.prems env_name_eq by metis
      with False show False by simp
    qed
    with False name Cons show ?thesis by simp
  qed (use name in simp)
qed

text \<open>The first call and the restoring: exactly the one variable survives.\<close>

lemma saveenv_first:
  assumes "getenv (environ g) name = Some value" "senv g = None" "malloc_ok h = (\<lambda>_. True)"
  shows "saveenv h name g = (Inr (Some [Str (name @ ''='' @ value), Null_Ptr]),
    g\<lparr>senv := Some [Str (name @ ''='' @ value), Null_Ptr], senvp := 1\<rparr>)"
  using assms by (simp add: saveenv_def find_saved.simps bindM_def Let_def)

lemma restoreenv_single:
  "senv g = Some [Str e, Null_Ptr] \<Longrightarrow> environ g = [] \<Longrightarrow> restoreenv g = (Inr (), g\<lparr>environ := [e]\<rparr>)"
  by (simp add: restoreenv_def)

end
