(* ===== verification/Basename.thy ===== *)
theory Basename
  imports Prelude
begin

text \<open>
  The last component of a path, \<open>basename\<close> of \<^verbatim>\<open>basename.c\<close>, which the program brings for
  hosts without one. The copy of the path is a list, the pointer into it an offset.
\<close>

section \<open>The code\<close>

function scan_path :: "string \<Rightarrow> nat \<Rightarrow> bool \<Rightarrow> nat \<times> bool" where
  "scan_path s ptr slashfound =
     (if ptr + 1 < length s then scan_path s (ptr + 1) (slashfound \<or> s ! ptr = CHR ''/'')
      else (ptr, slashfound))"
  by pat_completeness auto
termination
  by (relation "measure (\<lambda>(s, ptr, slashfound). length s - ptr)") auto

declare scan_path.simps [simp del]

fun strip_slashes :: "string \<Rightarrow> nat \<Rightarrow> string \<times> nat" where
  "strip_slashes s 0 = (s, 0)"
| "strip_slashes s (Suc ptr) =
     (if s ! Suc ptr = CHR ''/'' then strip_slashes (take (Suc ptr) s) ptr else (s, Suc ptr))"

fun after_slash :: "string \<Rightarrow> nat \<Rightarrow> string" where
  "after_slash s 0 = s"
| "after_slash s (Suc ptr) =
     (if s ! Suc ptr = CHR ''/'' then drop (Suc (Suc ptr)) s else after_slash s ptr)"

definition basename :: "string option \<Rightarrow> string" where
  "basename path =
     (case path of
        None \<Rightarrow> ''.''
      | Some s \<Rightarrow>
          if s = [] then ''.''
          else if s = ''/'' then ''/''
          else
            let (ptr, slashfound) = scan_path s 0 False in
            if \<not> slashfound then s
            else
              let (s, ptr) = strip_slashes s ptr in
              if ptr = 0 \<and> s ! ptr = CHR ''/'' then s
              else after_slash s ptr)"

section \<open>Lemmas\<close>

lemma scan_path_eq:
  "ptr < length s \<Longrightarrow> scan_path s ptr found
    = (length s - 1, found \<or> CHR ''/'' \<in> set (drop ptr (butlast s)))"
proof (induction s ptr found rule: scan_path.induct)
  case (1 s ptr found)
  show ?case
  proof (cases "ptr + 1 < length s")
    case True
    then have "drop ptr (butlast s) = s ! ptr # drop (Suc ptr) (butlast s)"
      by (metis Cons_nth_drop_Suc add_lessD1 length_butlast less_diff_conv nth_butlast)
    with 1 True show ?thesis by (subst scan_path.simps) auto
  next
    case False
    with 1 show ?thesis by (subst scan_path.simps) auto
  qed
qed

lemma after_slash_found:
  "CHR ''/'' \<notin> set b \<Longrightarrow> d \<noteq> [] \<Longrightarrow> n \<le> length b \<Longrightarrow>
    after_slash (d @ CHR ''/'' # b) (length d + n) = b"
proof (induction n)
  case 0
  then obtain k where "length d = Suc k" by (cases d) auto
  then show ?case by (simp add: nth_append)
next
  case (Suc n)
  then have "b ! n \<noteq> CHR ''/''" by (metis Suc_le_lessD nth_mem)
  with Suc show ?case by (simp add: nth_append)
qed

lemma after_slash_none:
  "(\<And>i. 0 < i \<Longrightarrow> i \<le> ptr \<Longrightarrow> s ! i \<noteq> CHR ''/'') \<Longrightarrow> after_slash s ptr = s"
  by (induction ptr) auto

lemma strip_slashes_id: "0 < ptr \<Longrightarrow> s ! ptr \<noteq> CHR ''/'' \<Longrightarrow> strip_slashes s ptr = (s, ptr)"
  by (cases ptr) auto

lemma basename_eq:
  assumes "CHR ''/'' \<notin> set b" "b \<noteq> []" "s = d @ CHR ''/'' # b"
  shows "basename (Some s) = after_slash s (length d + length b)"
proof -
  have nonempty: "s \<noteq> []" "s \<noteq> ''/''" "0 < length s - 1"
    using assms(2,3) by (cases b; cases d; auto)+
  have last: "s ! (length s - 1) \<noteq> CHR ''/''"
    using assms by (metis last_conv_nth last_append last_ConsR last_in_set list.distinct(1) nonempty(1))
  have "butlast s = d @ CHR ''/'' # butlast b" using assms(2,3) by (simp add: butlast_append)
  then have "CHR ''/'' \<in> set (butlast s)" by simp
  with scan_path_eq [of 0 s False] nonempty have "scan_path s 0 False = (length s - 1, True)"
    by simp
  moreover have "length s - 1 = length d + length b" using assms(3) by simp
  ultimately show ?thesis
    using nonempty strip_slashes_id [OF nonempty(3) last] by (simp add: basename_def)
qed

section \<open>Properties\<close>

text \<open>The component after the last slash is returned, for every path with a directory in front
  of that slash.\<close>

theorem basename_last_component:
  assumes "d \<noteq> []" "b \<noteq> []" "CHR ''/'' \<notin> set b"
  shows "basename (Some (d @ CHR ''/'' # b)) = b"
  using basename_eq [OF assms(3,2) refl, of d] after_slash_found [OF assms(3,1), of "length b"]
  by simp

theorem basename_last_component_witness: "basename (Some ''/usr/bin/rootsh'') = ''rootsh''"
  using basename_last_component [of "''/usr/bin''" "''rootsh''"] by simp

text \<open>A file in the root directory keeps its slash: the backward search stops before it looks
  at the first character.\<close>

theorem basename_root_file_keeps_slash:
  assumes "b \<noteq> []" "CHR ''/'' \<notin> set b"
  shows "basename (Some (CHR ''/'' # b)) = CHR ''/'' # b"
proof -
  have "after_slash (CHR ''/'' # b) (length b) = CHR ''/'' # b"
    using assms(2) by (intro after_slash_none) (metis Suc_pred Suc_le_lessD nth_Cons_Suc nth_mem)
  with basename_eq [OF assms(2,1), of "CHR ''/'' # b" "[]"] show ?thesis by simp
qed

theorem basename_root_file_keeps_slash_witness: "basename (Some ''/rootsh'') = ''/rootsh''"
  using basename_root_file_keeps_slash [of "''rootsh''"] by simp

end
