(* ===== verification/Log_Files.thy ===== *)
theory Log_Files
  imports Rootsh_State
begin

text \<open>
  The life of a log file, \<open>beginlogging\<close>, \<open>endlogging\<close>, \<open>recoverfile\<close> and
  \<open>forceopen\<close> of \<^verbatim>\<open>rootsh.c\<close>: its name, its opening, the examination at the end of the
  session, and the recovery of a log whose name was tampered with.
\<close>

section \<open>Opening the logs\<close>

definition CRLF :: string where "CRLF = [CR, LF]"

text \<open>The messages about the log file.\<close>

definition MSG_FILE_EXISTS :: string where
  "MSG_FILE_EXISTS = ''*** FILE ALREADY EXISTS ***'' @ CRLF"

definition MSG_DIR_EXISTS :: string where
  "MSG_DIR_EXISTS = ''*** FILE ALREADY EXISTS AS A DIRECTORY ***'' @ CRLF"

definition MSG_HANDLE_DELETED :: string where
  "MSG_HANDLE_DELETED = ''*** THIS FILEHANDLE HAS BEEN DELETED ***'' @ CRLF"

definition MSG_DELETED :: string where
  "MSG_DELETED = ''*** USER TRIED TO DELETE THIS FILE ***'' @ CRLF"

definition MSG_RECREATED :: string where
  "MSG_RECREATED = ''*** USER TRIED TO DELETE AND RECREATE THIS FILE ***'' @ CRLF"

definition MSG_LOST :: string where
  "MSG_LOST = ''*** THIS LOGFILE CANNOT BE RECOVERED ***'' @ CRLF"

definition MSG_RECOVERED :: string where
  "MSG_RECOVERED = ''*** MANIPULATED LOGFILE RECOVERED ***'' @ CRLF"

lemmas msg_defs = MSG_FILE_EXISTS_def MSG_DIR_EXISTS_def MSG_HANDLE_DELETED_def MSG_DELETED_def
  MSG_RECREATED_def MSG_LOST_def MSG_RECOVERED_def CRLF_def

lemma msg_lengths:
  "length MSG_FILE_EXISTS \<le> BUFSIZ - 2" "length MSG_DIR_EXISTS \<le> BUFSIZ - 2"
  "length MSG_HANDLE_DELETED \<le> BUFSIZ - 2" "length MSG_DELETED \<le> BUFSIZ - 2"
  "length MSG_RECREATED \<le> BUFSIZ - 2" "length MSG_LOST \<le> BUFSIZ - 2"
  "length MSG_RECOVERED \<le> BUFSIZ - 2"
  by (simp_all add: msg_defs BUFSIZ_def)

lemma msg_nonempty:
  "MSG_HANDLE_DELETED \<noteq> []" "MSG_DELETED \<noteq> []" "MSG_RECREATED \<noteq> []"
  by (simp_all add: msg_defs)

text \<open>\<open>printf\<close> of a string argument: glibc prints \<open>(null)\<close> for the null pointer.\<close>

definition str_arg :: "string option \<Rightarrow> string" where
  "str_arg s = (case s of None \<Rightarrow> ''(null)'' | Some t \<Rightarrow> t)"

text \<open>The name of the terminal, the empty string when there is none.\<close>

definition tty_name :: "host \<Rightarrow> string" where
  "tty_name h = (case ttyname0 h of None \<Rightarrow> [] | Some t \<Rightarrow> t)"

definition default_log_name :: "host \<Rightarrow> rootsh \<Rightarrow> string" where
  "default_log_name h g =
     (let now = localtime h in
      snprintf_text (MAXPATHLEN - 9 - 1)
        (userName g @ ''.'' @ pad0 4 (tm_year now + 1900) @ pad0 2 (tm_mon now + 1)
          @ pad0 2 (tm_mday now) @ pad0 2 (tm_hour now) @ pad0 2 (tm_min now)
          @ pad0 2 (tm_sec now) @ ''.'' @ pad0 5 (getpid h)))"

definition choose_log_name :: "host \<Rightarrow> rootsh \<Rightarrow> string" where
  "choose_log_name h g =
     snprintf_text (MAXPATHLEN - 9 - 1)
       (if standalone g then
          (case (userLogFileName g, userLogFileDir g) of
             (Some n, Some d) \<Rightarrow> d @ ''/'' @ n
           | (Some n, None) \<Rightarrow> if n \<noteq> [] \<and> hd n = CHR ''/'' then n else ''./'' @ n
           | (None, Some d) \<Rightarrow> d @ ''/'' @ default_log_name h g
           | (None, None) \<Rightarrow> logdir (opts g) @ ''/'' @ default_log_name h g)
        else logdir (opts g) @ ''/'' @ default_log_name h g)"

definition login_text :: "rootsh \<Rightarrow> string" where
  "login_text g = (if isaLoginShell g then ''login '' else [])"

definition opened_text :: "host \<Rightarrow> string option \<Rightarrow> rootsh \<Rightarrow> string" where
  "opened_text h user g =
     login_text g @ progName g @ '' session opened for '' @ userName g @ '' as ''
       @ str_arg user @ '' on '' @ tty_name h @ '' at '' @ ctime h"

text \<open>The log file part of \<open>beginlogging\<close>: false is \<open>return (0)\<close>.\<close>

definition open_log :: "host \<Rightarrow> string option \<Rightarrow> rootsh \<Rightarrow> (stop + bool) \<times> rootsh" where
  "open_log h user g =
     (let g = g\<lparr>logFileName := choose_log_name h g\<rparr> in
      case sys_open (logFileName g) True (files g) of
        (Inl e, f) \<Rightarrow> (Inr False, print_error (logFileName g) (g\<lparr>files := f\<rparr>))
      | (Inr fd, f) \<Rightarrow>
          let g = g\<lparr>files := f, logFile := fd\<rparr> in
          (case sys_fstat fd f of
             None \<Rightarrow> (Inr False, print_error (logFileName g) g)
           | Some i \<Rightarrow>
               let g = g\<lparr>logInode := snd i, logDev := fst i\<rparr> in
               bindM (write_message h (opened_text h user g)) (\<lambda>n g.
                 if n < 0 then (Inr False, print_error (logFileName g) g) else (Inr True, g)) g))"

definition new_session_text :: "host \<Rightarrow> string option \<Rightarrow> rootsh \<Rightarrow> string" where
  "new_session_text h user g =
     userName g @ ''='' @ str_arg user @ '','' @ tty_name h @ '': logging new '' @ login_text g
       @ ''session ('' @ sessionId g @ '')''
       @ (if logtofile (opts g) then '' to '' @ logFileName g else [])"

definition open_syslog :: "host \<Rightarrow> string option \<Rightarrow> rootsh \<Rightarrow> rootsh" where
  "open_syslog h user g =
     (let g = g\<lparr>openlog_ident := Some
            (if syslogLogUsername (opts g) then
               snprintf_text (MAXPATHLEN + 11 + 10) (sessionId g @ '': '' @ userName g)
             else sessionId g)\<rparr> in
      g\<lparr>syslogs := syslog SYSLOG_PRIO (new_session_text h user g) (syslogs g)\<rparr>)"

definition beginlogging ::
  "host \<Rightarrow> string option \<Rightarrow> rootsh \<Rightarrow> (stop + bool) \<times> rootsh" where
  "beginlogging h shellCommands g =
     (case (case runAsUser g of
              Some u \<Rightarrow> Some (Some u)
            | None \<Rightarrow> map_option pw_name (getpwuid h (getuid h))) of
        None \<Rightarrow> (Inl (Faulted Null_Deref), g)
      | Some user \<Rightarrow>
          if \<not> logtofile (opts g) \<and> \<not> logtosyslog (opts g) then
            (Inr False, print_error ''you cannot switch off both file and syslog logging'' g)
          else
            bindM (\<lambda>g. if logtofile (opts g) then open_log h user g else (Inr True, g)) (\<lambda>ok g.
              if \<not> ok then (Inr False, g)
              else
                let g = (if logtosyslog (opts g) then open_syslog h user g else g) in
                case shellCommands of
                  None \<Rightarrow> (Inr True, g)
                | Some cmds \<Rightarrow>
                    bindM (log_message h (''shell commands: '' @ cmds @ [LF])) (\<lambda>_ g. (Inr True, g)) g) g)"

section \<open>Recovering a log\<close>

text \<open>\<open>tries\<close> counts the failed attempts so far.\<close>

function forceopen :: "host \<Rightarrow> string \<Rightarrow> nat \<Rightarrow> rootsh \<Rightarrow> (stop + nat option) \<times> rootsh" where
  "forceopen h path tries g =
     (case sys_open path False (files g) of
        (Inr fd, f) \<Rightarrow> (Inr (Some fd), g\<lparr>files := f\<rparr>)
      | (Inl errno, f) \<Rightarrow>
          let g = g\<lparr>files := f\<rparr>; tries = tries + 1 in
          if tries \<ge> 3 then (Inr None, g)
          else
            let (msg, f) = (case errno of
                EEXIST \<Rightarrow> (MSG_FILE_EXISTS, snd (sys_unlink path (files g)))
              | EISDIR \<Rightarrow> (MSG_DIR_EXISTS,
                  snd (sys_rmdir path (files g)))
              | EOTHER n \<Rightarrow> (''*** FILE COULD NOT BE CREATED (ERRNO '' @ dec n @ '')  ***'' @ CRLF,
                  files g)) in
            bindM (log_message h msg) (\<lambda>_ g. forceopen h path tries g) (g\<lparr>files := f\<rparr>))"
  by pat_completeness auto
termination
  by (relation "measure (\<lambda>(h, path, tries, g). 3 - tries)") auto

declare forceopen.simps [simp del]

text \<open>The copying loop, over what reads the next block and what writes it.\<close>

partial_function (option) copy_loop ::
  "('s \<Rightarrow> buffer \<times> 's) \<Rightarrow> ('s \<Rightarrow> buffer \<Rightarrow> 's) \<Rightarrow> 's \<Rightarrow> 's option" where
  "copy_loop rd wr s =
     (case rd s of (b, s') \<Rightarrow> if b = [] then Some s' else copy_loop rd wr (wr s' b))"

definition read_block :: "nat \<Rightarrow> rootsh \<Rightarrow> buffer \<times> rootsh" where
  "read_block fd g = (let (b, f) = sys_read fd BUFSIZ (files g) in (b, g\<lparr>files := f\<rparr>))"

definition write_block :: "nat \<Rightarrow> rootsh \<Rightarrow> buffer \<Rightarrow> rootsh" where
  "write_block fd g b =
     (let (n, f) = sys_write fd b (files g); g = g\<lparr>files := f\<rparr> in
      if n \<noteq> int (length b) then print_error ''write recoverfile'' g else g)"

definition recoverfile :: "host \<Rightarrow> nat \<Rightarrow> string \<Rightarrow> rootsh \<Rightarrow> (stop + bool) \<times> rootsh" where
  "recoverfile h ohandle recoverFileName =
     bindM (forceopen h recoverFileName 0) (\<lambda>r g.
       case r of
         None \<Rightarrow> (Inr False, g)
       | Some fd \<Rightarrow>
           let g = g\<lparr>files := sys_rewind ohandle (files g)\<rparr> in
           (case copy_loop (read_block ohandle) (write_block fd) g of
              None \<Rightarrow> (Inl Diverged, g)
            | Some g \<Rightarrow> (Inr True, g\<lparr>files := sys_close fd (files g)\<rparr>)))"

section \<open>Closing the logs\<close>

definition closed_text :: "host \<Rightarrow> rootsh \<Rightarrow> string" where
  "closed_text h g =
     (if progName g \<noteq> [] \<and> hd (progName g) = CHR ''-'' then tl (progName g) else progName g)
       @ '' session closed for '' @ userName g @ '' on '' @ tty_name h @ '' at '' @ ctime h"

text \<open>
  The examination of the log's name: the message, empty when nothing was found, and the files,
  from which an object that took the log's name is removed.
\<close>

definition examine_log :: "rootsh \<Rightarrow> string \<times> fs" where
  "examine_log g =
     (let f = files g in
      case sys_stat (logFileName g) f of
        None \<Rightarrow>
          (case sys_fstat (logFile g) f of
             None \<Rightarrow> (MSG_HANDLE_DELETED, f)
           | Some i \<Rightarrow> (MSG_DELETED, f))
      | Some st \<Rightarrow>
          if logInode g \<noteq> snd st \<or> logDev g \<noteq> fst st then
            (MSG_RECREATED,
             let (ok, f) = sys_unlink (logFileName g) f in
             if \<not> ok then snd (sys_rmdir (logFileName g) f) else f)
          else
            (case sys_fstat (logFile g) f of
               None \<Rightarrow> (MSG_HANDLE_DELETED, f)
             | Some i \<Rightarrow> ([], f)))"

text \<open>\<open>strcat (logFileName, ".tampered")\<close> on the array of size \<open>MAXPATHLEN - 9\<close>.\<close>

definition append_tampered :: "rootsh \<Rightarrow> (stop + unit) \<times> rootsh" where
  "append_tampered g =
     (if length (logFileName g) + 9 + 1 > MAXPATHLEN - 9 then (Inl (Faulted Out_Of_Bounds), g)
      else (Inr (), g\<lparr>logFileName := logFileName g @ ''.tampered''\<rparr>))"

text \<open>The log file part of \<open>endlogging\<close>: false is the early return.\<close>

definition close_log :: "host \<Rightarrow> rootsh \<Rightarrow> (stop + bool) \<times> rootsh" where
  "close_log h g =
     bindM (write_message h (closed_text h g)) (\<lambda>n g.
       if n < 0 then (Inr False, print_error ''Error writing to logfile'' g)
       else
         let (msg, f) = examine_log g; g = g\<lparr>files := f\<rparr> in
         if msg \<noteq> [] then
           bindM (log_message h msg) (\<lambda>_.
           bindM append_tampered (\<lambda>_ g.
           bindM (recoverfile h (logFile g) (logFileName g)) (\<lambda>recovered.
           bindM (log_message h (if \<not> recovered then MSG_LOST
                else MSG_RECOVERED)) (\<lambda>_ g.
           (Inr True, g\<lparr>files := sys_close (logFile g) (files g)\<rparr>))) g)) g
         else
           let g = g\<lparr>files := sys_close (logFile g) (files g)\<rparr>;
               closedLogFileName = snprintf_text MAXPATHLEN (logFileName g @ ''.closed'') in
           (Inr True, g\<lparr>files := snd (sys_rename (logFileName g) closedLogFileName (files g))\<rparr>)) g"

definition closing_text :: "host \<Rightarrow> rootsh \<Rightarrow> string" where
  "closing_text h g = userName g @ '','' @ tty_name h @ '': closing '' @ progName g
     @ '' session ('' @ sessionId g @ '')''"

definition endlogging :: "host \<Rightarrow> rootsh \<Rightarrow> (stop + unit) \<times> rootsh" where
  "endlogging h =
     bindM (\<lambda>g. if logtofile (opts g) then close_log h g else (Inr True, g)) (\<lambda>ok g.
       if \<not> ok then (Inr (), g)
       else if logtosyslog (opts g) then
         (case write2syslog (malloc_ok h) (Some CRLF) (syslogLogLineCount (opts g)) SYSLOG_PRIO
             (syslogs g) of
            Inl e \<Rightarrow> (Inl e, g)
          | Inr w \<Rightarrow>
              (Inr (), g\<lparr>syslogs := syslog SYSLOG_PRIO (closing_text h g) w, openlog_ident := None\<rparr>))
       else (Inr (), g))"

section \<open>The copying loop returns\<close>

text \<open>
  The contract of a source that is read to its end and a destination written block by block:
  reading nothing means nothing is left, and a block read and written is gone from what is left.
\<close>

locale block_copy =
  fixes rd :: "'s \<Rightarrow> buffer \<times> 's"
    and wr :: "'s \<Rightarrow> buffer \<Rightarrow> 's"
    and ok :: "'s \<Rightarrow> bool"
    and left :: "'s \<Rightarrow> buffer"
  assumes rd_end: "ok s \<Longrightarrow> rd s = ([], s') \<Longrightarrow> ok s' \<and> left s' = []"
    and rd_wr: "ok s \<Longrightarrow> rd s = (b, s') \<Longrightarrow> b \<noteq> [] \<Longrightarrow>
      ok (wr s' b) \<and> length (left (wr s' b)) < length (left s)"
begin

lemma copy_returns: "ok s \<Longrightarrow> \<exists>s'. copy_loop rd wr s = Some s' \<and> ok s' \<and> left s' = []"
proof (induction "length (left s)" arbitrary: s rule: less_induct)
  case less
  obtain b s' where rd: "rd s = (b, s')" by (cases "rd s")
  show ?case
  proof (cases "b = []")
    case True
    with rd rd_end less.prems show ?thesis by (auto simp: copy_loop.simps [of rd wr s])
  next
    case False
    with rd_wr [OF less.prems rd] less.hyps [of "wr s' b"] rd show ?thesis
      by (simp add: copy_loop.simps [of rd wr s])
  qed
qed

end

text \<open>
  The state while the log \<open>c\<close> on inode \<open>i\<close>, read through \<open>r\<close>, is copied over
  a file \<open>old\<close> on inode \<open>j\<close>, written through \<open>w\<close>, up to offset \<open>k\<close>. The
  two may be the same file: the user can have linked the log to the name it is recovered to.
\<close>

definition copying ::
  "nat \<Rightarrow> nat \<Rightarrow> ino \<Rightarrow> ino \<Rightarrow> buffer \<Rightarrow> buffer \<Rightarrow> nat \<Rightarrow> fs \<Rightarrow> bool" where
  "copying r w i j c old k f \<longleftrightarrow> r \<noteq> w \<and> k \<le> length c
     \<and> fds f r = Some \<lparr>fd_ino = i, fd_off = k, fd_append = True\<rparr>
     \<and> fds f w = Some \<lparr>fd_ino = j, fd_off = k, fd_append = False\<rparr>
     \<and> nodes f i = Some (File c) \<and> nodes f j = Some (File (take k c @ drop k old))
     \<and> write_room f i = None \<and> write_room f j = None \<and> fs_inv f \<and> (i = j \<longrightarrow> old = c)"

lemma copying_read:
  assumes "copying r w i j c old k f"
  shows "sys_read r n f = (take n (drop k c),
    f\<lparr>fds := (fds f)(r \<mapsto> \<lparr>fd_ino = i, fd_off = k + length (take n (drop k c)), fd_append = True\<rparr>)\<rparr>)"
  using assms by (simp add: copying_def sys_read_def Let_def)

lemma overwrite_block:
  assumes "k + length b \<le> length c" "take (length b) (drop k c) = b"
  shows "take k (take k c @ drop k old) @ replicate (k - length (take k c @ drop k old)) NUL @ b
      @ drop (k + length b) (take k c @ drop k old)
    = take (k + length b) c @ drop (k + length b) old"
  using assms by (simp add: take_add min_absorb2 add.commute)

lemma copying_step:
  assumes inv: "copying r w i j c old k f" and rd: "sys_read r n f = (b, f')"
  shows "\<exists>f''. sys_write w b f' = (int (length b), f'') \<and> same_dir f f''
    \<and> copying r w i j c old (k + length b) f''"
proof -
  let ?k = "k + length b"
  define f1 where "f1 = f\<lparr>fds := (fds f)(r \<mapsto> \<lparr>fd_ino = i, fd_off = ?k, fd_append = True\<rparr>)\<rparr>"
  from copying_read [OF inv, of n] rd have b: "b = take n (drop k c)" and f': "f' = f1"
    by (simp_all add: f1_def)
  from inv have k: "k \<le> length c" by (simp add: copying_def)
  with b have len: "?k \<le> length c" by simp
  have b2: "take (length b) (drop k c) = b" using b by (metis take_all_iff take_take append_take_drop_id append_eq_conv_conj)
  define f2 where "f2 = f1\<lparr>nodes := (nodes f)(j \<mapsto> File (take ?k c @ drop ?k old)),
    fds := (fds f1)(w \<mapsto> \<lparr>fd_ino = j, fd_off = ?k, fd_append = False\<rparr>)\<rparr>"
  have "sys_write w b f' = (int (length b), f2)"
    using inv overwrite_block [OF len b2, of old]
    by (simp add: copying_def sys_write_def Let_def f' f1_def f2_def)
  moreover have "same_dir f f2" by (simp add: f2_def f1_def same_dir_def)
  moreover have "fs_inv f2"
  proof -
    have "fs_inv f1"
      using inv unfolding copying_def f1_def fs_inv_def by fastforce
    then show ?thesis
      using fs_inv_write [of f1 j w] inv by (simp add: f2_def f1_def copying_def)
  qed
  then have "copying r w i j c old ?k f2"
    using inv len by (auto simp: copying_def f2_def f1_def)
  ultimately show ?thesis by blast
qed

text \<open>What is left to copy.\<close>

definition left_to_copy :: "nat \<Rightarrow> buffer \<Rightarrow> fs \<Rightarrow> buffer" where
  "left_to_copy r c f = (case fds f r of None \<Rightarrow> [] | Some d \<Rightarrow> drop (fd_off d) c)"

lemma left_copying: "copying r w i j c old k f \<Longrightarrow> left_to_copy r c f = drop k c"
  by (simp add: copying_def left_to_copy_def)

definition copy_inv ::
  "nat \<Rightarrow> nat \<Rightarrow> ino \<Rightarrow> ino \<Rightarrow> buffer \<Rightarrow> buffer \<Rightarrow> rootsh \<Rightarrow> rootsh \<Rightarrow> bool" where
  "copy_inv r w i j c old g0 g \<longleftrightarrow> same_session g0 g \<and> syslogs g = syslogs g0
     \<and> (\<exists>k. copying r w i j c old k (files g))"

interpretation recovery: block_copy "read_block r" "write_block w" "copy_inv r w i j c old g0"
  "\<lambda>g. left_to_copy r c (files g)" for r w i j c old g0
proof
  fix g g'
  assume "copy_inv r w i j c old g0 g" and rd: "read_block r g = ([], g')"
  then obtain k where inv: "same_session g0 g" "copying r w i j c old k (files g)"
      and sys: "syslogs g = syslogs g0"
    by (auto simp: copy_inv_def)
  from rd copying_read [OF inv(2)] have "drop k c = []" and g': "g' = g\<lparr>files := (files g)
      \<lparr>fds := (fds (files g))(r \<mapsto> \<lparr>fd_ino = i, fd_off = k, fd_append = True\<rparr>)\<rparr>\<rparr>"
    by (auto simp: read_block_def BUFSIZ_def)
  moreover from inv(2) have "(fds (files g))(r \<mapsto> \<lparr>fd_ino = i, fd_off = k, fd_append = True\<rparr>)
      = fds (files g)"
    by (auto simp: copying_def)
  ultimately have "g' = g" by simp
  with inv sys left_copying [OF inv(2)] \<open>drop k c = []\<close>
  show "copy_inv r w i j c old g0 g' \<and> left_to_copy r c (files g') = []"
    by (auto simp: copy_inv_def)
next
  fix g b g'
  assume "copy_inv r w i j c old g0 g" and rd: "read_block r g = (b, g')" and b: "b \<noteq> []"
  then obtain k where inv: "same_session g0 g" "copying r w i j c old k (files g)"
      and sys: "syslogs g = syslogs g0"
    by (auto simp: copy_inv_def)
  obtain f' where rd': "sys_read r BUFSIZ (files g) = (b, f')" and g': "g' = g\<lparr>files := f'\<rparr>"
    using rd by (auto simp: read_block_def split: prod.splits)
  from copying_step [OF inv(2) rd'] obtain f'' where
    wr: "sys_write w b f' = (int (length b), f'')" and f'': "same_dir (files g) f''"
      "copying r w i j c old (k + length b) f''" by blast
  have eq: "write_block w g' b = g\<lparr>files := f''\<rparr>" by (simp add: write_block_def g' wr)
  have "same_session g (g\<lparr>files := f''\<rparr>)" using f''(1) by (simp add: same_session_def)
  with inv(1) have "same_session g0 (g\<lparr>files := f''\<rparr>)" by (rule same_session_trans)
  moreover have "k < length c"
    using b copying_read [OF inv(2), of BUFSIZ] rd' by (auto intro: leI)
  ultimately show "copy_inv r w i j c old g0 (write_block w g' b)
      \<and> length (left_to_copy r c (files (write_block w g' b))) < length (left_to_copy r c (files g))"
    using f''(2) left_copying [OF f''(2)] left_copying [OF inv(2)] b sys
    by (auto simp: eq copy_inv_def intro!: diff_less_mono2)
qed

section \<open>Opening the recovery file\<close>

definition disk_ok :: "fs \<Rightarrow> bool" where
  "disk_ok f \<longleftrightarrow> write_room f = (\<lambda>_. None)"

text \<open>A name that can be opened: it is free, a file or an empty directory.\<close>

definition recoverable :: "string \<Rightarrow> fs \<Rightarrow> bool" where
  "recoverable path f \<longleftrightarrow> open_error f path = None
     \<and> (case names f path of None \<Rightarrow> True | Some i \<Rightarrow> nodes f i \<noteq> Some (Dir False))"

definition opened :: "string \<Rightarrow> nat \<Rightarrow> ino \<Rightarrow> buffer \<Rightarrow> buffer \<Rightarrow> rootsh \<Rightarrow> bool" where
  "opened path fd j old c g \<longleftrightarrow> logging c g \<and> disk_ok (files g) \<and> names (files g) path = Some j
     \<and> nodes (files g) j = Some (File old) \<and> fd \<noteq> logFile g
     \<and> fds (files g) fd = Some \<lparr>fd_ino = j, fd_off = 0, fd_append = False\<rparr>"

lemma logging_fd: "logging c g \<Longrightarrow> logFile g < next_fd (files g)"
proof (rule ccontr)
  assume log: "logging c g" and "\<not> logFile g < next_fd (files g)"
  then have "fds (files g) (logFile g) = None"
    using fs_invD(3) by (auto simp: logging_def)
  with log show False by (simp add: logging_def log_open_def)
qed

lemma forceopen_direct:
  assumes "logging c g" "disk_ok (files g)" "open_error (files g) path = None"
    "\<And>i b. names (files g) path = Some i \<Longrightarrow> nodes (files g) i \<noteq> Some (Dir b)"
  shows "\<exists>fd g' j old. forceopen h path tries g = (Inr (Some fd), g') \<and> same_vars g g'
    \<and> opened path fd j old c g'"
proof -
  from assms(1) have "fs_inv (files g)" by (simp add: logging_def)
  from sys_open_ok [OF this assms(3,4), of False] obtain f' j old where
    o: "sys_open path False (files g) = (Inr (next_fd (files g)), f')" "fs_inv f'"
      "fds f' (next_fd (files g)) = Some \<lparr>fd_ino = j, fd_off = 0, fd_append = False\<rparr>"
      "names f' path = Some j" "nodes f' j = Some (File old)"
      "write_room f' = write_room (files g)"
      "\<And>fd i c. log_open fd i c (files g) \<Longrightarrow> log_open fd i c f'"
    by blast
  with assms(1,2) logging_fd [OF assms(1)]
  have "opened path (next_fd (files g)) j old c (g\<lparr>files := f'\<rparr>)"
    by (simp add: opened_def logging_def disk_ok_def)
  moreover have "forceopen h path tries g = (Inr (Some (next_fd (files g))), g\<lparr>files := f'\<rparr>)"
    using o(1) by (simp add: forceopen.simps)
  ultimately show ?thesis using same_vars_intro(1) by blast
qed

lemma forceopen_ok:
  assumes log: "logging c g" and ok: "disk_ok (files g)" "recoverable path (files g)"
    and mem: "malloc_ok h = (\<lambda>_. True)"
  shows "\<exists>fd g' j old m. forceopen h path 0 g = (Inr (Some fd), g') \<and> same_vars g g'
    \<and> opened path fd j old (c @ m) g'"
proof (cases "\<exists>i. names (files g) path = Some i \<and> nodes (files g) i = Some (Dir True)")
  case False
  with ok(2) have "nodes (files g) i \<noteq> Some (Dir b)" if "names (files g) path = Some i" for i b
    using that by (cases b) (auto simp: recoverable_def)
  with forceopen_direct [OF log ok(1), of path h 0] ok(2) show ?thesis
    by (metis append_Nil2 recoverable_def)
next
  case True
  then obtain i where i: "names (files g) path = Some i" "nodes (files g) i = Some (Dir True)"
    by blast
  let ?msg = MSG_DIR_EXISTS
  let ?g1 = "g\<lparr>files := user_step (files g) (U_rmdir path)\<rparr>"
  have err: "open_error (files g) path = None" using ok(2) by (simp add: recoverable_def)
  from logging_user_step [OF log, of "U_rmdir path"] have "logging c ?g1" by simp
  from log_message_ok [OF this msg_lengths(2) mem] obtain g2 where
    g2: "log_message h ?msg ?g1 = (Inr (), g2)" "logging (c @ ?msg) g2" "same_session ?g1 g2"
    by blast
  have dir: "same_dir (user_step (files g) (U_rmdir path)) (files g2)" using g2(3)
    by (simp add: same_session_def)
  have free: "names (files g2) path = None" "open_error (files g2) path = None" "disk_ok (files g2)"
    using dir ok i err by (simp_all add: same_dir_def disk_ok_def sys_rmdir_def)
  from forceopen_direct [OF g2(2) free(3,2), of h 1] free(1) obtain fd g' j old where
    open2: "forceopen h path 1 g2 = (Inr (Some fd), g')" "same_vars g2 g'"
      "opened path fd j old (c @ ?msg) g'" by auto
  have "same_vars g g2"
    using g2(3) same_vars_trans [OF same_vars_intro(1)] by (auto simp: same_session_def)
  from this open2(2) have "same_vars g g'" by (rule same_vars_trans)
  moreover have "forceopen h path 0 g = (Inr (Some fd), g')"
    using sys_open_dir [OF err i] g2(1) open2(1) by (simp add: forceopen.simps [of h path 0])
  ultimately show ?thesis using open2(3) by blast
qed

section \<open>Recovering\<close>

lemma recover_opened:
  assumes "forceopen h path 0 g = (Inr (Some fd), g1)" "same_vars g g1" "opened path fd j old c g1"
  shows "\<exists>g'. recoverfile h (logFile g) path g = (Inr True, g') \<and> same_vars g g'
    \<and> logging c g' \<and> disk_ok (files g') \<and> names (files g') path = Some j
    \<and> nodes (files g') j = Some (File (c @ drop (length c)
        (if (logDev g, logInode g) = j then c else old)))"
proof -
  note o = assms
  let ?r = "logFile g" and ?i = "(logDev g, logInode g)" and ?c = c
  let ?g2 = "g1\<lparr>files := sys_rewind ?r (files g1)\<rparr>"
  note v = same_vars_simps [OF o(2)]
  from o(3) v have "log_open ?r ?i ?c (files g1)" and inv1: "fs_inv (files g1)"
    by (auto simp: opened_def logging_def)
  then obtain d where d: "fds (files g1) ?r = Some d" "fd_ino d = ?i" "fd_append d"
    "nodes (files g1) ?i = Some (File ?c)"
    by (auto simp: log_open_def)
  let ?old = "if ?i = j then ?c else old"
  have "copying ?r fd ?i j ?c ?old 0 (files ?g2)"
  proof -
    have "fs_inv (files ?g2)"
      using inv1 d(1) unfolding fs_inv_def by (auto simp: sys_rewind_def)
    with o(3) d v show ?thesis
      by (auto simp: copying_def opened_def disk_ok_def sys_rewind_def)
  qed
  then have "copy_inv ?r fd ?i j ?c ?old ?g2 ?g2" by (auto simp: copy_inv_def)
  from recovery.copy_returns [OF this] obtain g3 k where
    g3: "copy_loop (read_block ?r) (write_block fd) ?g2 = Some g3" "same_session ?g2 g3"
      "copying ?r fd ?i j ?c ?old k (files g3)" "left_to_copy ?r ?c (files g3) = []"
      "syslogs g3 = syslogs g1"
    by (auto simp: copy_inv_def)
  from left_copying [OF g3(3)] g3(3,4) have k: "k = length ?c" by (auto simp: copying_def)
  let ?g4 = "g3\<lparr>files := sys_close fd (files g3)\<rparr>"
  have "recoverfile h ?r path g = (Inr True, ?g4)"
    using o(1) g3(1) by (simp add: recoverfile_def)
  moreover have "same_vars g ?g4"
    using o(2) g3(2) same_vars_intro(1) unfolding same_session_def by (meson same_vars_trans)
  moreover from this have v4: "opts ?g4 = opts g1" "logFile ?g4 = ?r" "logDev ?g4 = logDev g"
    "logInode ?g4 = logInode g"
    by (simp_all only: v same_vars_simps [of g ?g4])
  have "logging ?c ?g4"
  proof -
    have "fs_inv (files ?g4)"
      using g3(3) unfolding copying_def fs_inv_def by (auto simp: sys_close_def)
    moreover have "w2s_inv (syslogs ?g4)"
      using o(3) g3(5) by (simp add: opened_def logging_def)
    ultimately show ?thesis using v4 o(3) g3(3)
      by (simp add: opened_def logging_def log_open_def copying_def sys_close_def)
  qed
  moreover have "names (files ?g4) path = Some j" "disk_ok (files ?g4)"
    using g3(2) o(3) by (auto simp: same_session_def same_dir_def opened_def disk_ok_def
        sys_close_def sys_rewind_def split: option.splits)
  moreover have "nodes (files ?g4) j = Some (File (c @ drop (length ?c) ?old))"
    using g3(3) k by (simp add: copying_def sys_close_def)
  ultimately show ?thesis by blast
qed

lemma recoverfile_ok:
  assumes log: "logging c g" and ok: "disk_ok (files g)" "recoverable path (files g)"
    and mem: "malloc_ok h = (\<lambda>_. True)"
  shows "\<exists>g' j old m. recoverfile h (logFile g) path g = (Inr True, g') \<and> same_vars g g'
    \<and> logging (c @ m) g' \<and> disk_ok (files g') \<and> names (files g') path = Some j
    \<and> nodes (files g') j = Some (File (c @ m @ old))"
proof -
  from forceopen_ok [OF assms] obtain fd g1 j old m where
    "forceopen h path 0 g = (Inr (Some fd), g1)" "same_vars g g1" "opened path fd j old (c @ m) g1"
    by blast
  from recover_opened [OF this] show ?thesis by (metis append.assoc)
qed

section \<open>When recovery fails\<close>

text \<open>The name cannot be opened and the call that should make room for it changes nothing.\<close>

lemma forceopen_fails:
  assumes log: "logging c g" and mem: "malloc_ok h = (\<lambda>_. True)"
    and err: "\<And>f. names f = names (files g) \<Longrightarrow> open_error f = open_error (files g) \<Longrightarrow>
        (\<forall>i. nodes f i = nodes (files g) i \<or> i = (logDev g, logInode g)) \<Longrightarrow>
        sys_open path False f = (Inl e, f)"
    and msg: "e = EISDIR \<and> m = MSG_DIR_EXISTS
        \<and> (\<exists>i. names (files g) path = Some i \<and> nodes (files g) i = Some (Dir False))
      \<or> (\<exists>n. e = EOTHER n \<and> m = ''*** FILE COULD NOT BE CREATED (ERRNO '' @ dec n @ '')  ***'' @ CRLF)"
    and len: "length m \<le> BUFSIZ - 2"
  shows "\<exists>g'. forceopen h path 0 g = (Inr None, g') \<and> logging (c @ m @ m) g' \<and> same_session g g'"
proof -
  have step: "\<exists>g2. forceopen h path k g1 = forceopen h path (Suc k) g2 \<and> logging (d @ m) g2
      \<and> same_session g g2 \<and> log_frame g g2"
    if k: "k < 2" and g1: "logging d g1" "same_session g g1" "log_frame g g1" for k d g1
  proof -
    have v: "logDev g1 = logDev g" "logInode g1 = logInode g" "names (files g1) = names (files g)"
      "open_error (files g1) = open_error (files g)"
      using g1(2) by (auto simp: same_session_def same_dir_def same_vars_simps)
    have frame: "\<forall>i. nodes (files g1) i = nodes (files g) i \<or> i = (logDev g, logInode g)"
      using g1(3) unfolding log_frame_def by blast
    from log_message_ok [OF g1(1) len mem] obtain g2 where
      g2: "log_message h m g1 = (Inr (), g2)" "logging (d @ m) g2" "same_session g1 g2" "log_frame g1 g2"
      by blast
    have rmdir: "snd (sys_rmdir path (files g1)) = files g1" if "e = EISDIR"
    proof -
      from msg that obtain i where i: "names (files g) path = Some i" "nodes (files g) i = Some (Dir False)"
        by auto
      have "nodes (files g1) i = Some (Dir False)"
        using frame i log by (metis fst_conv log_open_def logging_def node.distinct(1) option.inject)
      with i v show ?thesis by (simp add: sys_rmdir_def)
    qed
    have "forceopen h path k g1 = forceopen h path (Suc k) g2"
      using err [OF v(3,4) frame] msg rmdir g2(1) k
      by (subst forceopen.simps) auto
    moreover have "same_session g g2" using g1(2) g2(3) by (rule same_session_trans)
    moreover have "log_frame g g2"
      using g1(3) g2(4) v unfolding log_frame_def by simp
    ultimately show ?thesis using g2(2) by blast
  qed
  have "log_frame g g" by (simp add: log_frame_def)
  from step [of 0, OF _ log same_session_refl this] obtain g1 where
    g1: "forceopen h path 0 g = forceopen h path 1 g1" "logging (c @ m) g1" "same_session g g1"
      "log_frame g g1" by auto
  from step [of 1, OF _ g1(2-4)] obtain g2 where
    g2: "forceopen h path 1 g1 = forceopen h path 2 g2" "logging (c @ m @ m) g2" "same_session g g2"
      "log_frame g g2" by (auto simp: numeral_2_eq_2)
  have "names (files g2) = names (files g)" "open_error (files g2) = open_error (files g)"
    using g2(3) by (simp_all add: same_session_def same_dir_def)
  moreover have "\<forall>i. nodes (files g2) i = nodes (files g) i \<or> i = (logDev g, logInode g)"
    using g2(4) unfolding log_frame_def by blast
  ultimately have "forceopen h path 2 g2 = (Inr None, g2)"
    using err by (simp add: forceopen.simps [of h path 2])
  with g1(1) g2 show ?thesis by auto
qed

text \<open>Copying onto a device that refuses every write.\<close>

definition copying_in_vain :: "nat \<Rightarrow> nat \<Rightarrow> ino \<Rightarrow> ino \<Rightarrow> buffer \<Rightarrow> buffer \<Rightarrow> rootsh \<Rightarrow> bool" where
  "copying_in_vain r w i j c old g \<longleftrightarrow> r \<noteq> w \<and> write_room (files g) j = Some 0
     \<and> nodes (files g) i = Some (File c) \<and> nodes (files g) j = Some (File old)
     \<and> (\<exists>d. fds (files g) r = Some d \<and> fd_ino d = i)
     \<and> (\<exists>d. fds (files g) w = Some d \<and> fd_ino d = j)"

interpretation vain_recovery: block_copy "read_block r" "write_block w" "copying_in_vain r w i j c old"
  "\<lambda>g. left_to_copy r c (files g)" for r w i j c old
proof
  fix g g'
  assume inv: "copying_in_vain r w i j c old g" and rd: "read_block r g = ([], g')"
  then obtain d where d: "fds (files g) r = Some d" "fd_ino d = i" "nodes (files g) i = Some (File c)"
    by (auto simp: copying_in_vain_def)
  with rd have "drop (fd_off d) c = []"
    by (auto simp: read_block_def sys_read_def BUFSIZ_def Let_def)
  with rd d inv show "copying_in_vain r w i j c old g' \<and> left_to_copy r c (files g') = []"
    by (auto simp: read_block_def sys_read_def copying_in_vain_def left_to_copy_def Let_def)
next
  fix g b g'
  assume inv: "copying_in_vain r w i j c old g" and rd: "read_block r g = (b, g')" and b: "b \<noteq> []"
  then obtain d where d: "fds (files g) r = Some d" "fd_ino d = i" "nodes (files g) i = Some (File c)"
    by (auto simp: copying_in_vain_def)
  from rd d have b': "b = take BUFSIZ (drop (fd_off d) c)" and g': "g' = g\<lparr>files := (files g)
      \<lparr>fds := (fds (files g))(r \<mapsto> d\<lparr>fd_off := fd_off d + length b\<rparr>)\<rparr>\<rparr>"
    by (auto simp: read_block_def sys_read_def Let_def)
  from inv have "write_block w g' b = print_error ''write recoverfile'' g'"
    by (auto simp: write_block_def sys_write_def copying_in_vain_def g')
  moreover have "length c - (fd_off d + length b) < length c - fd_off d"
  proof -
    have "0 < length b" "length b \<le> length c - fd_off d" using b b' by auto
    then show ?thesis by linarith
  qed
  ultimately show "copying_in_vain r w i j c old (write_block w g' b)
      \<and> length (left_to_copy r c (files (write_block w g' b))) < length (left_to_copy r c (files g))"
    using inv d by (auto simp: copying_in_vain_def left_to_copy_def g' print_error_def)
qed

section \<open>The end of a session\<close>

text \<open>The log still has its name.\<close>

definition name_intact :: "rootsh \<Rightarrow> bool" where
  "name_intact g \<longleftrightarrow> names (files g) (logFileName g) = Some (logDev g, logInode g)"

lemma logging_fstat: "logging c g \<Longrightarrow> sys_fstat (logFile g) (files g) = Some (logDev g, logInode g)"
  by (auto simp: logging_def log_open_def sys_fstat_def)

lemma examine_intact: "logging c g \<Longrightarrow> name_intact g \<Longrightarrow> examine_log g = ([], files g)"
  using logging_fstat by (simp add: examine_log_def name_intact_def sys_stat_def)

lemma examine_tampered:
  assumes "logging c g" "\<not> name_intact g"
  shows "\<exists>msg acts. examine_log g = (msg, foldl user_step (files g) acts) \<and> msg \<noteq> []
    \<and> length msg \<le> BUFSIZ - 2 \<and> list_all names_only acts
    \<and> set acts \<subseteq> {U_unlink (logFileName g), U_rmdir (logFileName g)}"
proof (cases "names (files g) (logFileName g)")
  case None
  with logging_fstat [OF assms(1)] show ?thesis
    by (intro exI [of _ MSG_DELETED] exI [of _ "[]"])
      (simp add: examine_log_def sys_stat_def msg_lengths msg_nonempty)
next
  case (Some st)
  with assms(2) have "logInode g \<noteq> snd st \<or> logDev g \<noteq> fst st"
    by (auto simp: name_intact_def)
  moreover obtain ok f where u: "sys_unlink (logFileName g) (files g) = (ok, f)"
    by (cases "sys_unlink (logFileName g) (files g)")
  ultimately have "examine_log g = (MSG_RECREATED,
      if \<not> ok then snd (sys_rmdir (logFileName g) f) else f)"
    using Some by (simp add: examine_log_def sys_stat_def)
  with u show ?thesis
    by (intro exI [of _ MSG_RECREATED]
        exI [of _ "if ok then [U_unlink (logFileName g)]
          else [U_unlink (logFileName g), U_rmdir (logFileName g)]"])
      (simp add: msg_lengths msg_nonempty)
qed

text \<open>The steps that remove a name leave every other name and every file alone.\<close>

lemma removing_frame:
  assumes "set acts \<subseteq> {U_unlink p, U_rmdir p}"
  shows "nodes (foldl user_step f acts) = nodes f \<and> open_error (foldl user_step f acts) = open_error f
    \<and> write_room (foldl user_step f acts) = write_room f
    \<and> (\<forall>q. q \<noteq> p \<longrightarrow> names (foldl user_step f acts) q = names f q)"
  using assms
proof (induction acts arbitrary: f)
  case Nil
  show ?case by simp
next
  case (Cons a acts)
  then have "nodes (user_step f a) = nodes f" "open_error (user_step f a) = open_error f"
    "write_room (user_step f a) = write_room f" "\<forall>q. q \<noteq> p \<longrightarrow> names (user_step f a) q = names f q"
    by (auto simp: sys_unlink_def sys_rmdir_def split: option.splits node.splits bool.splits)
  with Cons show ?case by simp
qed

text \<open>
  What holds when the log has been closed: some name refers to a file that starts with \<open>c\<close>.
\<close>

definition kept_as :: "string \<Rightarrow> buffer \<Rightarrow> fs \<Rightarrow> bool" where
  "kept_as q c f \<longleftrightarrow> (\<exists>j rest. names f q = Some j \<and> nodes f j = Some (File (c @ rest)))"

lemma kept_as_same_dir_log:
  assumes "kept_as q c (files g)" "logging (c @ m) g" "logging (c @ m @ n) g'" "log_frame g g'"
    "same_session g g'"
  shows "kept_as q c (files g')"
proof -
  from assms(1) obtain j rest where j: "names (files g) q = Some j"
    "nodes (files g) j = Some (File (c @ rest))" by (auto simp: kept_as_def)
  from assms(5) have v: "names (files g') = names (files g)" "logDev g' = logDev g"
    "logInode g' = logInode g"
    by (auto simp: same_session_def same_dir_def same_vars_simps)
  show ?thesis
  proof (cases "j = (logDev g, logInode g)")
    case True
    with assms(3) v have "nodes (files g') j = Some (File (c @ m @ n))"
      by (simp add: logging_def log_open_def)
    with j v show ?thesis by (auto simp: kept_as_def)
  next
    case False
    with assms(4) have "nodes (files g') j = nodes (files g) j"
      unfolding log_frame_def by blast
    with j v show ?thesis by (auto simp: kept_as_def)
  qed
qed

lemma kept_as_close [simp]: "kept_as q c (sys_close fd f) = kept_as q c f"
  by (simp add: kept_as_def sys_close_def)

lemma recoverable_iff: "recoverable p f \<longleftrightarrow> open_error f p = None
    \<and> \<not> (\<exists>i. names f p = Some i \<and> nodes f i = Some (Dir False))"
  by (cases "names f p") (simp_all add: recoverable_def)

lemma recoverable_same_dir_log:
  assumes "recoverable p (files g)" "logging c g'" "log_frame g g'" "same_session g g'"
  shows "recoverable p (files g')"
proof -
  from assms(4) have v: "names (files g') = names (files g)" "logDev g' = logDev g"
    "logInode g' = logInode g" "open_error (files g') = open_error (files g)"
    by (auto simp: same_session_def same_dir_def same_vars_simps)
  have "nodes (files g') i \<noteq> Some (Dir False)" if "nodes (files g) i \<noteq> Some (Dir False)" for i
  proof (cases "i = (logDev g, logInode g)")
    case True
    with assms(2) v show ?thesis by (simp add: logging_def log_open_def)
  next
    case False
    with assms(3) have "nodes (files g') i = nodes (files g) i"
      unfolding log_frame_def by blast
    with that show ?thesis by simp
  qed
  with assms(1) v show ?thesis unfolding recoverable_iff by metis
qed

lemma close_log_tampered:
  assumes log: "logging c g" and tampered: "\<not> name_intact g"
    and ok: "disk_ok (files g)" "recoverable (logFileName g @ ''.tampered'') (files g)"
    and mem: "malloc_ok h = (\<lambda>_. True)"
    and len: "length (logFileName g) + 19 \<le> MAXPATHLEN" "length (closed_text h g) \<le> BUFSIZ - 2"
  shows "\<exists>g'. close_log h g = (Inr True, g') \<and> opts g' = opts g \<and> w2s_inv (syslogs g')
    \<and> kept_as (logFileName g @ ''.tampered'') (c @ closed_text h g) (files g')"
proof -
  let ?p = "logFileName g" and ?t = "logFileName g @ ''.tampered''"
  let ?c = "c @ closed_text h g"
  from write_message_ok [OF log len(2), of h] obtain g1 where
    g1: "write_message h (closed_text h g) g = (Inr (int (length (closed_text h g))), g1)"
      "logging ?c g1" "same_session g g1" "log_frame g g1" by blast
  then have v1: "opts g1 = opts g" "logFileName g1 = ?p" "same_dir (files g) (files g1)"
    "\<not> name_intact g1"
    using tampered by (auto simp: same_session_def same_vars_simps name_intact_def same_dir_def)
  from examine_tampered [OF g1(2) v1(4)] obtain msg acts where
    ex: "examine_log g1 = (msg, foldl user_step (files g1) acts)" "msg \<noteq> []"
      "length msg \<le> BUFSIZ - 2" "list_all names_only acts" "set acts \<subseteq> {U_unlink ?p, U_rmdir ?p}"
    by (auto simp: v1)
  let ?g2 = "g1\<lparr>files := foldl user_step (files g1) acts\<rparr>"
  have ok2: "disk_ok (files ?g2)" "recoverable ?t (files ?g2)"
    using ok(1) v1(3) removing_frame [OF ex(5), of "files g1"]
      recoverable_same_dir_log [OF ok(2) g1(2,4,3)]
    by (simp_all add: disk_ok_def recoverable_iff same_dir_def)
  have log2: "logging ?c ?g2" by (rule logging_user_steps [OF g1(2) ex(4)])
  from log_message_ok [OF log2 ex(3) mem] obtain g3 where
    g3: "log_message h msg ?g2 = (Inr (), g3)" "logging (?c @ msg) g3" "same_session ?g2 g3"
      "log_frame ?g2 g3"
    by blast
  have v3: "opts g3 = opts g" "logFileName g3 = ?p" "logFile g3 = logFile g1"
      "same_dir (files ?g2) (files g3)"
    using g3(3) v1 same_vars_simps [of ?g2 g3] by (simp_all add: same_session_def)
  let ?g4 = "g3\<lparr>logFileName := ?t\<rparr>"
  have str: "append_tampered g3 = (Inr (), ?g4)"
    using len(1) by (simp add: append_tampered_def v3)
  have "logging (?c @ msg) ?g4" using g3(2) by (simp add: logging_def)
  moreover have "disk_ok (files ?g4)" "recoverable ?t (files ?g4)"
    using ok2 v3(4) recoverable_same_dir_log [OF ok2(2) g3(2,4,3)]
    by (simp_all add: disk_ok_def same_dir_def)
  ultimately obtain g5 j old m where
    rec: "recoverfile h (logFile ?g4) ?t ?g4 = (Inr True, g5)" "same_vars ?g4 g5"
      "logging ((?c @ msg) @ m) g5" "names (files g5) ?t = Some j"
      "nodes (files g5) j = Some (File ((?c @ msg) @ m @ old))"
    using recoverfile_ok [of "?c @ msg" ?g4 ?t h] mem by blast
  from log_message_ok [OF rec(3) msg_lengths(7) mem] obtain g6 where
    g6: "log_message h MSG_RECOVERED g5 = (Inr (), g6)" "logging (((?c @ msg) @ m) @ MSG_RECOVERED) g6"
      "same_session g5 g6" "log_frame g5 g6"
    by blast
  have "kept_as ?t ?c (files g5)" using rec(4,5) by (auto simp: kept_as_def)
  then have kept: "kept_as ?t ?c (files g6)"
    using kept_as_same_dir_log [of ?t ?c g5 "msg @ m" MSG_RECOVERED g6] rec(3) g6 by simp
  let ?g7 = "g6\<lparr>files := sys_close (logFile g6) (files g6)\<rparr>"
  have "close_log h g = (Inr True, ?g7)"
    using g1(1) ex(1,2) g3(1) str rec(1) g6(1) by (simp add: close_log_def)
  moreover have "opts g6 = opts g"
    using g6(3) same_vars_simps(1) [of g5 g6] same_vars_simps(1) [OF rec(2)] v3(1)
    by (simp add: same_session_def)
  moreover have "w2s_inv (syslogs g6)" using g6(2) by (simp add: logging_def)
  ultimately show ?thesis using kept by simp
qed

text \<open>A log whose name is intact is renamed; the rename can fail only if the new name is taken
  by a directory.\<close>

lemma close_log_intact:
  assumes log: "logging c g" and intact: "name_intact g"
    and len: "length (closed_text h g) \<le> BUFSIZ - 2"
  shows "\<exists>g'. close_log h g = (Inr True, g') \<and> opts g' = opts g \<and> w2s_inv (syslogs g')
    \<and> (kept_as (snprintf_text MAXPATHLEN (logFileName g @ ''.closed'')) (c @ closed_text h g) (files g')
       \<or> kept_as (logFileName g) (c @ closed_text h g) (files g'))
    \<and> (names (files g) (snprintf_text MAXPATHLEN (logFileName g @ ''.closed'')) = None \<longrightarrow>
       names (files g') = (names (files g))(logFileName g := None,
         snprintf_text MAXPATHLEN (logFileName g @ ''.closed'') \<mapsto> (logDev g, logInode g))
       \<and> nodes (files g') (logDev g, logInode g) = Some (File (c @ closed_text h g)))"
proof -
  let ?p = "logFileName g"
  let ?c = "c @ closed_text h g"
  from write_message_ok [OF log len, of h] obtain g1 where
    g1: "write_message h (closed_text h g) g = (Inr (int (length (closed_text h g))), g1)"
      "logging ?c g1" "same_session g g1" by blast
  then have v1: "opts g1 = opts g" "logFileName g1 = ?p" "name_intact g1"
    using intact by (auto simp: same_session_def same_vars_simps name_intact_def same_dir_def)
  let ?f = "sys_close (logFile g1) (files g1)"
  let ?q = "snprintf_text MAXPATHLEN (?p @ ''.closed'')"
  let ?g2 = "g1\<lparr>files := snd (sys_rename ?p ?q ?f)\<rparr>"
  have "close_log h g = (Inr True, ?g2)"
    using g1(1) examine_intact [OF g1(2) v1(3)] by (simp add: close_log_def v1 Let_def)
  moreover have "w2s_inv (syslogs ?g2)" using g1(2) by (simp add: logging_def)
  moreover have "kept_as ?q ?c (files ?g2) \<or> kept_as ?p ?c (files ?g2)"
    using g1(2) v1(3)
    by (auto simp: kept_as_def sys_rename_def sys_close_def name_intact_def v1 logging_def
        log_open_def split: option.splits node.splits)
  moreover have "names (files ?g2) = (names (files g))(?p := None, ?q \<mapsto> (logDev g, logInode g))
      \<and> nodes (files ?g2) (logDev g, logInode g) = Some (File ?c)"
    if free: "names (files g) ?q = None"
  proof -
    have same: "names (files g1) = names (files g)" "logDev g1 = logDev g" "logInode g1 = logInode g"
      using g1(3) same_vars_simps [of g g1] by (simp_all add: same_session_def same_dir_def)
    have "?p \<noteq> ?q" using free intact by (auto simp: name_intact_def)
    with g1(2) v1(3) free show ?thesis
      by (simp add: sys_rename_def sys_close_def name_intact_def v1 same logging_def log_open_def)
  qed
  ultimately show ?thesis using v1(1) by simp
qed

lemma endlogging_closed:
  assumes "logtofile (opts g)" "close_log h g = (Inr True, g')" "opts g' = opts g"
    "w2s_inv (syslogs g')" "malloc_ok h = (\<lambda>_. True)"
  shows "\<exists>g''. endlogging h g = (Inr (), g'') \<and> files g'' = files g'"
  using assms by (auto simp: endlogging_def write2syslog_refines)

end
