(* ===== verification/Log_Session.thy ===== *)
theory Log_Session
  imports Log_Files
begin

text \<open>
  A log over a whole session: it is opened, output and the doings of the user arrive in any
  order, and it is closed. The properties of the log files.
\<close>

section \<open>Opening\<close>

definition begin_user :: "host \<Rightarrow> rootsh \<Rightarrow> string option option" where
  "begin_user h g = (case runAsUser g of Some u \<Rightarrow> Some (Some u)
     | None \<Rightarrow> map_option pw_name (getpwuid h (getuid h)))"

definition command_text :: "string option \<Rightarrow> string" where
  "command_text cmds = (case cmds of None \<Rightarrow> [] | Some c \<Rightarrow> ''shell commands: '' @ c @ [LF])"

text \<open>What the file of that name holds.\<close>

definition old_contents :: "fs \<Rightarrow> string \<Rightarrow> buffer" where
  "old_contents f p = (case names f p of None \<Rightarrow> []
     | Some i \<Rightarrow> (case nodes f i of Some (File d) \<Rightarrow> d | _ \<Rightarrow> []))"

definition can_open :: "fs \<Rightarrow> string \<Rightarrow> bool" where
  "can_open f p \<longleftrightarrow> open_error f p = None
     \<and> (case names f p of None \<Rightarrow> True
        | Some i \<Rightarrow> (case nodes f i of Some (Dir b) \<Rightarrow> False | _ \<Rightarrow> True))"

lemma w2s_inv_syslog [simp]: "w2s_inv (syslog p m s) = w2s_inv s"
  by (simp add: w2s_inv_def syslog_def pending_def)

lemma open_log_ok:
  assumes "fs_inv (files g)" "w2s_inv (syslogs g)" "disk_ok (files g)" "logtofile (opts g)"
    "can_open (files g) (choose_log_name h g)" "length (opened_text h user g) \<le> BUFSIZ - 2"
  shows "\<exists>g'. open_log h user g = (Inr True, g') \<and> disk_ok (files g') \<and> name_intact g'
    \<and> logging (old_contents (files g) (choose_log_name h g) @ opened_text h user g) g'
    \<and> logFileName g' = choose_log_name h g \<and> opts g' = opts g
    \<and> progName g' = progName g \<and> userName g' = userName g
    \<and> open_error (files g') = open_error (files g)
    \<and> (\<forall>q. q \<noteq> choose_log_name h g \<longrightarrow> names (files g') q = names (files g) q)"
proof -
  let ?p = "choose_log_name h g"
  have "nodes (files g) i \<noteq> Some (Dir b)" if "names (files g) ?p = Some i" for i b
    using assms(5) that by (cases "nodes (files g) i") (auto simp: can_open_def split: node.splits)
  moreover have "open_error (files g) ?p = None" using assms(5) by (simp add: can_open_def)
  ultimately obtain f' j where
    o: "sys_open ?p True (files g) = (Inr (next_fd (files g)), f')" "fs_inv f'"
      "fds f' (next_fd (files g)) = Some \<lparr>fd_ino = j, fd_off = 0, fd_append = True\<rparr>"
      "names f' ?p = Some j" "nodes f' j = Some (File (old_contents (files g) ?p))"
      "write_room f' = write_room (files g)" "open_error f' = open_error (files g)"
      "\<forall>q. q \<noteq> ?p \<longrightarrow> names f' q = names (files g) q"
    using sys_open_ok [OF assms(1), of ?p True] unfolding old_contents_def by metis
  let ?g1 = "g\<lparr>logFileName := ?p, files := f', logFile := next_fd (files g),
    logInode := snd j, logDev := fst j\<rparr>"
  have log1: "logging (old_contents (files g) ?p) ?g1"
    using o assms(2,3,4) by (simp add: logging_def log_open_def disk_ok_def)
  have same_text: "opened_text h user ?g1 = opened_text h user g"
    by (simp add: opened_text_def login_text_def)
  from write_message_ok [OF log1 assms(6), of h] obtain g2 where
    g2: "write_message h (opened_text h user ?g1) ?g1 = (Inr (int (length (opened_text h user g))), g2)"
      "logging (old_contents (files g) ?p @ opened_text h user g) g2" "same_session ?g1 g2"
    by (auto simp: same_text)
  have "open_log h user g = (Inr True, g2)"
    using o(1,3) g2(1) by (simp add: open_log_def sys_fstat_def Let_def)
  moreover have "name_intact g2" "disk_ok (files g2)" "logFileName g2 = ?p" "opts g2 = opts g"
    "progName g2 = progName g" "userName g2 = userName g"
    "open_error (files g2) = open_error (files g)"
    "\<forall>q. q \<noteq> ?p \<longrightarrow> names (files g2) q = names (files g) q"
    using g2(3) o(4,6-8) assms(3) same_vars_simps [of ?g1 g2]
    by (simp_all add: same_session_def same_dir_def name_intact_def disk_ok_def)
  ultimately show ?thesis using g2(2) by blast
qed

lemma beginlogging_ok:
  assumes "fs_inv (files g)" "w2s_inv (syslogs g)" "disk_ok (files g)" "logtofile (opts g)"
    "can_open (files g) (choose_log_name h g)" "begin_user h g = Some user"
    "length (opened_text h user g) \<le> BUFSIZ - 2" "length (command_text cmds) \<le> BUFSIZ - 2"
    "malloc_ok h = (\<lambda>_. True)"
  shows "\<exists>g'. beginlogging h cmds g = (Inr True, g') \<and> disk_ok (files g') \<and> name_intact g'
    \<and> logging (old_contents (files g) (choose_log_name h g) @ opened_text h user g
        @ command_text cmds) g'
    \<and> logFileName g' = choose_log_name h g \<and> opts g' = opts g
    \<and> progName g' = progName g \<and> userName g' = userName g
    \<and> open_error (files g') = open_error (files g)
    \<and> (\<forall>q. q \<noteq> choose_log_name h g \<longrightarrow> names (files g') q = names (files g) q)"
proof -
  let ?p = "choose_log_name h g"
  let ?c = "old_contents (files g) ?p @ opened_text h user g"
  from open_log_ok [OF assms(1-5,7)] obtain g1 where
    g1: "open_log h user g = (Inr True, g1)" "disk_ok (files g1)" "name_intact g1" "logging ?c g1"
      "logFileName g1 = ?p" "opts g1 = opts g"
      "progName g1 = progName g" "userName g1 = userName g" "open_error (files g1) = open_error (files g)"
      "\<forall>q. q \<noteq> ?p \<longrightarrow> names (files g1) q = names (files g) q"
    by blast
  define g2 where "g2 = (if logtosyslog (opts g) then open_syslog h user g1 else g1)"
  have g2: "disk_ok (files g2)" "name_intact g2" "logging ?c g2" "logFileName g2 = ?p"
    "opts g2 = opts g" "progName g2 = progName g" "userName g2 = userName g" "open_error (files g2) = open_error (files g)"
    "\<forall>q. q \<noteq> ?p \<longrightarrow> names (files g2) q = names (files g) q"
    using g1 by (simp_all add: g2_def open_syslog_def logging_def name_intact_def Let_def)
  have b: "beginlogging h cmds g = (case cmds of None \<Rightarrow> (Inr True, g2)
      | Some cmds \<Rightarrow> bindM (log_message h (''shell commands: '' @ cmds @ [LF])) (\<lambda>_ g. (Inr True, g)) g2)"
    using assms(4,6) g1 by (simp add: beginlogging_def begin_user_def g2_def Let_def split: option.split)
  show ?thesis
  proof (cases cmds)
    case None
    with b g2 show ?thesis by (simp add: command_text_def)
  next
    case (Some d)
    then have m: "command_text cmds = ''shell commands: '' @ d @ [LF]" by (simp add: command_text_def)
    from log_message_ok [OF g2(3) assms(8,9)] obtain g3 where
      g3: "log_message h (command_text cmds) g2 = (Inr (), g3)" "logging (?c @ command_text cmds) g3"
        "same_session g2 g3" by blast
    have "beginlogging h cmds g = (Inr True, g3)" using b g3(1) unfolding m by (simp add: Some)
    moreover have "name_intact g3" "disk_ok (files g3)" "logFileName g3 = ?p" "opts g3 = opts g"
      "progName g3 = progName g" "userName g3 = userName g"
      "open_error (files g3) = open_error (files g)"
      "\<forall>q. q \<noteq> ?p \<longrightarrow> names (files g3) q = names (files g) q"
      using g3(3) g2 same_vars_simps [of g2 g3]
      by (simp_all add: same_session_def same_dir_def name_intact_def disk_ok_def)
    ultimately show ?thesis using g3(2) by (metis append.assoc)
  qed
qed

section \<open>The log file as a sink\<close>

text \<open>The contents of the file the log descriptor refers to.\<close>

definition log_contents :: "rootsh \<Rightarrow> buffer" where
  "log_contents g = (case nodes (files g) (logDev g, logInode g) of Some (File c) \<Rightarrow> c | _ \<Rightarrow> [])"

lemma logging_contents: "logging c g \<Longrightarrow> log_contents g = c"
  by (simp add: logging_def log_open_def log_contents_def)

text \<open>A session in progress, and the call of \<open>dologging\<close> for a block read from the terminal.\<close>

definition in_session :: "rootsh \<Rightarrow> bool" where
  "in_session g \<longleftrightarrow> logging (log_contents g) g"

definition log_put :: "host \<Rightarrow> rootsh \<Rightarrow> buffer \<Rightarrow> rootsh" where
  "log_put h g chunk = snd (dologging h chunk (length chunk) g)"

lemma log_put_ok:
  assumes "logging c g" "malloc_ok h = (\<lambda>_. True)"
  shows "logging (c @ chunk) (log_put h g chunk)" "same_session g (log_put h g chunk)"
  using dologging_ok [OF assms(1) le_refl assms(2), of chunk] by (auto simp: log_put_def)

definition roomy :: "host \<Rightarrow> host" where
  "roomy h = h\<lparr>malloc_ok := (\<lambda>_. True)\<rparr>"

lemma malloc_roomy [simp]: "malloc_ok (roomy h) = (\<lambda>_. True)"
  by (simp add: roomy_def)

interpretation file_sink: chunk_sink "log_put (roomy h)" in_session "\<lambda>_. True" log_contents "\<lambda>c. c"
  for h
proof
  fix g and c :: buffer
  assume "in_session g"
  then have "logging (log_contents g @ c) (log_put (roomy h) g c)"
    by (simp add: in_session_def log_put_ok)
  moreover from this show "log_contents (log_put (roomy h) g c) = log_contents g @ c"
    by (rule logging_contents)
  ultimately show "in_session (log_put (roomy h) g c)" by (simp add: in_session_def)
qed simp_all

section \<open>Sessions with tampering\<close>

datatype log_event = Output buffer | Tamper user_act

fun log_step :: "host \<Rightarrow> rootsh \<Rightarrow> log_event \<Rightarrow> rootsh" where
  "log_step h g (Output b) = log_put h g b"
| "log_step h g (Tamper a) = g\<lparr>files := user_step (files g) a\<rparr>"

fun allowed_event :: "log_event \<Rightarrow> bool" where
  "allowed_event (Output b) = True"
| "allowed_event (Tamper a) = names_only a"

fun output_of :: "log_event \<Rightarrow> buffer" where
  "output_of (Output b) = b"
| "output_of (Tamper a) = []"

lemma log_step_ok:
  assumes "logging c g" "allowed_event e" "malloc_ok h = (\<lambda>_. True)"
  shows "logging (c @ output_of e) (log_step h g e) \<and> same_vars g (log_step h g e)
    \<and> write_room (files (log_step h g e)) = write_room (files g)"
proof (cases e)
  case (Output b)
  with log_put_ok [OF assms(1,3), of b] show ?thesis
    by (simp add: same_session_def same_dir_def)
next
  case (Tamper a)
  with assms show ?thesis using logging_user_step user_step_frame(3) by simp
qed

lemma log_steps_ok:
  assumes "logging c g" "list_all allowed_event es" "malloc_ok h = (\<lambda>_. True)"
  shows "logging (c @ concat (map output_of es)) (foldl (log_step h) g es)
    \<and> same_vars g (foldl (log_step h) g es)
    \<and> write_room (files (foldl (log_step h) g es)) = write_room (files g)"
  using assms(1,2)
proof (induction es arbitrary: c g)
  case Nil
  then show ?case by simp
next
  case (Cons e es)
  from log_step_ok [OF Cons.prems(1) _ assms(3), of e] Cons.prems(2)
  have e: "logging (c @ output_of e) (log_step h g e)" "same_vars g (log_step h g e)"
    "write_room (files (log_step h g e)) = write_room (files g)" by auto
  from Cons.IH [OF e(1)] Cons.prems(2) e(3) same_vars_trans [OF e(2)] show ?case by auto
qed

text \<open>Events that create nothing under a name leave it free.\<close>

fun spares :: "string \<Rightarrow> log_event \<Rightarrow> bool" where
  "spares t (Tamper (U_rename p q)) \<longleftrightarrow> q \<noteq> t"
| "spares t (Tamper (U_link p q)) \<longleftrightarrow> q \<noteq> t"
| "spares t (Tamper (U_create p c)) \<longleftrightarrow> p \<noteq> t"
| "spares t (Tamper (U_mkdir p b)) \<longleftrightarrow> p \<noteq> t"
| "spares t _ \<longleftrightarrow> True"

lemma user_step_spares:
  "spares t (Tamper a) \<Longrightarrow> names f t = None \<Longrightarrow> names (user_step f a) t = None"
  by (cases a) (auto simp: sys_defs Let_def split: option.splits node.splits bool.splits)

lemma log_step_spares:
  assumes "logging c g" "spares t e" "names (files g) t = None" "malloc_ok h = (\<lambda>_. True)"
  shows "names (files (log_step h g e)) t = None
    \<and> open_error (files (log_step h g e)) = open_error (files g)"
proof (cases e)
  case (Output b)
  with log_put_ok(2) [OF assms(1,4), of b] assms(3) show ?thesis
    by (simp add: same_session_def same_dir_def)
next
  case (Tamper a)
  with assms user_step_spares user_step_frame(2) show ?thesis by simp
qed

lemma spared_recoverable:
  assumes "logging c g" "list_all allowed_event es" "list_all (spares t) es"
    "names (files g) t = None" "open_error (files g) t = None" "malloc_ok h = (\<lambda>_. True)"
  shows "recoverable t (files (foldl (log_step h) g es))"
  using assms(1-5)
proof (induction es arbitrary: c g)
  case Nil
  then show ?case by (simp add: recoverable_def)
next
  case (Cons e es)
  then have "logging (c @ output_of e) (log_step h g e)"
    using log_step_ok [OF _ _ assms(6)] by simp
  with Cons log_step_spares [OF Cons.prems(1) _ Cons.prems(4) assms(6), of e] show ?case by simp
qed

section \<open>Closing\<close>

text \<open>The names the log can have after \<open>endlogging\<close>.\<close>

definition final_names :: "string \<Rightarrow> string set" where
  "final_names p = {p, p @ ''.closed'', p @ ''.tampered''}"

lemma endlogging_keeps:
  assumes "logging c g" "disk_ok (files g)" "recoverable (logFileName g @ ''.tampered'') (files g)"
    "malloc_ok h = (\<lambda>_. True)" "length (logFileName g) + 19 \<le> MAXPATHLEN"
    "length (closed_text h g) \<le> BUFSIZ - 2"
  shows "\<exists>g' q. endlogging h g = (Inr (), g') \<and> q \<in> final_names (logFileName g)
    \<and> kept_as q (c @ closed_text h g) (files g')"
proof -
  let ?p = "logFileName g"
  have closed: "snprintf_text MAXPATHLEN (?p @ ''.closed'') = ?p @ ''.closed''"
    using assms(5) by (simp add: snprintf_text_def)
  have on: "logtofile (opts g)" using assms(1) by (simp add: logging_def)
  show ?thesis
  proof (cases "name_intact g")
    case True
    from close_log_intact [OF assms(1) True assms(6)] obtain g3 where
      g3: "close_log h g = (Inr True, g3)" "opts g3 = opts g" "w2s_inv (syslogs g3)"
        "kept_as (?p @ ''.closed'') (c @ closed_text h g) (files g3)
         \<or> kept_as ?p (c @ closed_text h g) (files g3)"
      by (auto simp: closed)
    with endlogging_closed [OF on g3(1-3) assms(4)] show ?thesis
      by (fastforce simp: final_names_def)
  next
    case False
    from close_log_tampered [OF assms(1) False assms(2-6)] obtain g3 where
      g3: "close_log h g = (Inr True, g3)" "opts g3 = opts g" "w2s_inv (syslogs g3)"
        "kept_as (?p @ ''.tampered'') (c @ closed_text h g) (files g3)" by blast
    with endlogging_closed [OF on g3(1-3) assms(4)] show ?thesis
      by (fastforce simp: final_names_def)
  qed
qed

section \<open>A concrete host\<close>

definition root_entry :: passwd where
  "root_entry = \<lparr>pw_name = Some ''root'', pw_shell = Some ''/bin/bash''\<rparr>"

definition sample_host :: host where
  "sample_host = \<lparr>malloc_ok = (\<lambda>_. True), stack = (\<lambda>_. NUL), getpid = 4711, getuid = 0, geteuid = 0,
     getpwuid = (\<lambda>u. if u = 0 then Some root_entry else None),
     getpwnam = (\<lambda>n. if n = ''root'' then Some root_entry else None),
     ttyname0 = Some ''/dev/pts/1'', tty_owner = Some 0,
     localtime = \<lparr>tm_year = 104, tm_mon = 6, tm_mday = 9, tm_hour = 8, tm_min = 30, tm_sec = 5\<rparr>,
     ctime = ''Fri Jul  9 08:30:05 2004'' @ [LF], SHELLS_FILE = Some (''/bin/bash'' @ [LF])\<rparr>"

definition sample_fs :: fs where
  "sample_fs = \<lparr>names = (\<lambda>_. None), nodes = (\<lambda>_. None), next_ino = 1, fds = (\<lambda>_. None),
     next_fd = 3, device_of = (\<lambda>_. 8), open_error = (\<lambda>_. None), write_room = (\<lambda>_. None)\<rparr>"

definition sample_rootsh :: rootsh where
  "sample_rootsh = \<lparr>opts = linux_settings, progName = ''rootsh'', sessionId = ''rootsh[04711]'',
     logFile = 0, logInode = 0, logDev = 0, logFileName = [], userLogFileName = None,
     userLogFileDir = None, userName = ''root'', runAsUser = None, standalone = True,
     useLoginShell = False, isaLoginShell = False, environ = [''TERM=xterm''], senv = None, senvp = 0,
     usershells = init_shells, syslogs = init_w2s,
     openlog_ident = None, files = sample_fs, stderr_text = []\<rparr>"

text \<open>The same in a session, with the log open and something in it.\<close>

definition session_fs :: fs where
  "session_fs = sample_fs\<lparr>names := [''/l'' \<mapsto> (8, 1)], nodes := [(8, 1) \<mapsto> File ''a''], next_ino := 2,
     fds := [3 \<mapsto> \<lparr>fd_ino = (8, 1), fd_off = 0, fd_append = True\<rparr>], next_fd := 4\<rparr>"

definition sample_session :: rootsh where
  "sample_session = sample_rootsh\<lparr>logFile := 3, logInode := 1, logDev := 8, logFileName := ''/l'',
     files := session_fs\<rparr>"

lemmas sample_defs = sample_rootsh_def sample_fs_def sample_host_def root_entry_def
  linux_settings_def

lemma fs_inv_sample: "fs_inv sample_fs" "fs_inv session_fs"
  by (auto simp: fs_inv_def sample_fs_def session_fs_def split: if_splits)

lemma sample_session_simps [simp]:
  "opts sample_session = linux_settings" "logFile sample_session = 3"
  "logInode sample_session = 1" "logDev sample_session = 8" "logFileName sample_session = ''/l''"
  "files sample_session = session_fs" "syslogs sample_session = init_w2s"
  by (simp_all add: sample_session_def sample_rootsh_def)

lemma session_fs_simps [simp]:
  "nodes session_fs = [(8, 1) \<mapsto> File ''a'']" "names session_fs = [''/l'' \<mapsto> (8, 1)]"
  "fds session_fs = [3 \<mapsto> \<lparr>fd_ino = (8, 1), fd_off = 0, fd_append = True\<rparr>]"
  "write_room session_fs = (\<lambda>_. None)" "open_error session_fs = (\<lambda>_. None)"
  "next_fd session_fs = 4" "next_ino session_fs = 2"
  by (simp_all add: session_fs_def sample_fs_def)

lemma logging_sample: "logging ''a'' sample_session"
  using fs_inv_sample(2) init_w2s_inv
  by (simp add: logging_def log_open_def linux_settings_def)

lemma sample_host_malloc [simp]: "malloc_ok sample_host = (\<lambda>_. True)"
  by (simp add: sample_host_def)

lemma sample_numbers:
  "pad0 4 2004 = ''2004''" "pad0 2 7 = ''07''" "pad0 2 9 = ''09''" "pad0 2 8 = ''08''"
  "pad0 2 30 = ''30''" "pad0 2 5 = ''05''" "pad0 5 4711 = ''04711''"
  by (simp_all add: pad0_def dec.simps digit_chars)

lemma sample_name:
  "choose_log_name sample_host sample_rootsh = ''/var/log/rootsh/root.20040709083005.04711''"
  by (simp add: choose_log_name_def default_log_name_def sample_defs MAXPATHLEN_def sample_numbers
      Let_def)

section \<open>Properties\<close>

text \<open>C1: The log survives tampering with names, on a disk that takes everything: a session is opened,
  output and the user's doings arrive in any order, the user removing, renaming, linking and creating
  names (but not writing into the file), and the session is closed, when the recovery name, the
  log's with \<open>.tampered\<close>, is not blocked, the log's name is short enough for that and the
  messages fit their buffers. Then one of the log's name, that name with \<open>.closed\<close> and that
  with \<open>.tampered\<close> refers to a file that holds what the log's file held before, the opening
  message, the commands, all output and the closing message.\<close>

theorem session_log_survives:
  assumes "fs_inv (files g)" "w2s_inv (syslogs g)" "disk_ok (files g)" "logtofile (opts g)"
    and "can_open (files g) (choose_log_name h g)" "begin_user h g = Some user"
    and "length (opened_text h user g) \<le> BUFSIZ - 2" "length (command_text cmds) \<le> BUFSIZ - 2"
    and "malloc_ok h = (\<lambda>_. True)" "malloc_ok h' = (\<lambda>_. True)"
    and "length (choose_log_name h g) + 19 \<le> MAXPATHLEN"
    and "beginlogging h cmds g = (Inr True, g1)"
    and "list_all allowed_event es" "g2 = foldl (log_step h) g1 es"
    and "recoverable (choose_log_name h g @ ''.tampered'') (files g2)"
    and "length (closed_text h' g2) \<le> BUFSIZ - 2"
  shows "\<exists>g' q. endlogging h' g2 = (Inr (), g') \<and> q \<in> final_names (choose_log_name h g)
    \<and> kept_as q (old_contents (files g) (choose_log_name h g) @ opened_text h user g
        @ command_text cmds @ concat (map output_of es) @ closed_text h' g2) (files g')"
proof -
  let ?p = "choose_log_name h g"
  let ?c = "old_contents (files g) ?p @ opened_text h user g @ command_text cmds"
  from beginlogging_ok [OF assms(1-9)] assms(12) have
    g1: "disk_ok (files g1)" "logging ?c g1" "logFileName g1 = ?p" by auto
  from log_steps_ok [OF g1(2) assms(13,9)] have
    g2: "logging (?c @ concat (map output_of es)) g2" "same_vars g1 g2" "disk_ok (files g2)"
    using g1(1) by (simp_all add: assms(14) disk_ok_def)
  have p: "logFileName g2 = ?p" using same_vars_simps(5) [OF g2(2)] g1 by simp
  from endlogging_keeps [OF g2(1,3) _ assms(10) _ assms(16)] assms(11,15) show ?thesis
    by (simp add: p)
qed

theorem session_log_survives_witness:
  "\<exists>g1 g2 g' q. beginlogging sample_host None sample_rootsh = (Inr True, g1)
    \<and> g2 = foldl (log_step sample_host) g1 [Output ''id'', Tamper
        (U_unlink (choose_log_name sample_host sample_rootsh)), Output ''!'']
    \<and> endlogging sample_host g2 = (Inr (), g')
    \<and> q \<in> final_names (choose_log_name sample_host sample_rootsh)
    \<and> kept_as q (opened_text sample_host (Some ''root'') sample_rootsh @ ''id!''
        @ closed_text sample_host g2) (files g')"
proof -
  let ?g = sample_rootsh and ?h = sample_host
  let ?p = "choose_log_name ?h ?g" and ?user = "Some ''root''"
  let ?es = "[Output ''id'', Tamper (U_unlink ?p), Output ''!'']"
  have init: "fs_inv (files ?g)" "w2s_inv (syslogs ?g)" "disk_ok (files ?g)" "logtofile (opts ?g)"
      "can_open (files ?g) ?p" "begin_user ?h ?g = Some ?user"
      "length (opened_text ?h ?user ?g) \<le> BUFSIZ - 2" "length (command_text None) \<le> BUFSIZ - 2"
      "malloc_ok ?h = (\<lambda>_. True)"
    using fs_inv_sample(1) init_w2s_inv
    by (simp_all add: disk_ok_def can_open_def begin_user_def opened_text_def login_text_def
        str_arg_def tty_name_def sample_defs BUFSIZ_def command_text_def)
  from beginlogging_ok [OF init(1-8) init(9)] obtain g1 where
    g1: "beginlogging ?h None ?g = (Inr True, g1)" "opts g1 = opts ?g"
      "progName g1 = progName ?g" "userName g1 = userName ?g"
      "logging (old_contents (files ?g) ?p @ opened_text ?h ?user ?g @ command_text None) g1"
      "open_error (files g1) = open_error (files ?g)"
      "\<forall>q. q \<noteq> ?p \<longrightarrow> names (files g1) q = names (files ?g) q" by blast
  let ?g2 = "foldl (log_step ?h) g1 ?es"
  have ok: "list_all allowed_event ?es" "list_all (spares (?p @ ''.tampered'')) ?es" by simp_all
  have rec: "recoverable (?p @ ''.tampered'') (files ?g2)"
    using spared_recoverable [OF g1(5) ok _ _ init(9)] g1(6,7) by (simp add: sample_defs)
  have len: "length ?p + 19 \<le> MAXPATHLEN" by (simp add: sample_name MAXPATHLEN_def)
  have "length (closed_text ?h ?g2) \<le> BUFSIZ - 2"
  proof -
    from log_steps_ok [OF g1(5) ok(1) init(9)] have v: "same_vars g1 ?g2" by blast
    have "progName ?g2 = ''rootsh''" "userName ?g2 = ''root''"
      using same_vars_simps(6,7) [OF v] g1(3,4) by (simp_all add: sample_rootsh_def)
    then show ?thesis
      unfolding closed_text_def by (simp add: tty_name_def sample_host_def BUFSIZ_def)
  qed
  from session_log_survives [OF init init(9) len g1(1) ok(1) refl rec this] g1(1)
  show ?thesis
    by (fastforce simp: old_contents_def command_text_def sample_defs)
qed

text \<open>C20: \<open>beginlogging\<close> opens the log it names, after whatever the file already held it
  writes the opening message and the commands, and it leaves the session logging to a file whose
  name refers to it.\<close>

theorem beginlogging_starts_log:
  assumes "fs_inv (files g)" "w2s_inv (syslogs g)" "disk_ok (files g)" "logtofile (opts g)"
    "can_open (files g) (choose_log_name h g)" "begin_user h g = Some user"
    "length (opened_text h user g) \<le> BUFSIZ - 2" "length (command_text cmds) \<le> BUFSIZ - 2"
    "malloc_ok h = (\<lambda>_. True)"
  shows "\<exists>g'. beginlogging h cmds g = (Inr True, g') \<and> name_intact g'
    \<and> logFileName g' = choose_log_name h g
    \<and> logging (old_contents (files g) (choose_log_name h g) @ opened_text h user g
        @ command_text cmds) g'"
  using beginlogging_ok [OF assms] by blast

theorem beginlogging_starts_log_witness:
  "\<exists>g'. beginlogging sample_host (Some ''id'') sample_rootsh = (Inr True, g') \<and> name_intact g'
    \<and> logFileName g' = choose_log_name sample_host sample_rootsh
    \<and> logging (old_contents (files sample_rootsh) (choose_log_name sample_host sample_rootsh)
        @ opened_text sample_host (Some ''root'') sample_rootsh @ command_text (Some ''id'')) g'"
  by (rule beginlogging_starts_log)
    (use fs_inv_sample(1) init_w2s_inv in \<open>simp_all add: disk_ok_def can_open_def begin_user_def
      opened_text_def login_text_def str_arg_def tty_name_def sample_defs BUFSIZ_def
      command_text_def\<close>)

text \<open>\<open>dologging\<close> records exactly the bytes it is given: they are appended to the log file,
  and the syslog writer is called with them when logging to syslog is on; nothing else of the
  session changes and nothing is printed.\<close>

theorem dologging_records:
  assumes "logging c g" "n \<le> length buf" "malloc_ok h = (\<lambda>_. True)"
  shows "\<exists>g'. dologging h buf n g = (Inr (), g') \<and> logging (c @ take n buf) g'
    \<and> same_session g g' \<and> stderr_text g' = stderr_text g
    \<and> syslogs g' = (if logtosyslog (opts g)
        then w2s_put (syslogLogLineCount (opts g)) SYSLOG_PRIO (syslogs g) (take n buf)
        else syslogs g)"
  using dologging_ok [OF assms] by blast

theorem dologging_records_witness:
  "\<exists>g'. dologging sample_host ''id!'' 2 sample_session = (Inr (), g') \<and> logging ''aid'' g'"
  using dologging_records [OF logging_sample, of 2 "''id!''" sample_host] by auto

text \<open>The log file holds all output, byte for byte and in order, however the terminal cuts it
  into blocks.\<close>

theorem log_file_gets_all_output:
  assumes "in_session g" "malloc_ok h = (\<lambda>_. True)"
  shows "log_contents (foldl (log_put h) g chunks) = log_contents g @ concat chunks"
proof -
  have "roomy h = h" using assms(2) by (simp add: roomy_def)
  with file_sink.run_view [OF assms(1), of chunks h] show ?thesis
    by (simp add: list_all_iff)
qed

theorem log_file_gets_all_output_witness:
  "log_contents (foldl (log_put sample_host) sample_session [''b'', [], ''cd'']) = ''abcd''"
proof -
  have c: "log_contents sample_session = ''a''" by (rule logging_contents [OF logging_sample])
  then have "in_session sample_session" using logging_sample by (simp add: in_session_def)
  from log_file_gets_all_output [OF this, of sample_host "[''b'', [], ''cd'']"] c show ?thesis by simp
qed

text \<open>C21: An untouched log is closed under its own name with \<open>.closed\<close>: the old name is gone and
  the new one refers to the whole log, ended by the closing message.\<close>

theorem untouched_log_is_closed:
  assumes "logging c g" "name_intact g" "names (files g) (logFileName g @ ''.closed'') = None"
    "length (logFileName g) + 7 < MAXPATHLEN" "length (closed_text h g) \<le> BUFSIZ - 2"
    "malloc_ok h = (\<lambda>_. True)"
  shows "\<exists>g'. endlogging h g = (Inr (), g')
    \<and> names (files g') = (names (files g))(logFileName g := None,
        logFileName g @ ''.closed'' \<mapsto> (logDev g, logInode g))
    \<and> nodes (files g') (logDev g, logInode g) = Some (File (c @ closed_text h g))"
proof -
  have q: "snprintf_text MAXPATHLEN (logFileName g @ ''.closed'') = logFileName g @ ''.closed''"
    using assms(4) by simp
  from close_log_intact [OF assms(1,2,5)] assms(3) obtain g1 where
    g1: "close_log h g = (Inr True, g1)" "opts g1 = opts g" "w2s_inv (syslogs g1)"
      "names (files g1) = (names (files g))(logFileName g := None,
        logFileName g @ ''.closed'' \<mapsto> (logDev g, logInode g))"
      "nodes (files g1) (logDev g, logInode g) = Some (File (c @ closed_text h g))"
    unfolding q by blast
  have "logtofile (opts g)" using assms(1) by (simp add: logging_def)
  from endlogging_closed [OF this g1(1-3) assms(6)] g1(4,5) show ?thesis by auto
qed

lemma closed_text_sample [simp]: "closed_text sample_host sample_session
    = ''rootsh session closed for root on /dev/pts/1 at Fri Jul  9 08:30:05 2004'' @ [LF]"
  by (simp add: closed_text_def sample_session_def tty_name_def sample_defs)

lemma name_intact_sample: "name_intact sample_session"
  by (simp add: name_intact_def)

theorem untouched_log_is_closed_witness:
  "\<exists>g'. endlogging sample_host sample_session = (Inr (), g') \<and> names (files g') ''/l'' = None
    \<and> names (files g') ''/l.closed'' = Some (8, 1)
    \<and> nodes (files g') (8, 1) = Some (File (''a'' @ closed_text sample_host sample_session))"
  using untouched_log_is_closed [OF logging_sample name_intact_sample, of sample_host]
  by (simp add: MAXPATHLEN_def BUFSIZ_def) force

text \<open>Writing into the log through its name goes unnoticed: the examination at the end of the
  session compares inodes only, so a log overwritten in place is closed as if untouched.\<close>

theorem overwriting_goes_unnoticed:
  assumes "logging c g" "name_intact g"
  shows "\<exists>g'. g' = g\<lparr>files := user_step (files g) (U_overwrite (logFileName g) x)\<rparr>
    \<and> log_contents g' = x \<and> examine_log g' = ([], files g')"
proof -
  let ?g = "g\<lparr>files := user_step (files g) (U_overwrite (logFileName g) x)\<rparr>"
  have "logging x ?g \<and> name_intact ?g"
    using assms user_step_fs_inv [of "files g" "U_overwrite (logFileName g) x"]
    by (simp add: logging_def log_open_def name_intact_def)
  then show ?thesis using examine_intact logging_contents by blast
qed

theorem overwriting_goes_unnoticed_witness:
  "\<exists>g'. g' = sample_session\<lparr>files := user_step session_fs (U_overwrite ''/l'' ''nothing'')\<rparr>
    \<and> log_contents g' = ''nothing'' \<and> examine_log g' = ([], files g')"
  using overwriting_goes_unnoticed [OF logging_sample name_intact_sample, of "''nothing''"] by simp

text \<open>A name that is taken by a directory with something in it blocks the recovery: the three
  attempts to open it fail, each of the first two after trying to remove the directory, and
  \<open>recoverfile\<close> gives up, so that a log whose name was removed has no name left.\<close>

theorem blocked_recovery_fails:
  assumes "logging c g" "names (files g) path = Some i" "nodes (files g) i = Some (Dir False)"
    "open_error (files g) path = None" "malloc_ok h = (\<lambda>_. True)"
  shows "\<exists>g'. recoverfile h (logFile g) path g = (Inr False, g')
    \<and> names (files g') = names (files g) \<and> logging (c @ MSG_DIR_EXISTS @ MSG_DIR_EXISTS) g'"
proof -
  have "i \<noteq> (logDev g, logInode g)"
    using assms(1,3) by (auto simp: logging_def log_open_def)
  then have open_dir: "sys_open path False f = (Inl EISDIR, f)"
    if "names f = names (files g)" "open_error f = open_error (files g)"
      "\<forall>i. nodes f i = nodes (files g) i \<or> i = (logDev g, logInode g)" for f
  proof -
    from that(3) \<open>i \<noteq> _\<close> have "nodes f i = nodes (files g) i" by blast
    with that(1,2) assms(2-4) show ?thesis by (intro sys_open_dir [of f path i False]) simp_all
  qed
  have "EISDIR = EISDIR \<and> MSG_DIR_EXISTS = MSG_DIR_EXISTS
        \<and> (\<exists>i. names (files g) path = Some i \<and> nodes (files g) i = Some (Dir False))
      \<or> (\<exists>n. EISDIR = EOTHER n \<and> MSG_DIR_EXISTS
          = ''*** FILE COULD NOT BE CREATED (ERRNO '' @ dec n @ '')  ***'' @ CRLF)"
    using assms(2,3) by blast
  from forceopen_fails [OF assms(1,5) open_dir this msg_lengths(2)] obtain g' where
    "forceopen h path 0 g = (Inr None, g')" "logging (c @ MSG_DIR_EXISTS @ MSG_DIR_EXISTS) g'"
    "same_session g g'" by blast
  then show ?thesis by (auto simp: recoverfile_def same_session_def same_dir_def)
qed

definition blocked_session :: rootsh where
  "blocked_session = sample_session\<lparr>files := session_fs
     \<lparr>names := [''/l.tampered'' \<mapsto> (8, 2)], nodes := [(8, 1) \<mapsto> File ''a'', (8, 2) \<mapsto> Dir False],
      next_ino := 3\<rparr>\<rparr>"

theorem blocked_recovery_fails_witness:
  "\<exists>g'. recoverfile sample_host 3 ''/l.tampered'' blocked_session = (Inr False, g')
    \<and> names (files g') = [''/l.tampered'' \<mapsto> (8, 2)]
    \<and> logging (''a'' @ MSG_DIR_EXISTS @ MSG_DIR_EXISTS) g'"
proof -
  have "logging ''a'' blocked_session"
    using init_w2s_inv
    by (auto simp: logging_def log_open_def blocked_session_def linux_settings_def fs_inv_def
        split: if_splits)
  from blocked_recovery_fails [OF this, of "''/l.tampered''" "(8, 2)" sample_host] show ?thesis
    by (simp add: blocked_session_def)
qed

text \<open>When the host refuses to open a file for any other reason, \<open>forceopen\<close> makes three
  attempts, logs the error number after the first and the second, and gives up.\<close>

theorem forceopen_tries_three_times:
  assumes "logging c g" "open_error (files g) path = Some (EOTHER n)" "length (dec n) \<le> 20"
    "malloc_ok h = (\<lambda>_. True)" "m = ''*** FILE COULD NOT BE CREATED (ERRNO '' @ dec n @ '')  ***'' @ CRLF"
  shows "\<exists>g'. forceopen h path 0 g = (Inr None, g') \<and> logging (c @ m @ m) g' \<and> same_session g g'"
proof -
  have "sys_open path False f = (Inl (EOTHER n), f)"
    if "open_error f = open_error (files g)" for f
    using that assms(2) by (simp add: sys_open_def)
  moreover have "length m \<le> BUFSIZ - 2" using assms(3,5) by (simp add: CRLF_def BUFSIZ_def)
  ultimately show ?thesis
    using forceopen_fails [OF assms(1,4), of path "EOTHER n" m] assms(5) by blast
qed

theorem forceopen_tries_three_times_witness:
  "\<exists>g'. forceopen sample_host ''/r'' 0
      (sample_session\<lparr>files := session_fs\<lparr>open_error := [''/r'' \<mapsto> EOTHER 13]\<rparr>\<rparr>) = (Inr None, g')"
proof -
  have "logging ''a'' (sample_session\<lparr>files := session_fs\<lparr>open_error := [''/r'' \<mapsto> EOTHER 13]\<rparr>\<rparr>)"
    using logging_sample by (simp add: logging_def log_open_def fs_inv_def)
  from forceopen_tries_three_times [OF this, of "''/r''" 13 sample_host, OF _ _ _ refl] show ?thesis
    using length_dec_le(2) [of 13] by auto
qed

text \<open>C39: A recovery that writes nothing is reported as a success: on a device that refuses every
  write, \<open>recoverfile\<close> returns true and the recovery file is what it was.\<close>

theorem recovery_success_unchecked:
  assumes "logging c g" "open_error (files g) path = None" "names (files g) path = Some j"
    "nodes (files g) j = Some (File old)" "write_room (files g) j = Some 0"
  shows "\<exists>g'. recoverfile h (logFile g) path g = (Inr True, g') \<and> nodes (files g') j = Some (File old)"
proof -
  let ?f = "files g" and ?r = "logFile g" and ?i = "(logDev g, logInode g)"
  from assms(1) have inv: "fs_inv ?f" by (simp add: logging_def)
  have "nodes ?f i \<noteq> Some (Dir b)" if "names ?f path = Some i" for i b using that assms(3,4) by simp
  from sys_open_ok [OF inv assms(2) this, of False] assms(3) obtain f' where
    o: "sys_open path False ?f = (Inr (next_fd ?f), f')"
      "fds f' (next_fd ?f) = Some \<lparr>fd_ino = j, fd_off = 0, fd_append = False\<rparr>"
      "nodes f' j = Some (File old)" "write_room f' = write_room ?f"
      "log_open ?r ?i c f'"
    using assms(1,4) unfolding logging_def by (metis option.distinct(1) option.inject option.simps(5) node.simps(5))
  let ?g1 = "g\<lparr>files := f'\<rparr>"
  have fo: "forceopen h path 0 g = (Inr (Some (next_fd ?f)), ?g1)"
    using o(1) by (simp add: forceopen.simps)
  let ?g2 = "?g1\<lparr>files := sys_rewind ?r (files ?g1)\<rparr>"
  have "copying_in_vain ?r (next_fd ?f) ?i j c old ?g2"
    using o assms(5) logging_fd [OF assms(1)]
    by (auto simp: copying_in_vain_def log_open_def sys_rewind_def)
  from vain_recovery.copy_returns [OF this] obtain g3 where
    g3: "copy_loop (read_block ?r) (write_block (next_fd ?f)) ?g2 = Some g3"
      "nodes (files g3) j = Some (File old)" by (auto simp: copying_in_vain_def)
  then show ?thesis using fo by (simp add: recoverfile_def sys_close_def)
qed

theorem recovery_success_unchecked_witness:
  "\<exists>g'. recoverfile sample_host 3 ''/r''
      (sample_session\<lparr>files := session_fs\<lparr>names := [''/l'' \<mapsto> (8, 1), ''/r'' \<mapsto> (9, 1)],
        nodes := [(8, 1) \<mapsto> File ''a'', (9, 1) \<mapsto> File []], write_room := (\<lambda>i. if fst i = 9 then Some 0 else None)\<rparr>\<rparr>) = (Inr True, g')
    \<and> nodes (files g') (9, 1) = Some (File [])"
proof -
  let ?g = "sample_session\<lparr>files := session_fs\<lparr>names := [''/l'' \<mapsto> (8, 1), ''/r'' \<mapsto> (9, 1)],
        nodes := [(8, 1) \<mapsto> File ''a'', (9, 1) \<mapsto> File []], write_room := (\<lambda>i. if fst i = 9 then Some 0 else None)\<rparr>\<rparr>"
  have "logging ''a'' ?g"
    using init_w2s_inv
    by (auto simp: logging_def log_open_def linux_settings_def fs_inv_def split: if_splits)
  from recovery_success_unchecked [OF this, of "''/r''" "(9, 1)" "[]" sample_host] show ?thesis
    by simp
qed

text \<open>A session that would log nowhere is refused: with both destinations off
  \<open>beginlogging\<close> returns false, and no file is created and no syslog message sent.\<close>

theorem logging_nowhere_refused:
  assumes "\<not> logtofile (opts g)" "\<not> logtosyslog (opts g)" "begin_user h g = Some user"
  shows "\<exists>g'. beginlogging h cmds g = (Inr False, g') \<and> files g' = files g \<and> syslogs g' = syslogs g"
  using assms by (simp add: beginlogging_def begin_user_def print_error_def)

theorem logging_nowhere_refused_witness:
  "\<exists>g'. beginlogging sample_host (Some ''id'')
      (sample_rootsh\<lparr>opts := linux_settings\<lparr>logtofile := False, logtosyslog := False\<rparr>\<rparr>) = (Inr False, g')
    \<and> files g' = sample_fs \<and> syslogs g' = init_w2s"
proof -
  let ?g = "sample_rootsh\<lparr>opts := linux_settings\<lparr>logtofile := False, logtosyslog := False\<rparr>\<rparr>"
  have "begin_user sample_host ?g = Some (Some ''root'')"
    by (simp add: begin_user_def sample_defs)
  from logging_nowhere_refused [OF _ _ this, of "Some ''id''"] show ?thesis
    by (simp add: sample_rootsh_def)
qed

text \<open>Under sudo the user has no say in the log's name: whatever he passes with \<open>-f\<close> and
  \<open>-d\<close>, the log goes to the configured directory, under the default name.\<close>

theorem sudo_log_name_fixed:
  assumes "\<not> standalone g"
  shows "choose_log_name h (g\<lparr>userLogFileName := n, userLogFileDir := d\<rparr>)
    = snprintf_text (MAXPATHLEN - 9 - 1) (logdir (opts g) @ ''/'' @ default_log_name h g)"
  using assms by (simp add: choose_log_name_def default_log_name_def Let_def)

theorem sudo_log_name_fixed_witness:
  "choose_log_name sample_host (sample_rootsh\<lparr>standalone := False, userLogFileName := Some ''/dev/null''\<rparr>)
    = snprintf_text (MAXPATHLEN - 9 - 1) (''/var/log/rootsh/'' @ default_log_name sample_host sample_rootsh)"
proof -
  have "default_log_name sample_host (sample_rootsh\<lparr>standalone := False\<rparr>)
      = default_log_name sample_host sample_rootsh"
    by (simp add: default_log_name_def)
  with sudo_log_name_fixed [where g = "sample_rootsh\<lparr>standalone := False\<rparr>" and h = sample_host
      and n = "Some ''/dev/null''" and d = None]
  show ?thesis by (simp add: sample_rootsh_def linux_settings_def)
qed

text \<open>C34: A long log name and a tampered log overflow a buffer: \<open>endlogging\<close> appends
  \<open>.tampered\<close> to an array of \<open>MAXPATHLEN - 9\<close> bytes without looking, and goes out of its
  bounds for every name longer than \<open>MAXPATHLEN - 19\<close> characters.\<close>

theorem tampered_name_overflow:
  assumes "logging c g" "\<not> name_intact g" "malloc_ok h = (\<lambda>_. True)"
    "length (closed_text h g) \<le> BUFSIZ - 2" "MAXPATHLEN < length (logFileName g) + 19"
  shows "\<exists>g'. endlogging h g = (Inl (Faulted Out_Of_Bounds), g')"
proof -
  let ?c = "c @ closed_text h g"
  from write_message_ok [OF assms(1,4), of h] obtain g1 where
    g1: "write_message h (closed_text h g) g = (Inr (int (length (closed_text h g))), g1)"
      "logging ?c g1" "same_session g g1" by blast
  then have v1: "logFileName g1 = logFileName g" "\<not> name_intact g1"
    using assms(2) by (auto simp: same_session_def same_vars_simps name_intact_def same_dir_def)
  from examine_tampered [OF g1(2) v1(2)] obtain msg acts where
    ex: "examine_log g1 = (msg, foldl user_step (files g1) acts)" "msg \<noteq> []"
      "length msg \<le> BUFSIZ - 2" "list_all names_only acts" by blast
  let ?g2 = "g1\<lparr>files := foldl user_step (files g1) acts\<rparr>"
  from log_message_ok [OF logging_user_steps [OF g1(2) ex(4)] ex(3) assms(3)] obtain g3 where
    g3: "log_message h msg ?g2 = (Inr (), g3)" "same_session ?g2 g3" by blast
  have "append_tampered g3 = (Inl (Faulted Out_Of_Bounds), g3)"
    using same_vars_simps(5) [of ?g2 g3] g3(2) assms(5)
    by (simp add: append_tampered_def same_session_def v1)
  with g1(1) ex(1,2) g3(1) assms(1) show ?thesis
    by (simp add: endlogging_def close_log_def logging_def)
qed

theorem tampered_name_overflow_witness:
  "\<exists>g'. endlogging sample_host (sample_session\<lparr>logFileName := replicate 4080 (CHR ''x'')\<rparr>)
      = (Inl (Faulted Out_Of_Bounds), g')"
proof -
  let ?g = "sample_session\<lparr>logFileName := replicate 4080 (CHR ''x'')\<rparr>"
  have "logging ''a'' ?g" using logging_sample by (simp add: logging_def)
  moreover have "replicate 4080 (CHR ''x'') \<noteq> ''/l''"
    by (auto dest: arg_cong [of _ _ length])
  then have "\<not> name_intact ?g" by (simp add: name_intact_def)
  moreover have "closed_text sample_host ?g = closed_text sample_host sample_session"
    by (simp add: closed_text_def)
  ultimately show ?thesis
    by (intro tampered_name_overflow) (simp_all add: MAXPATHLEN_def BUFSIZ_def)
qed

text \<open>C35: A long command line is logged past the end of the message buffer: \<open>beginlogging\<close>
  passes on the length the message would have had, and \<open>dologging\<close> reads that many bytes of
  an array of \<open>BUFSIZ\<close>.\<close>

theorem long_command_over_read:
  assumes "fs_inv (files g)" "w2s_inv (syslogs g)" "disk_ok (files g)" "logtofile (opts g)"
    "can_open (files g) (choose_log_name h g)" "begin_user h g = Some user"
    "length (opened_text h user g) \<le> BUFSIZ - 2" "malloc_ok h = (\<lambda>_. True)"
    "BUFSIZ < length (command_text (Some cmds))"
  shows "\<exists>g'. beginlogging h (Some cmds) g = (Inl (Faulted Out_Of_Bounds), g')"
proof -
  from open_log_ok [OF assms(1-5,7)] obtain g1 where
    g1: "open_log h user g = (Inr True, g1)" "opts g1 = opts g"
    by blast
  define g2 where "g2 = (if logtosyslog (opts g) then open_syslog h user g1 else g1)"
  have "opts g2 = opts g" using g1 by (simp add: g2_def open_syslog_def Let_def)
  then have "log_message h (command_text (Some cmds)) g2 = (Inl (Faulted Out_Of_Bounds), g2)"
    using assms(4,9) by (simp add: log_message_def dologging_def)
  then show ?thesis
    using assms(4,6) g1 by (simp add: beginlogging_def begin_user_def command_text_def g2_def Let_def)
qed

theorem long_command_over_read_witness:
  "\<exists>g'. beginlogging sample_host (Some (replicate 9000 (CHR ''y''))) sample_rootsh
    = (Inl (Faulted Out_Of_Bounds), g')"
  by (rule long_command_over_read [where user = "Some ''root''"])
    (use fs_inv_sample(1) init_w2s_inv in \<open>simp_all add: disk_ok_def can_open_def begin_user_def
      opened_text_def login_text_def str_arg_def tty_name_def sample_defs BUFSIZ_def
      command_text_def\<close>)

end
