(* ===== verification/Setup.thy ===== *)
theory Setup
  imports Environment Basename Log_Session
begin

text \<open>
  What \<open>main\<close> prepares and the child process does with it: the commands from the command
  line, the calling user, the user to run as, the shell, and the \<open>exec\<close>. From
  \<^verbatim>\<open>rootsh.c\<close>: \<open>consume_remaining_args\<close>, \<open>setupusername\<close>,
  \<open>setupusermode\<close>, \<open>getDefaultshell\<close>, \<open>setupshell\<close> and \<open>execShell\<close>.
\<close>

section \<open>The commands\<close>

text \<open>\<open>argc\<close> is the length of \<open>argv\<close>; the second result is \<open>optind\<close>.\<close>

function consume_remaining_args ::
  "(nat \<Rightarrow> bool) \<Rightarrow> string list \<Rightarrow> nat \<Rightarrow> string option \<Rightarrow> stop + string option \<times> nat" where
  "consume_remaining_args mem argv optind shellCommands =
     (if optind < length argv then
        bindR (case shellCommands of
            None \<Rightarrow> if mem 1 then Inr [] else Inl (Exited EXIT_FAILURE)
          | Some s \<Rightarrow> Inr s)
          (\<lambda>s.
            if \<not> mem (length s + length (argv ! optind) + 2) then Inl (Exited EXIT_FAILURE)
            else consume_remaining_args mem argv (optind + 1)
              (Some (s @ argv ! optind @ '' '')))
      else Inr (shellCommands, optind))"
  by pat_completeness auto
termination
  by (relation "measure (\<lambda>(mem, argv, optind, shellCommands). length argv - optind)") auto

declare consume_remaining_args.simps [simp del]

section \<open>The users\<close>

text \<open>The result is \<^term>\<open>None\<close> for the null pointer.\<close>

definition setupusername :: "host \<Rightarrow> rootsh \<Rightarrow> (stop + string option) \<times> rootsh" where
  "setupusername h g =
     (case getpwuid h (geteuid h) of
        None \<Rightarrow> (Inl (Faulted Null_Deref), g)
      | Some passwd_entry \<Rightarrow>
          (case pw_name passwd_entry of
             Some n \<Rightarrow> (Inr (Some n), g)
           | None \<Rightarrow>
               if ttyname0 h \<noteq> None then
                 (case tty_owner h of
                    None \<Rightarrow> (Inr None, g)
                  | Some uid \<Rightarrow>
                      (case getpwuid h uid of
                         None \<Rightarrow> (Inl (Faulted Null_Deref), g)
                       | Some p \<Rightarrow>
                           if pw_name p = None then
                             (Inr None, print_error ''i don't know who you are'' g)
                           else (Inr (pw_name p), g)))
               else (Inr None, print_error ''i don't know who you are'' g)))"

text \<open>A build without \<open>SUCMD\<close>, for which the code has a branch of its own here, does not compile:
  \<open>execShell\<close> uses the macro in any case.\<close>

definition setupusermode :: "host \<Rightarrow> rootsh \<Rightarrow> (stop + bool) \<times> rootsh" where
  "setupusermode h g =
     (case runAsUser g of
        None \<Rightarrow> (Inr True, g)
      | Some user \<Rightarrow>
          if length user > 64 then
            (Inr False, print_error ''this username is too long. i don't trust you'' g)
          else if getpwnam h user = None then
            (Inr False, print_error (''user '' @ user @ '' does not exist'') g)
          else
            bindM (saveenv h ''TERM'') (\<lambda>_ g.
            bindM restoreenv (\<lambda>_ g. (Inr True, g)) (clearenv g)) g)"

section \<open>The shell\<close>

definition getDefaultshell :: "rootsh \<Rightarrow> string option" where
  "getDefaultshell g = (if defaultshell (opts g) \<noteq> [] then Some (defaultshell (opts g)) else None)"

text \<open>Is the shell this program, under the name it was called by?\<close>

definition is_self :: "string \<Rightarrow> rootsh \<Rightarrow> bool" where
  "is_self shell g \<longleftrightarrow>
     (progName g \<noteq> [] \<and> hd (progName g) = CHR ''-'' \<and> basename (Some shell) = tl (progName g))
     \<or> basename (Some shell) = progName g"

text \<open>\<open>HAS_ETC_SHELLS\<close> is a macro of the build.\<close>

definition setupshell :: "bool \<Rightarrow> host \<Rightarrow> rootsh \<Rightarrow> (stop + string option) \<times> rootsh" where
  "setupshell HAS_ETC_SHELLS h g =
     (case (case getenv (environ g) ''SHELL'' of
              Some s \<Rightarrow> Some (Some s)
            | None \<Rightarrow> map_option pw_shell (getpwnam h (userName g))) of
        None \<Rightarrow> (Inl (Faulted Null_Deref), g)
      | Some None \<Rightarrow> (Inr None, print_error ''could not determine a valid shell'' g)
      | Some (Some shell) \<Rightarrow>
          let (isvalid, g) =
                (if HAS_ETC_SHELLS then
                   let (b, us) = shell_is_valid (SHELLS_FILE h) shell (usershells g) in
                   (b, g\<lparr>usershells := us\<rparr>)
                 else (True, g)) in
          if \<not> isvalid then (Inr None, print_error (shell @ '' is not in /etc/shells'') g)
          else if is_self shell g then
            (case getDefaultshell g of
               None \<Rightarrow> (Inl (Faulted Null_Deref), g)
             | Some dshell \<Rightarrow>
                 if malloc_ok h (length dshell + 1) \<and> malloc_ok h (length dshell + 7) then
                   (Inr (Some dshell),
                    g\<lparr>environ := putenv (''SHELL='' @ dshell) (environ g), useLoginShell := True,
                      isaLoginShell := True\<rparr>)
                 else (Inl (Faulted Null_Deref), g))
          else (Inr (Some shell), g))"

section \<open>Executing it\<close>

text \<open>
  The path and the argument list of the \<open>execl\<close>. The text after the last slash is taken
  without looking whether there is one.
\<close>

definition after_last_slash :: "string \<Rightarrow> fault + string" where
  "after_last_slash s =
     (case c_rindex s (CHR ''/'') of None \<Rightarrow> Inl Null_Deref | Some i \<Rightarrow> Inr (drop (i + 1) s))"

definition exec_args ::
  "string \<Rightarrow> string \<Rightarrow> string option \<Rightarrow> rootsh \<Rightarrow> fault + string \<times> string list" where
  "exec_args SUCMD shell shellCommands g =
     (let shell = (if runAsUser g \<noteq> None then SUCMD else shell) in
      bindR (if useLoginShell g then
               (case c_index shell (CHR ''/'') of
                  None \<Rightarrow> Inl Null_Deref
                | Some slash \<Rightarrow> Inr (shell[slash := CHR ''-'']))
             else Inr [])
        (\<lambda>dashShell.
          case (runAsUser g, useLoginShell g, shellCommands) of
            (Some user, True, Some cmds) \<Rightarrow>
              bindR (after_last_slash shell) (\<lambda>arg0. Inr (shell, [arg0, ''-'', user, ''-c'', cmds]))
          | (Some user, True, None) \<Rightarrow>
              bindR (after_last_slash shell) (\<lambda>arg0. Inr (shell, [arg0, ''-'', user]))
          | (Some user, False, Some cmds) \<Rightarrow>
              bindR (after_last_slash shell) (\<lambda>arg0. Inr (shell, [arg0, user, ''-c'', cmds]))
          | (Some user, False, None) \<Rightarrow>
              bindR (after_last_slash shell) (\<lambda>arg0. Inr (shell, [arg0, user]))
          | (None, True, Some cmds) \<Rightarrow> Inr (shell, [dashShell, ''-c'', cmds])
          | (None, True, None) \<Rightarrow> Inr (shell, [dashShell])
          | (None, False, Some cmds) \<Rightarrow>
              bindR (after_last_slash shell) (\<lambda>arg0. Inr (shell, [arg0, ''-i'', ''-c'', cmds]))
          | (None, False, None) \<Rightarrow>
              bindR (after_last_slash shell) (\<lambda>arg0. Inr (shell, [arg0, ''-i'']))))"

text \<open>
  \<open>execShell\<close> itself: the program that runs, or the status the child exits with when the
  \<open>exec\<close> of the host fails.
\<close>

definition execShell ::
  "(string \<Rightarrow> string list \<Rightarrow> bool) \<Rightarrow> string \<Rightarrow> string \<Rightarrow> string option \<Rightarrow> rootsh
    \<Rightarrow> (stop + string \<times> string list) \<times> rootsh" where
  "execShell exec_ok SUCMD shell shellCommands g =
     (case exec_args SUCMD shell shellCommands g of
        Inl e \<Rightarrow> (Inl (Faulted e), g)
      | Inr (path, args) \<Rightarrow>
          if exec_ok path args then (Inr (path, args), g)
          else (Inl (Exited EXIT_FAILURE), print_error (progName g) g))"

section \<open>Lemmas\<close>

lemma consume_eq:
  "consume_remaining_args (\<lambda>_. True) argv optind cmds =
    Inr (if optind < length argv then
           Some ((case cmds of None \<Rightarrow> [] | Some s \<Rightarrow> s) @ concat (map (\<lambda>a. a @ '' '') (drop optind argv)))
         else cmds, max optind (length argv))"
proof (induction "length argv - optind" arbitrary: optind cmds rule: less_induct)
  case less
  show ?case
  proof (cases "optind < length argv")
    case True
    then have d: "drop optind argv = argv ! optind # drop (Suc optind) argv"
      by (simp add: Cons_nth_drop_Suc)
    obtain s where s: "(case cmds of None \<Rightarrow> if True then Inr [] else Inl (Exited EXIT_FAILURE)
        | Some s \<Rightarrow> Inr s) = (Inr s :: stop + string)"
      "s = (case cmds of None \<Rightarrow> [] | Some s \<Rightarrow> s)"
      by (cases cmds) auto
    have "consume_remaining_args (\<lambda>_. True) argv optind cmds
        = consume_remaining_args (\<lambda>_. True) argv (optind + 1) (Some (s @ argv ! optind @ '' ''))"
      using True s(1) by (subst consume_remaining_args.simps) simp
    also have "\<dots> = Inr (if optind + 1 < length argv then
           Some ((s @ argv ! optind @ '' '') @ concat (map (\<lambda>a. a @ '' '') (drop (optind + 1) argv)))
         else Some (s @ argv ! optind @ '' ''), max (optind + 1) (length argv))"
      using less [of "optind + 1"] True by simp
    finally show ?thesis using True d s(2) by auto
  next
    case False
    then show ?thesis by (simp add: consume_remaining_args.simps)
  qed
qed

text \<open>The program and the argument list \<open>execShell\<close> comes to.\<close>

lemma exec_args_shape:
  assumes "exec_args SUCMD shell cmds g = Inr (path, args)"
  shows "path = (if runAsUser g \<noteq> None then SUCMD else shell)
    \<and> (\<exists>name. args = name #
      (case runAsUser g of
         Some u \<Rightarrow> (if useLoginShell g then [''-''] else []) @ [u]
       | None \<Rightarrow> if useLoginShell g then [] else [''-i''])
      @ (case cmds of None \<Rightarrow> [] | Some c \<Rightarrow> [''-c'', c]))"
  using assms
  by (cases "runAsUser g"; cases "useLoginShell g"; cases cmds)
    (auto simp: exec_args_def Let_def result_iff split: option.splits)

lemma execShell_returns:
  "execShell exec_ok SUCMD shell cmds g = (Inr (path, args), g') \<Longrightarrow>
    g' = g \<and> exec_ok path args \<and> exec_args SUCMD shell cmds g = Inr (path, args)"
  by (auto simp: execShell_def split: sum.splits if_splits)

section \<open>Properties\<close>

text \<open>All arguments from \<open>optind\<close> on become the commands, in order, each followed by a blank
  and after what was collected before; every argument is consumed, and without any the commands
  are what they were.\<close>

theorem commands_are_the_rest:
  "consume_remaining_args (\<lambda>_. True) argv optind cmds =
    Inr (if optind < length argv then
           Some ((case cmds of None \<Rightarrow> [] | Some s \<Rightarrow> s) @ concat (map (\<lambda>a. a @ '' '') (drop optind argv)))
         else cmds, max optind (length argv))"
  by (rule consume_eq)

text \<open>C28: Running as another user starts from an empty environment: of everything the caller had
  set only \<open>TERM\<close> is left, with its value.\<close>

theorem usermode_keeps_only_TERM:
  assumes "runAsUser g = Some user" "length user \<le> 64" "getpwnam h user \<noteq> None"
    "senv g = None" "getenv (environ g) ''TERM'' = Some value" "malloc_ok h = (\<lambda>_. True)"
  shows "\<exists>g'. setupusermode h g = (Inr True, g') \<and> environ g' = [''TERM='' @ value]"
  using assms saveenv_first [OF assms(5,4,6)]
  by (auto simp: setupusermode_def clearenv_def restoreenv_def bindM_def)

theorem usermode_keeps_only_TERM_witness:
  "\<exists>g'. setupusermode sample_host (sample_rootsh\<lparr>runAsUser := Some ''root'',
      environ := [''LD_PRELOAD=/tmp/x'', ''TERM=vt100'']\<rparr>) = (Inr True, g')
    \<and> environ g' = [''TERM=vt100'']"
  using usermode_keeps_only_TERM [of "sample_rootsh\<lparr>runAsUser := Some ''root'',
      environ := [''LD_PRELOAD=/tmp/x'', ''TERM=vt100'']\<rparr>" "''root''" sample_host "''vt100''"]
  by (simp add: sample_defs)

text \<open>C36: Without \<open>TERM\<close> in the environment, running as another user dereferences the null
  pointer: nothing has been saved, and \<open>restoreenv\<close> does not look.\<close>

theorem usermode_without_TERM_faults:
  assumes "runAsUser g = Some user" "length user \<le> 64" "getpwnam h user \<noteq> None"
    "senv g = None" "getenv (environ g) ''TERM'' = None"
  shows "\<exists>g'. setupusermode h g = (Inl (Faulted Null_Deref), g')"
  using assms by (auto simp: setupusermode_def saveenv_def clearenv_def restoreenv_def bindM_def)

theorem usermode_without_TERM_faults_witness:
  "\<exists>g'. setupusermode sample_host (sample_rootsh\<lparr>runAsUser := Some ''root'', environ := [''A=b'']\<rparr>)
    = (Inl (Faulted Null_Deref), g')"
  using usermode_without_TERM_faults [of "sample_rootsh\<lparr>runAsUser := Some ''root'',
      environ := [''A=b'']\<rparr>" "''root''" sample_host]
  by (simp add: sample_defs)

text \<open>The shell the caller asks for: \<open>SHELL\<close>, or the one of his entry in the user database.\<close>

definition wanted_shell :: "host \<Rightarrow> rootsh \<Rightarrow> string option" where
  "wanted_shell h g = (case getenv (environ g) ''SHELL'' of
       Some s \<Rightarrow> Some s
     | None \<Rightarrow> (case getpwnam h (userName g) of None \<Rightarrow> None | Some p \<Rightarrow> pw_shell p))"

lemma setupshell_wanted:
  assumes "setupshell etc h g = (Inr (Some s), g')"
  obtains shell u where "wanted_shell h g = Some shell"
    "if etc then shell_is_valid (SHELLS_FILE h) shell (usershells g) = (True, u) else u = usershells g"
    "if is_self shell g
      then s = defaultshell (opts g) \<and> s \<noteq> [] \<and> g' = g\<lparr>usershells := u, environ := putenv (''SHELL='' @ s) (environ g),
        useLoginShell := True, isaLoginShell := True\<rparr>
      else s = shell \<and> g' = g\<lparr>usershells := u\<rparr>"
proof -
  have self: "is_self x (g\<lparr>usershells := u\<rparr>) = is_self x g" for x u by (simp add: is_self_def)
  have same: "g\<lparr>usershells := usershells g\<rparr> = g" by simp
  from assms obtain shell where w: "wanted_shell h g = Some shell"
    by (auto simp: setupshell_def wanted_shell_def split: option.splits)
  with assms have c: "(case getenv (environ g) ''SHELL'' of Some s \<Rightarrow> Some (Some s)
      | None \<Rightarrow> map_option pw_shell (getpwnam h (userName g))) = Some (Some shell)"
    by (auto simp: setupshell_def wanted_shell_def split: option.splits)
  show ?thesis
  proof (cases etc)
    case True
    obtain b u where v: "shell_is_valid (SHELLS_FILE h) shell (usershells g) = (b, u)" by fastforce
    from assms True c v have b: b by (cases b) (simp_all add: setupshell_def)
    with assms True c v have r: "if is_self shell g
      then s = defaultshell (opts g) \<and> s \<noteq> [] \<and> g' = g\<lparr>usershells := u, environ := putenv (''SHELL='' @ s) (environ g),
        useLoginShell := True, isaLoginShell := True\<rparr>
      else s = shell \<and> g' = g\<lparr>usershells := u\<rparr>"
      by (auto simp: setupshell_def self getDefaultshell_def split: if_splits)
    show ?thesis by (rule that [OF w _ r]) (use True v b in simp)
  next
    case False
    with assms c have r: "if is_self shell g
      then s = defaultshell (opts g) \<and> s \<noteq> [] \<and> g' = g\<lparr>usershells := usershells g, environ := putenv (''SHELL='' @ s) (environ g),
        useLoginShell := True, isaLoginShell := True\<rparr>
      else s = shell \<and> g' = g\<lparr>usershells := usershells g\<rparr>"
      by (auto simp: setupshell_def same getDefaultshell_def split: if_splits)
    show ?thesis by (rule that [OF w _ r]) (use False in simp)
  qed
qed

text \<open>C26: The choice of the shell. It is the one the caller asks for, from \<open>SHELL\<close> or from
  the user database, unless that is the program itself: then, and only then, it is the default
  shell, which becomes the caller's \<open>SHELL\<close> and is run as a login shell. The default shell
  is not examined: when the administrator has set the program itself, the program executes itself.
  When the build uses a shells file (which can be read, or was not open before), the shell asked
  for is one of those listed in it.\<close>

theorem shell_is_chosen:
  assumes "setupshell etc h g = (Inr (Some s), g')"
  shows "\<exists>shell. wanted_shell h g = Some shell
    \<and> (if is_self shell g
       then s = defaultshell (opts g) \<and> s \<noteq> [] \<and> useLoginShell g' \<and> isaLoginShell g'
         \<and> environ g' = putenv (''SHELL='' @ s) (environ g)
       else s = shell \<and> useLoginShell g' = useLoginShell g \<and> isaLoginShell g' = isaLoginShell g
         \<and> environ g' = environ g)
    \<and> (is_self s g' \<longleftrightarrow> is_self shell g \<and> is_self (defaultshell (opts g)) g)
    \<and> (etc \<and> (SHELLS_FILE h \<noteq> None \<or> shellstream (usershells g) = None) \<longrightarrow>
        shell \<in> set (listed_shells (SHELLS_FILE h)))"
proof -
  from assms obtain shell u where s: "wanted_shell h g = Some shell"
    "if etc then shell_is_valid (SHELLS_FILE h) shell (usershells g) = (True, u) else u = usershells g"
    "if is_self shell g
      then s = defaultshell (opts g) \<and> s \<noteq> [] \<and> g' = g\<lparr>usershells := u, environ := putenv (''SHELL='' @ s) (environ g),
        useLoginShell := True, isaLoginShell := True\<rparr>
      else s = shell \<and> g' = g\<lparr>usershells := u\<rparr>"
    by (rule setupshell_wanted)
  have "is_self x g' = is_self x g" for x
    using s(3) by (auto simp: is_self_def split: if_splits)
  moreover have "shell \<in> set (listed_shells (SHELLS_FILE h))"
    if "etc" "SHELLS_FILE h \<noteq> None \<or> shellstream (usershells g) = None"
    using s(2) that shell_valid_listed [OF that(2), of shell] by simp
  ultimately show ?thesis
    using s(1,3) by (intro exI [of _ shell]) (auto split: if_splits)
qed

lemma self_tests:
  "\<not> is_self ''/bin/bash'' sample_rootsh" "is_self ''/usr/bin/rootsh'' sample_rootsh"
  using basename_eq [of "''bash''" "''/bin/bash''" "''/bin''"]
    basename_eq [of "''rootsh''" "''/usr/bin/rootsh''" "''/usr/bin''"]
  by (simp_all add: is_self_def sample_rootsh_def)

theorem shell_is_chosen_witness:
  "\<exists>g'. setupshell False sample_host (sample_rootsh\<lparr>environ := [''SHELL=/usr/bin/rootsh'']\<rparr>)
      = (Inr (Some ''/bin/bash''), g') \<and> environ g' = [''SHELL=/bin/bash''] \<and> isaLoginShell g'"
proof -
  let ?g = "sample_rootsh\<lparr>environ := [''SHELL=/usr/bin/rootsh'']\<rparr>"
  have self: "is_self s ?g = is_self s sample_rootsh" for s by (simp add: is_self_def)
  have d: "defaultshell (opts ?g) = ''/bin/bash''" "wanted_shell sample_host ?g = Some ''/usr/bin/rootsh''"
    by (simp_all add: sample_defs wanted_shell_def)
  obtain g' where s: "setupshell False sample_host ?g = (Inr (Some ''/bin/bash''), g')"
    using self_tests(2) d(1) by (simp add: setupshell_def getDefaultshell_def self Let_def)
  from shell_is_chosen [OF s] self_tests(2) have "isaLoginShell g'"
    "environ g' = putenv ''SHELL=/bin/bash'' [''SHELL=/usr/bin/rootsh'']"
    by (auto simp: d(2) self)
  with s show ?thesis by (simp add: env_name_def)
qed

text \<open>A login shell is not called by its name with a dash: the first slash of the path becomes
  the dash, and the directories stay in the name.\<close>

theorem login_shell_name_keeps_directories:
  assumes "useLoginShell g" "runAsUser g = None"
  shows "exec_args SUCMD (CHR ''/'' # path) cmds g = Inr (CHR ''/'' # path, (CHR ''-'' # path) #
    (case cmds of None \<Rightarrow> [] | Some c \<Rightarrow> [''-c'', c]))"
  using assms by (simp add: exec_args_def split: option.split)

theorem login_shell_name_keeps_directories_witness:
  "exec_args ''/bin/su'' ''/bin/bash'' None (sample_rootsh\<lparr>useLoginShell := True\<rparr>)
    = Inr (''/bin/bash'', [''-bin/bash''])"
  using login_shell_name_keeps_directories [of "sample_rootsh\<lparr>useLoginShell := True\<rparr>" "''/bin/su''"
      "''bin/bash''" None]
  by (simp add: sample_rootsh_def)

end
