(* ===== verification/Options.thy ===== *)
theory Options
  imports Getopt_Parse Setup
begin

text \<open>
  The command line of \<^verbatim>\<open>rootsh\<close>: the option table of \<open>main\<close>, \<open>usage\<close> and
  \<open>version\<close>, the switch over the options and the loop around it, on top of the option scanner.
\<close>

section \<open>The code\<close>

text \<open>What the build fixes besides the settings; \<open>SUCMD_defined\<close> tells whether the macro is.\<close>

record build_names =
  CONFIGFILE :: string
  VERSION :: string
  SYSLOGFACILITYNAME :: string
  SYSLOGPRIORITYNAME :: string
  SUCMD_defined :: bool

text \<open>The program while it reads its options: its variables, the scanner's, and what it printed.\<close>

record main_state =
  prog :: rootsh
  scanner :: scanner_state
  stdout_text :: "string list"

definition long_options :: "option_entry list" where
  "long_options = map (\<lambda>(n, a, c). \<lparr>opt_name = n, has_arg = a, opt_flag = None, opt_val = char_int c\<rparr>)
     [(''help'', 0, CHR ''h''), (''version'', 0, CHR ''V''), (''user'', 1, CHR ''u''),
      (''login'', 0, CHR ''i''), (''logfile'', 1, CHR ''f''), (''logdir'', 1, CHR ''d''),
      (''no-logfile'', 0, CHR ''x''), (''no-syslog'', 0, CHR ''y'')]"

definition optstring :: string where
  "optstring = ''hViu:f:d:xyc:''"

text \<open>The lines of the two help texts.\<close>

definition usage_text :: "rootsh \<Rightarrow> string list" where
  "usage_text g =
     [''Usage: '' @ progName g @ '' [OPTION [ARG]] ...'',
      '' -?, --help            show this help statement'',
      '' -i, --login           start a (initial) login shell'',
      '' -u, --user=username   run shell as a different user'',
      '' -f, --logfile=file    name of your logfile (standalone only)'',
      '' -d, --logdir=DIR      directory for your logfile (standalone only)'',
      '' -x, --no-logfile      switch off logging to a file (standalone only)'',
      '' -y, --no-syslog       switch off logging to syslog (standalone only)'',
      '' -V, --version         show version statement'']"

definition version_text :: "build_names \<Rightarrow> rootsh \<Rightarrow> string list" where
  "version_text b g =
     [''Config file is '' @ CONFIGFILE b, progName g @ '' version '' @ VERSION b]
     @ (if logtofile (opts g) then
          [''Logging to file.'',
           ''Logfiles go to directory '' @ [CHR 0x27] @ logdir (opts g) @ [CHR 0x27]]
        else [])
     @ (if logtosyslog (opts g) then
          [''Logging to syslog.'',
           ''syslog messages go to facility.priority '' @ SYSLOGFACILITYNAME b @ ''.''
             @ SYSLOGPRIORITYNAME b,
           if syslogLogLineCount (opts g) then ''syslog line numbering is on''
           else ''syslog line numbering is off'',
           if syslogLogUsername (opts g) then ''syslog logging of username is on''
           else ''syslog logging of username is off'']
        else [])
     @ (if \<not> SUCMD_defined b then [''running as non-root user is not possible''] else [])
     @ (case getDefaultshell g of
          None \<Rightarrow> []
        | Some sh \<Rightarrow> [progName g @ '' can be used as login shell. '' @ sh @ '' will interpret your commands''])"

definition print_lines :: "string list \<Rightarrow> main_state \<Rightarrow> main_state" where
  "print_lines ls m = m\<lparr>stdout_text := stdout_text m @ ls\<rparr>"

definition usage :: "main_state \<Rightarrow> (stop + 'a) \<times> main_state" where
  "usage m = (Inl (Exited EXIT_SUCCESS), print_lines (usage_text (prog m)) m)"

definition version :: "build_names \<Rightarrow> main_state \<Rightarrow> (stop + 'a) \<times> main_state" where
  "version b m = (Inl (Exited EXIT_SUCCESS), print_lines (version_text b (prog m)) m)"

text \<open>\<open>shellCommands = consume_remaining_args (argc, argv, shellCommands)\<close>.\<close>

definition collect :: "host \<Rightarrow> string option \<Rightarrow> main_state \<Rightarrow> (stop + string option) \<times> main_state" where
  "collect h cmds m =
     (case consume_remaining_args (malloc_ok h) (argv (scanner m)) (optind (scanner m)) cmds of
        Inl e \<Rightarrow> (Inl e, m)
      | Inr (cmds, i) \<Rightarrow> (Inr cmds, m\<lparr>scanner := (scanner m)\<lparr>optind := i\<rparr>\<rparr>))"

definition strdup :: "host \<Rightarrow> string option \<Rightarrow> fault + string option" where
  "strdup h s =
     (case s of
        None \<Rightarrow> Inl Null_Deref
      | Some s \<Rightarrow> Inr (if malloc_ok h (length s + 1) then Some s else None))"

definition set_by_strdup :: "host \<Rightarrow> (string option \<Rightarrow> rootsh \<Rightarrow> rootsh) \<Rightarrow> string option \<Rightarrow> main_state \<Rightarrow>
    (stop + string option) \<times> main_state" where
  "set_by_strdup h upd cmds m =
     (case strdup h (optarg (scanner m)) of
        Inl e \<Rightarrow> (Inl (Faulted e), m)
      | Inr v \<Rightarrow> (Inr cmds, m\<lparr>prog := upd v (prog m)\<rparr>))"

text \<open>The switch on the value \<open>c\<close> of \<open>getopt_long\<close>; the result is \<open>shellCommands\<close>.\<close>

definition option_switch :: "build_names \<Rightarrow> host \<Rightarrow> int \<Rightarrow> string option \<Rightarrow> main_state \<Rightarrow>
    (stop + string option) \<times> main_state" where
  "option_switch b h c cmds m =
     (if c = char_int (CHR ''h'') \<or> c = char_int (CHR ''?'') then usage m
      else if c = char_int (CHR ''V'') then version b m
      else if c = char_int (CHR ''c'') then
        collect h cmds (m\<lparr>scanner := (scanner m)\<lparr>optind := optind (scanner m) - 1\<rparr>\<rparr>)
      else if c = char_int (CHR ''i'') then (Inr cmds, m\<lparr>prog := (prog m)\<lparr>useLoginShell := True\<rparr>\<rparr>)
      else if c = char_int (CHR ''u'') then set_by_strdup h (\<lambda>v g. g\<lparr>runAsUser := v\<rparr>) cmds m
      else if c = char_int (CHR ''f'') then set_by_strdup h (\<lambda>v g. g\<lparr>userLogFileName := v\<rparr>) cmds m
      else if c = char_int (CHR ''d'') then set_by_strdup h (\<lambda>v g. g\<lparr>userLogFileDir := v\<rparr>) cmds m
      else if c = char_int (CHR ''x'') then
        (Inr cmds, m\<lparr>prog := (prog m)\<lparr>opts := (opts (prog m))\<lparr>logtofile := False\<rparr>\<rparr>\<rparr>)
      else if c = char_int (CHR ''y'') then
        (Inr cmds, m\<lparr>prog := (prog m)\<lparr>opts := (opts (prog m))\<lparr>logtosyslog := False\<rparr>\<rparr>\<rparr>)
      else usage m)"

text \<open>
  The loop. \<^term>\<open>None\<close> is a loop that does not end; \<open>getopt_long\<close> looks up
  \<open>POSIXLY_CORRECT\<close> in the environment.
\<close>

partial_function (option) option_loop :: "build_names \<Rightarrow> host \<Rightarrow> string option \<Rightarrow> main_state \<Rightarrow>
    ((stop + string option) \<times> main_state) option" where
  "option_loop b h cmds m =
     (case getopt_long (getenv (environ (prog m)) ''POSIXLY_CORRECT'') optstring long_options (scanner m) of
        (Inl e, s) \<Rightarrow> Some (Inl e, m\<lparr>scanner := s\<rparr>)
      | (Inr c, s) \<Rightarrow>
          if c = - 1 then Some (collect h cmds (m\<lparr>scanner := s\<rparr>))
          else
            (case option_switch b h c cmds (m\<lparr>scanner := s\<rparr>) of
               (Inl e, m) \<Rightarrow> Some (Inl e, m)
             | (Inr cmds, m) \<Rightarrow> option_loop b h cmds m))"

section \<open>The loop ends\<close>

lemma optstring_facts:
  "no_w optstring" "c_at optstring 0 \<noteq> CHR ''-''" "c_at optstring 0 \<noteq> CHR ''+''"
  "kind_of optstring (CHR ''c'') = Req_Arg"
  by (simp_all add: optstring_def no_w_def c_at_def kind_of_def)

lemma option_switch_scanner:
  assumes "option_switch b h c cmds m = (r, m')" "c \<noteq> char_int (CHR ''c'')"
  shows "scanner m' = scanner m"
  using assms by (auto simp: option_switch_def usage_def version_def print_lines_def
      set_by_strdup_def split: if_splits sum.splits)

lemma collect_result:
  assumes "malloc_ok h = (\<lambda>_. True)"
  shows "collect h cmds m = (Inr (if optind (scanner m) < length (argv (scanner m)) then
      Some ((case cmds of None \<Rightarrow> [] | Some s \<Rightarrow> s)
        @ concat (map (\<lambda>a. a @ '' '') (drop (optind (scanner m)) (argv (scanner m)))))
      else cmds),
    m\<lparr>scanner := (scanner m)\<lparr>optind := max (optind (scanner m)) (length (argv (scanner m)))\<rparr>\<rparr>)"
  using assms consume_eq by (simp add: collect_def)

lemma consume_optind:
  "consume_remaining_args mem v i cmds = Inr (cmds', j) \<Longrightarrow> j = max i (length v)"
proof (induction mem v i cmds rule: consume_remaining_args.induct)
  case (1 mem v i cmds)
  show ?case
  proof (cases "i < length v")
    case True
    with "1.prems" obtain s where "consume_remaining_args mem v (i + 1) (Some (s @ v ! i @ '' '')) = Inr (cmds', j)"
      "(case cmds of None \<Rightarrow> if mem 1 then Inr [] else Inl (Exited EXIT_FAILURE) | Some s \<Rightarrow> Inr s) = Inr s"
      "mem (length s + length (v ! i) + 2)"
      by (subst (asm) consume_remaining_args.simps) (auto simp: result_iff split: if_splits)
    with "1.IH" True show ?thesis by force
  qed (use "1.prems" in \<open>auto simp: consume_remaining_args.simps\<close>)
qed

text \<open>What is left to scan after an option: with \<^verbatim>\<open>-c\<close> everything is consumed at once.\<close>

lemma option_switch_progress:
  assumes "getopt_long P optstring ps g = (Inr c, s)" "getopt_wf g" "c \<noteq> - 1"
    and "option_switch b h c cmds (m\<lparr>scanner := s\<rparr>) = (Inr cmds', m')"
  shows "getopt_wf (scanner m') \<and> scan_left (scanner m') < scan_left g
    \<and> argv (scanner m') = argv s"
proof -
  have s: "getopt_wf s" "scan_left s < scan_left g"
    using getopt_internal_ok [OF assms(2) optstring_facts(1), of P True False "Some ps"] assms(1,3)
    by (auto simp: getopt_long_def)
  show ?thesis
  proof (cases "c = char_int (CHR ''c'')")
    case False
    with option_switch_scanner [OF assms(4)] s show ?thesis by simp
  next
    case True
    with assms(1) have call: "getopt_internal P True False optstring (Some ps) g
        = (Inr (char_int (CHR ''c'')), s)"
      by (simp add: getopt_long_def)
    have p: "unread s = []"
      by (rule getopt_internal_req_arg [OF call assms(2) optstring_facts]) (simp_all add: char_int_def)
    from True assms(4) have "scanner m' = s\<lparr>optind := length (argv s)\<rparr>"
      using s(1) by (auto simp: option_switch_def collect_def getopt_wf_def dest: consume_optind
        split: sum.splits prod.splits)
    with s p show ?thesis by (auto simp: getopt_wf_def scan_left_def)
  qed
qed

text \<open>No branch of the switch is a stop for a loop that goes on for ever.\<close>

lemma consume_stops:
  "consume_remaining_args mem v i cmds = Inl e \<Longrightarrow> e \<noteq> Diverged"
proof (induction mem v i cmds rule: consume_remaining_args.induct)
  case (1 mem v i cmds)
  show ?case
  proof (cases "i < length v")
    case True
    with "1.prems" consider "e = Exited EXIT_FAILURE"
      | s where "consume_remaining_args mem v (i + 1) (Some (s @ v ! i @ '' '')) = Inl e"
        "(case cmds of None \<Rightarrow> if mem 1 then Inr [] else Inl (Exited EXIT_FAILURE) | Some s \<Rightarrow> Inr s) = Inr s"
        "mem (length s + length (v ! i) + 2)"
      by (subst (asm) consume_remaining_args.simps) (auto simp: result_iff split: if_splits option.splits)
    then show ?thesis
    proof cases
      case (2 s)
      with "1.IH" [OF True 2(2)] show ?thesis by blast
    qed simp
  qed (use "1.prems" in \<open>auto simp: consume_remaining_args.simps\<close>)
qed

lemma option_switch_stops: "option_switch b h c cmds m = (Inl e, m') \<Longrightarrow> e \<noteq> Diverged"
  using consume_stops by (auto simp: option_switch_def usage_def version_def collect_def set_by_strdup_def
      split: if_splits sum.splits prod.splits)

lemma option_loop_total:
  "getopt_wf (scanner m) \<Longrightarrow> \<exists>r m'. option_loop b h cmds m = Some (r, m') \<and> r \<noteq> Inl Diverged"
proof (induction "scan_left (scanner m)" arbitrary: cmds m rule: less_induct)
  case less
  let ?P = "getenv (environ (prog m)) ''POSIXLY_CORRECT''"
  obtain c s where c: "getopt_long ?P optstring long_options (scanner m) = (Inr c, s)"
    using getopt_internal_ok [OF less.prems optstring_facts(1), of ?P True False "Some long_options"]
    by (auto simp: getopt_long_def)
  obtain r m' where r: "option_switch b h c cmds (m\<lparr>scanner := s\<rparr>) = (r, m')"
    by (cases "option_switch b h c cmds (m\<lparr>scanner := s\<rparr>)") auto
  show ?case
  proof (cases "c = - 1")
    case True
    with c show ?thesis
      by (subst option_loop.simps) (auto simp: collect_def split: sum.split dest: consume_stops)
  next
    case False
    show ?thesis
    proof (cases r)
      case (Inl e)
      with c r False option_switch_stops show ?thesis by (subst option_loop.simps) auto
    next
      case (Inr cmds')
      from option_switch_progress [OF c less.prems False r [unfolded Inr]] less.hyps [of m' cmds']
      show ?thesis using c r False Inr by (subst option_loop.simps) simp
    qed
  qed
qed

section \<open>What the options do\<close>

text \<open>The specification: the effect of one event on the program's variables.\<close>

definition apply_event :: "rootsh \<Rightarrow> event \<Rightarrow> rootsh" where
  "apply_event g e =
     (let c = fst e; a = snd e in
      if c = char_int (CHR ''i'') then g\<lparr>useLoginShell := True\<rparr>
      else if c = char_int (CHR ''u'') then g\<lparr>runAsUser := a\<rparr>
      else if c = char_int (CHR ''f'') then g\<lparr>userLogFileName := a\<rparr>
      else if c = char_int (CHR ''d'') then g\<lparr>userLogFileDir := a\<rparr>
      else if c = char_int (CHR ''x'') then g\<lparr>opts := (opts g)\<lparr>logtofile := False\<rparr>\<rparr>
      else if c = char_int (CHR ''y'') then g\<lparr>opts := (opts g)\<lparr>logtosyslog := False\<rparr>\<rparr>
      else g)"

text \<open>The events that only set variables.\<close>

definition sets_variable :: "event \<Rightarrow> bool" where
  "sets_variable e \<longleftrightarrow>
     fst e \<in> char_int ` {CHR ''i'', CHR ''x'', CHR ''y''}
     \<or> fst e \<in> char_int ` {CHR ''u'', CHR ''f'', CHR ''d''} \<and> snd e \<noteq> None"

lemma sets_variable_cases:
  assumes "sets_variable e"
  obtains c where "fst e = char_int c" "c \<in> {CHR ''i'', CHR ''x'', CHR ''y''}"
  | c a where "fst e = char_int c" "c \<in> {CHR ''u'', CHR ''f'', CHR ''d''}" "snd e = Some a"
  using assms unfolding sets_variable_def by blast

lemma option_switch_sets:
  assumes "sets_variable (c, optarg (scanner m))" "malloc_ok h = (\<lambda>_. True)"
  shows "option_switch b h c cmds m = (Inr cmds, m\<lparr>prog := apply_event (prog m) (c, optarg (scanner m))\<rparr>)"
  using assms(1)
  by (cases rule: sets_variable_cases)
    (use assms(2) in \<open>auto simp: option_switch_def apply_event_def set_by_strdup_def strdup_def\<close>)

lemma sets_variable_not_end: "sets_variable e \<Longrightarrow> fst e \<noteq> - 1"
  by (cases rule: sets_variable_cases) (auto simp: char_int_def)

text \<open>The loop over events that set variables.\<close>

lemma option_loop_sets:
  assumes "malloc_ok h = (\<lambda>_. True)"
  shows "scanning posix (scanner m) \<Longrightarrow> list_all sets_variable es1 \<Longrightarrow>
    outlook posix optstring long_options (scanner m) = (es1 @ es2, v, i) \<Longrightarrow>
    \<exists>s. scanning posix s \<and> outlook posix optstring long_options s = (es2, v, i)
      \<and> option_loop b h cmds m = option_loop b h cmds (m\<lparr>prog := foldl apply_event (prog m) es1, scanner := s\<rparr>)"
proof (induction es1 arbitrary: m)
  case Nil
  then show ?case by (intro exI [of _ "scanner m"]) simp
next
  case (Cons e es1)
  obtain r s where s: "getopt_long (getenv (environ (prog m)) ''POSIXLY_CORRECT'') optstring long_options (scanner m)
      = (Inr r, s)" "e = (r, optarg s)" "scanning posix s"
      "outlook posix optstring long_options s = (es1 @ es2, v, i)"
    using getopt_long_step [OF Cons.prems(1) optstring_facts(1), of "getenv (environ (prog m)) ''POSIXLY_CORRECT''" long_options]
      Cons.prems(3) by (auto simp: agrees_def)
  let ?m = "m\<lparr>scanner := s, prog := apply_event (prog m) e\<rparr>"
  have "option_switch b h r cmds (m\<lparr>scanner := s\<rparr>) = (Inr cmds, ?m)" "r \<noteq> - 1"
    using option_switch_sets [of r "m\<lparr>scanner := s\<rparr>" h b cmds] Cons.prems(2) assms s(2)
      sets_variable_not_end [of e] by auto
  with s(1) have "option_loop b h cmds m = option_loop b h cmds ?m"
    by (subst option_loop.simps) simp
  with Cons.IH [of ?m] Cons.prems(2) s(3,4) show ?case by auto
qed

lemma option_loop_end:
  assumes "scanning posix (scanner m)" "outlook posix optstring long_options (scanner m) = ([], v, i)"
  shows "\<exists>s. argv s = v \<and> optind s = i
    \<and> option_loop b h cmds m = Some (collect h cmds (m\<lparr>scanner := s\<rparr>))"
  using getopt_long_step [OF assms(1) optstring_facts(1), of "getenv (environ (prog m)) ''POSIXLY_CORRECT''" long_options]
    assms(2) by (subst option_loop.simps) (auto simp: agrees_def)

text \<open>An event that ends the program.\<close>

lemma option_loop_stops:
  assumes "scanning posix (scanner m)" "outlook posix optstring long_options (scanner m) = ((c, a) # es, v, i)"
    "c \<noteq> - 1" "\<And>m. option_switch b h c cmds m = (Inl e, print_lines (f (prog m)) m)"
  shows "\<exists>m'. option_loop b h cmds m = Some (Inl e, m') \<and> stdout_text m' = stdout_text m @ f (prog m)
    \<and> prog m' = prog m"
  using getopt_long_step [OF assms(1) optstring_facts(1), of "getenv (environ (prog m)) ''POSIXLY_CORRECT''" long_options]
    assms(2-4) by (subst option_loop.simps) (auto simp: agrees_def print_lines_def)

lemma option_loop_entered:
  assumes "scanner m = getopt_start v" "v \<noteq> []"
  shows "option_loop b h cmds m = option_loop b h cmds
    (m\<lparr>scanner := entered (getenv (environ (prog m)) ''POSIXLY_CORRECT'') v\<rparr>)"
  using getopt_first_call [OF assms(2) optstring_facts(2,3)] assms(1)
  by (subst (1 2) option_loop.simps) (simp split: prod.splits sum.splits)

lemma option_loop_prefix:
  assumes "scanner m = getopt_start (p # args)" "list_all (\<lambda>a. NUL \<notin> set a) (p # args)"
    "malloc_ok h = (\<lambda>_. True)" "list_all sets_variable es1"
    "scan (getenv (environ (prog m)) ''POSIXLY_CORRECT'' \<noteq> None) optstring long_options args
      = (es1 @ es2, options, operands)"
  shows "\<exists>s. scanning (getenv (environ (prog m)) ''POSIXLY_CORRECT'' \<noteq> None) s
    \<and> outlook (getenv (environ (prog m)) ''POSIXLY_CORRECT'' \<noteq> None) optstring long_options s
      = (es2, p # options @ operands, 1 + length options)
    \<and> option_loop b h cmds m = option_loop b h cmds (m\<lparr>prog := foldl apply_event (prog m) es1, scanner := s\<rparr>)"
proof -
  let ?P = "getenv (environ (prog m)) ''POSIXLY_CORRECT''"
  let ?m = "m\<lparr>scanner := entered ?P (p # args)\<rparr>"
  have "outlook (?P \<noteq> None) optstring long_options (scanner ?m)
      = (es1 @ es2, p # options @ operands, 1 + length options)"
    using entered_outlook [of "?P \<noteq> None" optstring long_options ?P p args] assms(5) by simp
  from option_loop_sets [OF assms(3) _ assms(4) this, of b cmds] entered_scanning [of "p # args" ?P] assms(2)
    option_loop_entered [OF assms(1), of b h cmds]
  show ?thesis by auto
qed

text \<open>An event that does not set a variable is the last one: the program ends, or it is
  \<^verbatim>\<open>-c\<close>, behind which everything is a command. Neither changes the variables.\<close>

lemma scanning_wf: "scanning posix g \<Longrightarrow> getopt_wf g"
  by (auto simp: scanning_def ordered_def getopt_wf_def)

lemma option_switch_last:
  assumes "\<not> sets_variable (c, optarg (scanner m))" "c \<noteq> char_int (CHR ''c'')"
  shows "\<exists>e m'. option_switch b h c cmds m = (Inl e, m')"
  using assms by (auto simp: option_switch_def usage_def version_def set_by_strdup_def strdup_def
      sets_variable_def)

lemma option_loop_last:
  assumes "scanning posix (scanner m)" "outlook posix optstring long_options (scanner m) = ((c, a) # es, v, i)"
    "\<not> sets_variable (c, a)" "option_loop b h cmds m = Some (Inr cmds', m')" "getopt_wf (scanner m)" "c \<noteq> - 1"
  shows "prog m' = prog m \<and> c = char_int (CHR ''c'')"
proof -
  have collect: "prog n' = prog n \<and> (\<exists>j. scanner n' = (scanner n)\<lparr>optind := j\<rparr>)"
    if "collect h d n = (Inr d', n')" for d d' n n'
    using that by (auto simp: collect_def split: sum.splits prod.splits)
  obtain s where s: "getopt_long (getenv (environ (prog m)) ''POSIXLY_CORRECT'') optstring long_options (scanner m)
      = (Inr c, s)" "a = optarg s" "scanning posix s"
    using getopt_long_step [OF assms(1) optstring_facts(1), of "getenv (environ (prog m)) ''POSIXLY_CORRECT''" long_options]
      assms(2) by (auto simp: agrees_def)
  note loop = assms(4) [unfolded option_loop.simps [of b h cmds m] s(1)]
  have c: "c = char_int (CHR ''c'')"
  proof (rule ccontr)
    assume "c \<noteq> char_int (CHR ''c'')"
    with option_switch_last [of c "m\<lparr>scanner := s\<rparr>" b h cmds] assms(3) s(2) obtain e n where
      "option_switch b h c cmds (m\<lparr>scanner := s\<rparr>) = (Inl e, n)" by auto
    with loop assms(6) show False by simp
  qed
  let ?n = "m\<lparr>scanner := s\<lparr>optind := optind s - 1\<rparr>\<rparr>"
  from loop assms(6) obtain d n' where
    n': "collect h cmds ?n = (Inr d, n')" "option_loop b h d n' = Some (Inr cmds', m')"
    by (auto simp: option_switch_def c split: prod.splits sum.splits)
  have sw: "option_switch b h c cmds (m\<lparr>scanner := s\<rparr>) = (Inr d, n')"
    using n'(1) by (simp add: option_switch_def c)
  have wf: "getopt_wf s"
    using getopt_internal_ok [OF assms(5) optstring_facts(1), of _ True False "Some long_options"] s(1)
    by (metis (no_types, lifting) getopt_long_def old.prod.inject)
  have "getopt_internal (getenv (environ (prog m)) ''POSIXLY_CORRECT'') True False optstring
      (Some long_options) (scanner m) = (Inr (char_int (CHR ''c'')), s)"
    using s(1) c by (simp add: getopt_long_def)
  from getopt_internal_req_arg [OF this assms(5) optstring_facts]
  have u: "unread s = []" by (simp add: char_int_def)
  have p: "prog n' = prog m" "argv (scanner n') = argv s" "optind (scanner n') = length (argv s)"
      "scanner n' = s\<lparr>optind := length (argv s)\<rparr>"
    using n'(1) wf by (auto simp: collect_def getopt_wf_def dest: consume_optind split: sum.splits prod.splits)
  have "scanning posix (scanner n')"
    using s(3) wf u by (auto simp: p(4) scanning_def ordered_def unread_def getopt_wf_def)
  moreover obtain v' i' where "outlook posix optstring long_options (scanner n') = ([], v', i')"
    using u by (cases posix) (simp_all add: p(4) outlook_def parts_defs unread_def)
  ultimately obtain t where "option_loop b h d n' = Some (collect h d (n'\<lparr>scanner := t\<rparr>))"
    using option_loop_end by blast
  with n'(2) collect [of d "n'\<lparr>scanner := t\<rparr>"] p(1) show ?thesis by (simp add: c)
qed

text \<open>Whatever the command line is, the program that goes on has carried out its options up to the
  first \<^verbatim>\<open>-c\<close>, and these all set variables.\<close>

definition before_c :: "event list \<Rightarrow> event list" where
  "before_c es = takeWhile (\<lambda>e. fst e \<noteq> char_int (CHR ''c'')) es"

lemma no_event_ends:
  assumes "scan posix optstring long_options args = (es, options, operands)"
  shows "list_all (\<lambda>e. fst e \<noteq> - 1) es"
proof -
  have v: "list_all (\<lambda>v. v \<noteq> - 1) (map opt_val long_options)"
    by (simp add: long_options_def char_int_def)
  have "char_int (CHR 0xFF) = - 1" "kind_of optstring (CHR 0xFF) = Bad"
    by (simp_all add: char_int_def kind_of_def optstring_def)
  then have c: "char_int c \<noteq> - 1" if "kind_of optstring c \<noteq> Bad" for c
    using that char_int_inj by metis
  have "char_int (CHR ''?'') \<noteq> - 1" "missing_arg optstring \<noteq> - 1"
    by (simp_all add: missing_arg_def char_int_def optstring_def c_at_def)
  with c have "fst e \<noteq> - 1" if "proper optstring e" for e
    using that unfolding proper_def by metis
  with v scan_values [OF assms] show ?thesis by (fastforce simp: list_all_iff)
qed

lemma sets_variable_before_c: "sets_variable e \<Longrightarrow> fst e \<noteq> char_int (CHR ''c'')"
  by (cases rule: sets_variable_cases) auto

lemma option_loop_prog:
  assumes "scanner m = getopt_start (p # args)" "list_all (\<lambda>a. NUL \<notin> set a) (p # args)"
    "malloc_ok h = (\<lambda>_. True)"
    "scan (getenv (environ (prog m)) ''POSIXLY_CORRECT'' \<noteq> None) optstring long_options args
      = (es, options, operands)"
    "option_loop b h None m = Some (Inr cmds, m')"
  shows "prog m' = foldl apply_event (prog m) (before_c es)"
proof -
  let ?posix = "getenv (environ (prog m)) ''POSIXLY_CORRECT'' \<noteq> None" and ?es = "takeWhile sets_variable es"
  have sets: "\<forall>e \<in> set ?es. sets_variable e" by (auto dest: set_takeWhileD)
  then have "list_all sets_variable ?es" by (simp add: list_all_iff)
  from option_loop_prefix [OF assms(1-3) this, of "dropWhile sets_variable es" options operands b None] assms(4)
  obtain s where s: "scanning ?posix s"
    "outlook ?posix optstring long_options s = (dropWhile sets_variable es, p # options @ operands, 1 + length options)"
    "option_loop b h None m = option_loop b h None (m\<lparr>prog := foldl apply_event (prog m) ?es, scanner := s\<rparr>)"
    by auto
  let ?n = "m\<lparr>prog := foldl apply_event (prog m) ?es, scanner := s\<rparr>"
  have "prog m' = prog ?n \<and> before_c es = ?es"
  proof (cases "dropWhile sets_variable es")
    case Nil
    with option_loop_end [of ?posix ?n "p # options @ operands" "1 + length options" b h None] s(1,2)
    obtain t where "option_loop b h None ?n = Some (collect h None (?n\<lparr>scanner := t\<rparr>))" by auto
    moreover have "?es = es" using Nil by simp
    then have "before_c es = es"
      using sets sets_variable_before_c by (auto simp: before_c_def takeWhile_eq_all_conv)
    ultimately show ?thesis
      using s(3) assms(5) unfolding \<open>?es = es\<close> by (auto simp: collect_def split: sum.splits prod.splits)
  next
    case (Cons e rest)
    then have e: "\<not> sets_variable (fst e, snd e)"
      using hd_dropWhile [of sets_variable es] by (metis list.sel(1) list.distinct(1) prod.collapse)
    have es: "es = ?es @ e # rest" using Cons by (metis takeWhile_dropWhile_id)
    have wf: "getopt_wf s" using s(1) by (rule scanning_wf)
    have "e \<in> set es" using es by (metis in_set_conv_decomp)
    then have "fst e \<noteq> - 1" using no_event_ends [OF assms(4)] by (simp add: list_all_iff)
    from option_loop_last [of ?posix ?n "fst e" "snd e" rest "p # options @ operands" "1 + length options" b h None cmds m']
      s(1,2) Cons e wf assms(5) [unfolded s(3)] this
    have "prog m' = prog ?n" and c: "fst e = char_int (CHR ''c'')" by simp_all
    have "takeWhile (\<lambda>e. fst e \<noteq> char_int (CHR ''c'')) (?es @ e # rest) = ?es"
      using sets sets_variable_before_c c by (subst takeWhile_append2) auto
    with es \<open>prog m' = prog ?n\<close> show ?thesis by (metis before_c_def)
  qed
  then show ?thesis by simp
qed

section \<open>Command lines\<close>

definition words :: "string list \<Rightarrow> string" where
  "words v = concat (map (\<lambda>a. a @ '' '') v)"

lemma words_simps [simp]: "words [] = []" "words (u @ v) = words u @ words v"
  "words (a # v) = a @ '' '' @ words v"
  by (simp_all add: words_def)

lemma option_loop_carried_out:
  assumes "scanner m = getopt_start (p # args)" "list_all (\<lambda>a. NUL \<notin> set a) (p # args)"
    "malloc_ok h = (\<lambda>_. True)"
    "scan (getenv (environ (prog m)) ''POSIXLY_CORRECT'' \<noteq> None) optstring long_options args
      = (es, options, operands)"
    "list_all sets_variable es"
  shows "\<exists>m'. option_loop b h None m = Some (Inr (if operands = [] then None else Some (words operands)), m')
    \<and> prog m' = foldl apply_event (prog m) es \<and> stdout_text m' = stdout_text m"
proof -
  have "scan (getenv (environ (prog m)) ''POSIXLY_CORRECT'' \<noteq> None) optstring long_options args
      = (es @ [], options, operands)"
    using assms(4) by simp
  from option_loop_prefix [OF assms(1-3,5) this] obtain s where
    s: "scanning (getenv (environ (prog m)) ''POSIXLY_CORRECT'' \<noteq> None) s"
      "outlook (getenv (environ (prog m)) ''POSIXLY_CORRECT'' \<noteq> None) optstring long_options s
        = ([], p # options @ operands, 1 + length options)"
      "option_loop b h None m = option_loop b h None (m\<lparr>prog := foldl apply_event (prog m) es, scanner := s\<rparr>)"
    by blast
  let ?n = "m\<lparr>prog := foldl apply_event (prog m) es, scanner := s\<rparr>"
  from s(1,2) have "scanning (getenv (environ (prog m)) ''POSIXLY_CORRECT'' \<noteq> None) (scanner ?n)"
    "outlook (getenv (environ (prog m)) ''POSIXLY_CORRECT'' \<noteq> None) optstring long_options (scanner ?n)
      = ([], p # options @ operands, 1 + length options)" by simp_all
  from option_loop_end [OF this, of b h None] obtain u where
    "argv u = p # options @ operands" "optind u = 1 + length options"
    "option_loop b h None ?n = Some (collect h None (?n\<lparr>scanner := u\<rparr>))"
    by blast
  with s(3) show ?thesis by (simp add: collect_result [OF assms(3)] words_def)
qed

section \<open>The option \<open>-c\<close>\<close>

text \<open>The first call, for operands followed by an element that starts with \<^verbatim>\<open>-c\<close>.\<close>

lemma dash_c_call:
  assumes "list_all nonoption_p pre" "t = [] \<Longrightarrow> rest \<noteq> []"
    and "g = entered None (p # pre @ (''-c'' @ t) # rest)" "list_all (\<lambda>a. NUL \<notin> set a) (argv g)"
  shows "\<exists>s. getopt_long None optstring long_options g = (Inr (char_int (CHR ''c'')), s)
    \<and> argv s = argv g \<and> optind s = length pre + (if t = [] then 3 else 2) \<and> nextchar s = None
    \<and> first_nonopt s = 1 \<and> last_nonopt s = 1 + length pre \<and> getopt_initialized s
    \<and> arg_order s = PERMUTE"
proof -
  let ?d = "''-c'' @ t"
  define h where "h = g\<lparr>optarg := None\<rparr>"
  have sc: "scanning False g" using entered_scanning [of _ None] assms(3,4)
    by (simp add: entered_def getopt_start_def)
  have h: "ordered h" "unread h = []" "arg_order h = PERMUTE" "getopt_initialized h"
    "argv h = p # pre @ ?d # rest" "optind h = 1"
    by (simp_all add: h_def assms(3) entered_def getopt_start_def ordered_def unread_def)
  have parts: "done_part h = [p]" "skipped_part h = []" "todo_part h = pre @ ?d # rest"
    by (simp_all add: h_def assms(3) entered_def getopt_start_def parts_defs)
  have d: "\<not> nonoption_p ?d" "?d \<noteq> ''--''" "c_at ?d 1 \<noteq> CHR ''-''"
    by (simp_all add: nonoption_p_def c_at_def)
  have tw: "takeWhile nonoption_p (pre @ ?d # rest) = pre" "dropWhile nonoption_p (pre @ ?d # rest) = ?d # rest"
    using assms(1) d(1) by (simp_all add: takeWhile_append dropWhile_append list_all_iff)
  define k where "k = (permute_step h)\<lparr>nextchar := Some (CHR ''c'' # t)\<rparr>"
  have adv: "advance (Some long_options) h = (Inr None, k)"
    using advance_eq [OF h(1) refl, of "Some long_options"] permute_step_parts(4) [OF h(1)] parts tw d h(3)
    by (simp add: k_def)
  have k: "argv k = p # pre @ ?d # rest" "first_nonopt k = 1" "last_nonopt k = 1 + length pre"
    "optind k = 1 + length pre" "getopt_initialized k" "arg_order k = PERMUTE"
    "nextchar k = Some (CHR ''c'' # t)"
    using permute_step_eq [OF h(1)] parts tw h by (simp_all add: k_def)
  have "argv k ! optind k = ?d" using k by (simp add: nth_append)
  then have "\<exists>s. decode_element False pe True optstring (Some long_options) k = (Inr (char_int (CHR ''c'')), s)
    \<and> argv s = argv k \<and> optind s = length pre + (if t = [] then 3 else 2) \<and> nextchar s = None
    \<and> first_nonopt s = 1 \<and> last_nonopt s = 1 + length pre \<and> getopt_initialized s
    \<and> arg_order s = PERMUTE" for pe
    using k d(3) assms(2) optstring_facts(4)
    by (cases rest) (auto simp: decode_element_def arg_at_def long_syntax_def eat_char_def short_argument_def
      short_option_kind [OF k(7) optstring_facts(1)])
  moreover have "argv g = argv k" using k h by (simp add: h_def)
  ultimately show ?thesis
    using adv h(2) by (simp add: getopt_long_scanning [OF sc] h_def Let_def)
qed

lemma dash_c_loop:
  assumes "list_all nonoption_p pre" "t = [] \<Longrightarrow> rest \<noteq> []"
    and "scanner m = getopt_start (p # pre @ (''-c'' @ t) # rest)"
    and "list_all (\<lambda>a. NUL \<notin> set a) (argv (scanner m))" "malloc_ok h = (\<lambda>_. True)"
    and "getenv (environ (prog m)) ''POSIXLY_CORRECT'' = None"
  shows "\<exists>m'. option_loop b h None m = Some (Inr (Some (words
      ((if t = [] then rest else (''-c'' @ t) # rest) @ pre))), m') \<and> prog m' = prog m"
proof -
  let ?v = "p # pre @ (''-c'' @ t) # rest"
  let ?g = "entered None ?v"
  have nul: "list_all (\<lambda>a. NUL \<notin> set a) (argv ?g)"
    using assms(3,4) by (simp add: entered_def getopt_start_def)
  from dash_c_call [OF assms(1,2) refl nul] obtain s where
    s: "getopt_long None optstring long_options ?g = (Inr (char_int (CHR ''c'')), s)" "argv s = argv ?g"
      "optind s = length pre + (if t = [] then 3 else 2)" "nextchar s = None" "first_nonopt s = 1"
      "last_nonopt s = 1 + length pre" "getopt_initialized s" "arg_order s = PERMUTE"
    by blast
  have v: "argv ?g = ?v" by (simp add: entered_def getopt_start_def)
  let ?s = "s\<lparr>optind := length ?v\<rparr>"
  let ?cmds = "if t = [] then rest else (''-c'' @ t) # rest"
  have "option_switch b h (char_int (CHR ''c'')) None (m\<lparr>scanner := s\<rparr>)
      = (Inr (Some (words ?cmds)), m\<lparr>scanner := ?s\<rparr>)"
    using s v assms(2) by (cases rest) (auto simp: option_switch_def collect_result [OF assms(5)] words_def)
  moreover have "char_int (CHR ''c'') \<noteq> - 1" by (simp add: char_int_def)
  ultimately have loop: "option_loop b h None m = option_loop b h (Some (words ?cmds)) (m\<lparr>scanner := ?s\<rparr>)"
    using getopt_first_call [OF _ optstring_facts(2,3), of ?v None] s(1) assms(3,6)
    by (subst option_loop.simps) simp
  have sc: "scanning False ?s" and out: "outlook False optstring long_options ?s
      = ([], p # (''-c'' @ t) # rest @ pre, length (p # (''-c'' @ t) # rest))"
    using s v nul by (auto simp: scanning_def ordered_def unread_def outlook_def parts_defs)
  obtain u where u: "argv u = p # (''-c'' @ t) # rest @ pre" "optind u = length (p # (''-c'' @ t) # rest)"
    "option_loop b h (Some (words ?cmds)) (m\<lparr>scanner := ?s\<rparr>)
      = Some (collect h (Some (words ?cmds)) (m\<lparr>scanner := u\<rparr>))"
    using option_loop_end [of False "m\<lparr>scanner := ?s\<rparr>" _ _ b h "Some (words ?cmds)"] sc out by auto
  show ?thesis
    using u by (cases pre) (simp_all add: loop collect_result [OF assms(5)] words_def)
qed

section \<open>Properties\<close>

definition sample_names :: build_names where
  "sample_names = \<lparr>CONFIGFILE = ''/etc/rootsh.cfg'', VERSION = ''1.6.2'',
     SYSLOGFACILITYNAME = ''local5'', SYSLOGPRIORITYNAME = ''notice'', SUCMD_defined = True\<rparr>"

definition sample_main :: "string list \<Rightarrow> main_state" where
  "sample_main args = \<lparr>prog = sample_rootsh, scanner = getopt_start (''rootsh'' # args), stdout_text = []\<rparr>"

lemma sample_environ [simp]: "getenv (environ sample_rootsh) ''POSIXLY_CORRECT'' = None"
  by (simp add: sample_rootsh_def)

text \<open>Reading the options comes to an end, from every well-formed state of the scanner and
  whatever the arguments are; memory running out only ends it sooner.\<close>

theorem option_loop_ends:
  assumes "getopt_wf (scanner m)"
  shows "option_loop b h cmds m \<noteq> None"
  using option_loop_total [OF assms, of b h cmds] by auto

theorem option_loop_ends_witness:
  "option_loop sample_names sample_host None (sample_main [''-c'', ''id'', ''-c'', ''--'']) \<noteq> None"
  by (rule option_loop_ends) (simp add: sample_main_def getopt_wf_def getopt_start_def)

text \<open>C8: When all options of a command line, in whatever order, clustered, abbreviated or with
  attached arguments, only set variables, the loop sets exactly these, in order, and the operands,
  each followed by a blank, are the commands for the shell.\<close>

theorem command_line_is_carried_out:
  assumes "scanner m = getopt_start (p # args)" "list_all (\<lambda>a. NUL \<notin> set a) (p # args)"
    "malloc_ok h = (\<lambda>_. True)"
    "scan (getenv (environ (prog m)) ''POSIXLY_CORRECT'' \<noteq> None) optstring long_options args
      = (es, options, operands)"
    "list_all sets_variable es"
  shows "\<exists>m'. option_loop b h None m = Some (Inr (if operands = [] then None else Some (words operands)), m')
    \<and> prog m' = foldl apply_event (prog m) es \<and> stdout_text m' = stdout_text m"
  by (rule option_loop_carried_out [OF assms])

theorem command_line_is_carried_out_witness:
  "\<exists>m'. option_loop sample_names sample_host None (sample_main [''ls'', ''-xd/tmp'', ''--logf'', ''l'', ''.''])
      = Some (Inr (Some ''ls . ''), m')
    \<and> prog m' = sample_rootsh\<lparr>opts := linux_settings\<lparr>logtofile := False\<rparr>,
        userLogFileDir := Some ''/tmp'', userLogFileName := Some ''l''\<rparr> \<and> stdout_text m' = []"
  using command_line_is_carried_out [of "sample_main [''ls'', ''-xd/tmp'', ''--logf'', ''l'', ''.'']" "''rootsh''"
      "[''ls'', ''-xd/tmp'', ''--logf'', ''l'', ''.'']" sample_host
      "[(char_int (CHR ''x''), None), (char_int (CHR ''d''), Some ''/tmp''), (char_int (CHR ''f''), Some ''l'')]"
      "[''-xd/tmp'', ''--logf'', ''l'']" "[''ls'', ''.'']" sample_names]
  by (simp add: sample_main_def scan.simps nonoption_p_def c_at_def element_events_def kind_of_def
      optstring_def long_options_def long_event_def find_long_def name_part_def value_part_def
      sets_variable_def apply_event_def sample_rootsh_def)

text \<open>C33: The first option that asks for help, or that is not understood, ends the program after
  the help text, with the exit status of success, when the options before it only set variables;
  these have been set, in order, and nothing else of the program's variables has changed.\<close>

theorem help_and_errors_exit_successfully:
  assumes "scanner m = getopt_start (p # args)" "list_all (\<lambda>a. NUL \<notin> set a) (p # args)"
    "malloc_ok h = (\<lambda>_. True)"
    "scan (getenv (environ (prog m)) ''POSIXLY_CORRECT'' \<noteq> None) optstring long_options args
      = (es @ (c, a) # es', options, operands)"
    "list_all sets_variable es" "c = char_int (CHR ''h'') \<or> c = char_int (CHR ''?'')"
  shows "\<exists>m'. option_loop b h None m = Some (Inl (Exited EXIT_SUCCESS), m')
    \<and> stdout_text m' = stdout_text m @ usage_text (foldl apply_event (prog m) es)
    \<and> prog m' = foldl apply_event (prog m) es"
proof -
  from option_loop_prefix [OF assms(1-3,5,4)] obtain s where
    s: "scanning (getenv (environ (prog m)) ''POSIXLY_CORRECT'' \<noteq> None) s"
      "outlook (getenv (environ (prog m)) ''POSIXLY_CORRECT'' \<noteq> None) optstring long_options s
        = ((c, a) # es', p # options @ operands, 1 + length options)"
      "option_loop b h None m = option_loop b h None (m\<lparr>prog := foldl apply_event (prog m) es, scanner := s\<rparr>)"
    by blast
  have "c \<noteq> - 1" using assms(6) by (auto simp: char_int_def)
  moreover have "option_switch b h c None n = (Inl (Exited EXIT_SUCCESS), print_lines (usage_text (prog n)) n)" for n
    using assms(6) by (simp add: option_switch_def usage_def)
  ultimately show ?thesis
    using option_loop_stops [of "getenv (environ (prog m)) ''POSIXLY_CORRECT'' \<noteq> None"
        "m\<lparr>prog := foldl apply_event (prog m) es, scanner := s\<rparr>" c a es' _ _ b h None
        "Exited EXIT_SUCCESS" usage_text] s by (simp del: not_None_eq)
qed

theorem help_and_errors_exit_successfully_witness:
  "\<exists>m'. option_loop sample_names sample_host None (sample_main [''-xz'', ''ls''])
      = Some (Inl (Exited EXIT_SUCCESS), m') \<and> stdout_text m' = usage_text sample_rootsh
      \<and> prog m' = sample_rootsh\<lparr>opts := linux_settings\<lparr>logtofile := False\<rparr>\<rparr>"
  using help_and_errors_exit_successfully [of "sample_main [''-xz'', ''ls'']" "''rootsh''"
      "[''-xz'', ''ls'']" sample_host "[(char_int (CHR ''x''), None)]" "char_int (CHR ''?'')" None "[]"
      "[''-xz'']" "[''ls'']" sample_names]
  by (simp add: sample_main_def scan.simps nonoption_p_def c_at_def element_events_def kind_of_def
      optstring_def sets_variable_def apply_event_def usage_text_def sample_rootsh_def)

text \<open>C22: Everything behind \<open>-c\<close>, options included, becomes the command, and operands that
  stood in front of it are put behind it.\<close>

theorem dash_c_takes_the_rest:
  assumes "scanner m = getopt_start (p # pre @ [''-c'', cmd] @ rest)" "list_all nonoption_p pre"
    "list_all (\<lambda>a. NUL \<notin> set a) (p # pre @ [''-c'', cmd] @ rest)" "malloc_ok h = (\<lambda>_. True)"
    "getenv (environ (prog m)) ''POSIXLY_CORRECT'' = None"
  shows "\<exists>m'. option_loop b h None m = Some (Inr (Some (words (cmd # rest @ pre))), m')
    \<and> prog m' = prog m"
  using dash_c_loop [of pre "[]" "cmd # rest" m p h b] assms by (simp add: getopt_start_def)

theorem dash_c_takes_the_rest_witness:
  "\<exists>m'. option_loop sample_names sample_host None (sample_main [''a'', ''-c'', ''ls'', ''-y'', ''--''])
      = Some (Inr (Some ''ls -y -- a ''), m') \<and> prog m' = sample_rootsh"
  using dash_c_takes_the_rest [of "sample_main [''a'', ''-c'', ''ls'', ''-y'', ''--'']" "''rootsh''" "[''a'']" "''ls''"
      "[''-y'', ''--'']" sample_host sample_names]
  by (simp add: sample_main_def nonoption_p_def c_at_def)

text \<open>C31: A command attached to its option, as in \<^verbatim>\<open>-cid\<close>, reaches the shell with the
  option itself in front: backing up \<open>optind\<close> by one goes to the element of the option.\<close>

theorem attached_command_keeps_its_option:
  assumes "scanner m = getopt_start (p # (''-c'' @ cmd) # rest)" "cmd \<noteq> []"
    "list_all (\<lambda>a. NUL \<notin> set a) (p # (''-c'' @ cmd) # rest)" "malloc_ok h = (\<lambda>_. True)"
    "getenv (environ (prog m)) ''POSIXLY_CORRECT'' = None"
  shows "\<exists>m'. option_loop b h None m = Some (Inr (Some (words ((''-c'' @ cmd) # rest))), m')"
  using dash_c_loop [of "[]" cmd rest m p h b] assms by (auto simp: getopt_start_def)

theorem attached_command_keeps_its_option_witness:
  "\<exists>m'. option_loop sample_names sample_host None (sample_main [''-cid'']) = Some (Inr (Some ''-cid ''), m')"
  using attached_command_keeps_its_option [of "sample_main [''-cid'']" "''rootsh''" "''id''" "[]" sample_host sample_names]
  by (simp add: sample_main_def)

end
