(* ===== verification/Session.thy ===== *)
theory Session
  imports Setup "HOL-Library.Word" "HOL-Library.Sublist"
begin

text \<open>
  The running session: the terminal settings, the signal handlers and their flags, the event loop
  \<open>logSession\<close>, its end \<open>finish\<close>, and the part of \<open>main\<close> that prepares it, all of
  \<^verbatim>\<open>rootsh.c\<close>. What \<open>pselect\<close>, \<open>read\<close>, \<open>write\<close> and \<open>wait\<close> answer is the
  event; one event is a signal delivered or one round of the loop.
\<close>

unbundle bit_operations_syntax

section \<open>The terminal\<close>

record termios =
  c_iflag :: "32 word"
  c_oflag :: "32 word"
  c_lflag :: "32 word"
  c_vmin :: nat
  c_vtime :: nat

definition OPOST :: "32 word" where "OPOST = 1"
definition ISIG :: "32 word" where "ISIG = 1"
definition ICANON :: "32 word" where "ICANON = 2"
definition ECHO :: "32 word" where "ECHO = 8"
definition INLCR :: "32 word" where "INLCR = 64"
definition IGNCR :: "32 word" where "IGNCR = 128"
definition ICRNL :: "32 word" where "ICRNL = 256"
definition IUCLC :: "32 word" where "IUCLC = 512"
definition IXON :: "32 word" where "IXON = 1024"

definition raw_tty :: "termios \<Rightarrow> termios" where
  "raw_tty t =
     t\<lparr>c_vmin := 1, c_vtime := 0, c_oflag := c_oflag t AND NOT OPOST,
       c_lflag := c_lflag t AND NOT (ICANON OR ISIG OR ECHO),
       c_iflag := c_iflag t AND NOT (INLCR OR IGNCR OR ICRNL OR IUCLC OR IXON)\<rparr>"

section \<open>The state\<close>

datatype signal = SIGINT | SIGQUIT | SIGCHLD | SIGWINCH | Other_Signal nat

text \<open>How the child ended, as \<open>wait\<close> and its macros tell.\<close>

datatype wait_result = Wait_Error string | If_Exited int | If_Signaled nat | If_Other

record term_host =
  base :: host
  isatty0 :: bool
  tcsetattr_error :: "string option"
  window_size :: "nat \<times> nat"
  wait_result :: wait_result

record session =
  core :: rootsh
  sigWinchReceived :: bool
  sigIntReceived :: bool
  sigQuitReceived :: bool
  sigChldReceived :: bool
  tty :: termios
  termParams :: termios
  newTty :: termios
  winSize :: "nat \<times> nat"
  pty_size :: "nat \<times> nat"
  child_winches :: nat
  pty_open :: bool
  to_pty :: buffer
  from_pty :: buffer
  to_screen :: buffer

text \<open>
  The last six fields are what the program does to the world: the size the pseudo terminal was
  given, the \<open>SIGWINCH\<close> signals sent to the child, whether the pseudo terminal is open, what
  was written to it, read from it and written to the screen.
\<close>

text \<open>An operation on the program's variables within the session.\<close>

definition in_core :: "(rootsh \<Rightarrow> (stop + 'a) \<times> rootsh) \<Rightarrow> session \<Rightarrow> (stop + 'a) \<times> session" where
  "in_core m s = (case m (core s) of (r, g) \<Rightarrow> (r, s\<lparr>core := g\<rparr>))"

section \<open>Signals\<close>

definition signalHandler :: "signal \<Rightarrow> session \<Rightarrow> session" where
  "signalHandler sig s =
     (case sig of
        SIGINT \<Rightarrow> s\<lparr>sigIntReceived := True\<rparr>
      | SIGQUIT \<Rightarrow> s\<lparr>sigQuitReceived := True\<rparr>
      | SIGCHLD \<Rightarrow> s\<lparr>sigChldReceived := True\<rparr>
      | SIGWINCH \<Rightarrow> s\<lparr>sigWinchReceived := True\<rparr>
      | Other_Signal n \<Rightarrow>
          s\<lparr>core := print_error (''Unexpected signal received: '' @ dec n) (core s)\<rparr>)"

text \<open>\<open>setupSignalHandlers\<close> after the handlers are installed: signals that came before are
  forgotten.\<close>

definition setupSignalHandlers :: "session \<Rightarrow> session" where
  "setupSignalHandlers s = s\<lparr>sigWinchReceived := False, sigIntReceived := False,
     sigQuitReceived := False, sigChldReceived := False\<rparr>"

section \<open>The end\<close>

definition ended_by_user :: "rootsh \<Rightarrow> string" where
  "ended_by_user g = [LF] @ ''*** '' @ progName g @ '' session ended by user'' @ CRLF"

definition wait_message :: "wait_result \<Rightarrow> rootsh \<Rightarrow> string \<times> int" where
  "wait_message r g =
     (case r of
        Wait_Error err \<Rightarrow> (''Error getting status of child process: '' @ err, EXIT_FAILURE)
      | If_Exited code \<Rightarrow> (ended_by_user g, code)
      | If_Signaled sig \<Rightarrow>
          ([LF] @ ''*** '' @ progName g @ '' session interrupted by signal '' @ dec sig @ CRLF, EXIT_FAILURE)
      | If_Other \<Rightarrow>
          ([LF] @ ''*** '' @ progName g @ '' session ended for unknown reason'' @ CRLF, EXIT_FAILURE))"

definition finish :: "term_host \<Rightarrow> session \<Rightarrow> (stop + unit) \<times> session" where
  "finish t s =
     (let s = (if isatty0 t then
                 (if tcsetattr_error t \<noteq> None then
                    s\<lparr>core := print_error ''tcsetattr: stdin'' (core s)\<rparr>
                  else s\<lparr>tty := termParams s\<rparr>)
               else s);
          (msg, exitStatus) = wait_message (wait_result t) (core s) in
      bindM (in_core (log_message (base t) msg)) (\<lambda>_.
      bindM (in_core (endlogging (base t))) (\<lambda>_ s.
      (Inl (Exited exitStatus), s\<lparr>pty_open := False\<rparr>))) s)"

section \<open>The loop\<close>

datatype read_result = Data buffer | Read_Error string

text \<open>The result of \<open>write\<close>, negative for an error, and the text of the error number then.\<close>

datatype write_result = Write_Result int string

text \<open>What \<open>write\<close> passes on of a block.\<close>

definition written :: "int \<Rightarrow> buffer \<Rightarrow> buffer" where
  "written n buf = take (nat n) buf"

datatype wakeup =
    Select_Error string
  | Interrupted
  | Ready "(read_result \<times> write_result) option" "(read_result \<times> write_result) option"

definition log_and_exit :: "host \<Rightarrow> string \<Rightarrow> session \<Rightarrow> (stop + unit) \<times> session" where
  "log_and_exit h msg =
     bindM (in_core (log_message h msg)) (\<lambda>_ s. (Inl (Exited EXIT_FAILURE), s))"

definition user_typed ::
  "host \<Rightarrow> (read_result \<times> write_result) option \<Rightarrow> session \<Rightarrow> (stop + unit) \<times> session" where
  "user_typed h ready s =
     (case ready of
        None \<Rightarrow> (Inr (), s)
      | Some (Read_Error err, w) \<Rightarrow> log_and_exit h (''read - stdin: '' @ err) s
      | Some (Data buf, w) \<Rightarrow>
          (case w of
             Write_Result n err \<Rightarrow>
               let s = s\<lparr>to_pty := to_pty s @ written n buf\<rparr> in
               if n \<noteq> int (length buf) then log_and_exit h (''write - pty: '' @ err) s
               else (Inr (), s)))"

definition pty_output ::
  "host \<Rightarrow> (read_result \<times> write_result) option \<Rightarrow> session \<Rightarrow> (stop + unit) \<times> session" where
  "pty_output h ready s =
     (case ready of
        None \<Rightarrow> (Inr (), s)
      | Some (Read_Error err, w) \<Rightarrow> (Inr (), s)
      | Some (Data buf, w) \<Rightarrow>
          if length buf > 0 then
            let s = s\<lparr>from_pty := from_pty s @ buf\<rparr> in
            bindM (in_core (dologging h buf (length buf))) (\<lambda>_ s.
              case w of
                Write_Result n err \<Rightarrow>
                  let s = s\<lparr>to_screen := to_screen s @ written n buf\<rparr> in
                  if n < 0 then log_and_exit h (''write - stdout: '' @ err) s else (Inr (), s)) s
          else (Inr (), s))"

definition handle_winch :: "term_host \<Rightarrow> session \<Rightarrow> session" where
  "handle_winch t s =
     (if sigWinchReceived s then
        s\<lparr>winSize := window_size t, pty_size := window_size t,
          child_winches := child_winches s + 1, sigWinchReceived := False\<rparr>
      else s)"

text \<open>One round of the loop, from the return of \<open>pselect\<close> on.\<close>

definition loop_round :: "term_host \<Rightarrow> wakeup \<Rightarrow> session \<Rightarrow> (stop + unit) \<times> session" where
  "loop_round t w =
     bindM (\<lambda>s.
       case w of
         Select_Error err \<Rightarrow> log_and_exit (base t) (''select: '' @ err) s
       | Interrupted \<Rightarrow> (Inr (), s)
       | Ready typed output \<Rightarrow>
           bindM (user_typed (base t) typed) (\<lambda>_. pty_output (base t) output) s)
     (\<lambda>_ s.
       let s = handle_winch t s in
       if sigIntReceived s \<or> sigQuitReceived s \<or> sigChldReceived s then
         bindM (finish t) (\<lambda>_ s. (Inr (), s\<lparr>sigIntReceived := False, sigQuitReceived := False,
           sigChldReceived := False\<rparr>)) s
       else (Inr (), s))"

text \<open>\<open>logSession\<close> up to the loop.\<close>

definition enter_session :: "term_host \<Rightarrow> session \<Rightarrow> (stop + unit) \<times> session" where
  "enter_session t s =
     (let s = s\<lparr>newTty := raw_tty (termParams s)\<rparr> in
      bindM (\<lambda>s.
        if isatty0 t then
          (case tcsetattr_error t of
             Some err \<Rightarrow> log_and_exit (base t) (''tcsetattr on stdin: '' @ err) s
           | None \<Rightarrow> (Inr (), s\<lparr>tty := newTty s\<rparr>))
        else (Inr (), s))
      (\<lambda>_ s. (Inr (), setupSignalHandlers s)) s)"

section \<open>Preparing the session in main\<close>

definition name_without_dash :: "string \<Rightarrow> string" where
  "name_without_dash p = (if p \<noteq> [] \<and> hd p = CHR ''-'' then tl p else p)"

text \<open>
  From the session identifier to the opened log: the result is the shell, \<open>exit\<close> has the
  failures. \<open>char sessionId[MAXPATHLEN + 11]\<close>, \<open>char sessionIdEnv[\<dots> + 17]\<close>.
\<close>

definition prepare_session ::
  "bool \<Rightarrow> host \<Rightarrow> string option \<Rightarrow> rootsh \<Rightarrow> (stop + string) \<times> rootsh" where
  "prepare_session HAS_ETC_SHELLS h shellCommands g =
     (let sid = snprintf_text (MAXPATHLEN + 11)
            (name_without_dash (progName g) @ ''['' @ pad0 5 (getpid h) @ '']'');
          g = g\<lparr>sessionId := sid, environ := putenv
            (snprintf_text (MAXPATHLEN + 11 + 17) (''ROOTSH_SESSIONID='' @ sid)) (environ g)\<rparr>;
          g = g\<lparr>standalone := getenv (environ g) ''SUDO_USER'' = None\<rparr> in
      bindM (setupusername h) (\<lambda>user g.
        case user of
          None \<Rightarrow> (Inl (Exited EXIT_FAILURE), g)
        | Some user \<Rightarrow>
            let g = g\<lparr>userName := user\<rparr> in
            bindM (setupusermode h) (\<lambda>ok g.
              if \<not> ok then (Inl (Exited EXIT_FAILURE), g)
              else
                bindM (setupshell HAS_ETC_SHELLS h) (\<lambda>shell g.
                  case shell of
                    None \<Rightarrow> (Inl (Exited EXIT_FAILURE), g)
                  | Some shell \<Rightarrow>
                      bindM (beginlogging h shellCommands) (\<lambda>ok g.
                        if \<not> ok then (Inl (Exited EXIT_FAILURE), g) else (Inr shell, g)) g) g) g) g)"

section \<open>Reachable sessions\<close>

text \<open>
  The states a session runs through: signals are delivered at any time, other processes tamper
  with names at any time, and the loop goes round while it does not stop.
\<close>

inductive session_reach :: "session \<Rightarrow> session \<Rightarrow> bool" for s0 where
  reach_start: "session_reach s0 s0"
| reach_signal: "session_reach s0 s \<Longrightarrow> session_reach s0 (signalHandler sig s)"
| reach_round: "session_reach s0 s \<Longrightarrow> malloc_ok (base t) = (\<lambda>_. True) \<Longrightarrow>
    loop_round t w s = (Inr (), s') \<Longrightarrow> session_reach s0 s'"
| reach_other: "session_reach s0 s \<Longrightarrow> names_only a \<Longrightarrow>
    session_reach s0 (s\<lparr>core := (core s)\<lparr>files := user_step (files (core s)) a\<rparr>\<rparr>)"

lemma bindM_result:
  "bindM m k s = (Inr b, t) \<longleftrightarrow> (\<exists>a u. m s = (Inr a, u) \<and> k a u = (Inr b, t))"
  by (auto simp: bindM_def split: prod.splits sum.splits)

lemma log_and_exit_stops: "log_and_exit h m s \<noteq> (Inr (), s')"
  by (auto simp: log_and_exit_def bindM_result)

lemma finish_stops: "finish t s \<noteq> (Inr (), s')"
  by (auto simp: finish_def bindM_result Let_def split_beta)

lemma user_typed_returns:
  "user_typed h ready s = (Inr (), s') \<Longrightarrow> \<exists>b. s' = s\<lparr>to_pty := b\<rparr>"
  by (auto simp: user_typed_def log_and_exit_stops Let_def
      split: option.splits read_result.splits write_result.splits if_splits)
    (metis session.surjective session.update_convs(13))+

lemma pty_output_returns:
  assumes "pty_output h ready s = (Inr (), s')" "logging c (core s)" "malloc_ok h = (\<lambda>_. True)"
  shows "\<exists>b b'. logging (c @ b) (core s') \<and> same_session (core s) (core s') \<and> subseq b' b
    \<and> s' = s\<lparr>core := core s', from_pty := from_pty s @ b, to_screen := to_screen s @ b'\<rparr>"
proof (cases "\<exists>buf w. ready = Some (Data buf, w) \<and> buf \<noteq> []")
  case False
  with assms have "s' = s"
    by (auto simp: pty_output_def split: option.splits read_result.splits)
  with assms(2) show ?thesis by (intro exI [of _ "[]"]) simp
next
  case True
  then obtain buf n err where ready: "ready = Some (Data buf, Write_Result n err)" "buf \<noteq> []"
    by (metis write_result.exhaust)
  let ?s1 = "s\<lparr>from_pty := from_pty s @ buf\<rparr>"
  from dologging_ok [OF assms(2) le_refl assms(3), of buf] obtain g where
    g: "dologging h buf (length buf) (core s) = (Inr (), g)" "logging (c @ buf) g"
      "same_session (core s) g" by auto
  then have "in_core (dologging h buf (length buf)) ?s1 = (Inr (), ?s1\<lparr>core := g\<rparr>)"
    by (simp add: in_core_def)
  with assms(1) ready have "s' = s\<lparr>core := g, from_pty := from_pty s @ buf,
      to_screen := to_screen s @ written n buf\<rparr>"
    by (auto simp: pty_output_def log_and_exit_stops Let_def split: if_splits)
  moreover have "subseq (written n buf) buf"
    by (metis append_take_drop_id list_emb_prefix subseq_order.refl written_def)
  ultimately show ?thesis using g(2,3) by (intro exI [of _ buf] exI [of _ "written n buf"]) simp
qed

lemma user_typed_same: "user_typed h ready s = (Inr (), s') \<Longrightarrow> core s' = core s \<and>
    to_screen s' = to_screen s \<and> from_pty s' = from_pty s \<and> tty s' = tty s \<and> termParams s' = termParams s"
  using user_typed_returns by fastforce

text \<open>One round that returns: the log gets what was read, the screen some of it.\<close>

lemma loop_round_returns:
  assumes "loop_round t w s = (Inr (), s')" "logging c (core s)" "malloc_ok (base t) = (\<lambda>_. True)"
  shows "\<exists>b b'. logging (c @ b) (core s') \<and> subseq b' b \<and> from_pty s' = from_pty s @ b
    \<and> to_screen s' = to_screen s @ b' \<and> tty s' = tty s \<and> termParams s' = termParams s \<and> same_session (core s) (core s')
    \<and> \<not> sigIntReceived s' \<and> \<not> sigQuitReceived s' \<and> \<not> sigChldReceived s'"
proof -
  from assms(1) obtain u :: unit and s1 where
    io: "(case w of Select_Error err \<Rightarrow> log_and_exit (base t) (''select: '' @ err) s
        | Interrupted \<Rightarrow> (Inr (), s)
        | Ready typed outp \<Rightarrow>
            bindM (user_typed (base t) typed) (\<lambda>_. pty_output (base t) outp) s) = (Inr u, s1)"
    and sig: "(let s = handle_winch t s1 in
        if sigIntReceived s \<or> sigQuitReceived s \<or> sigChldReceived s then
          bindM (finish t) (\<lambda>_ s. (Inr (), s\<lparr>sigIntReceived := False, sigQuitReceived := False,
            sigChldReceived := False\<rparr>)) s
        else (Inr (), s)) = (Inr (), s')"
    unfolding loop_round_def bindM_result by blast
  have "\<exists>b b'. logging (c @ b) (core s1) \<and> subseq b' b \<and> from_pty s1 = from_pty s @ b
    \<and> to_screen s1 = to_screen s @ b' \<and> tty s1 = tty s \<and> termParams s1 = termParams s \<and> same_session (core s) (core s1)"
  proof (cases w)
    case (Select_Error err)
    with io show ?thesis by (simp add: log_and_exit_stops)
  next
    case Interrupted
    with io assms(2) show ?thesis by (intro exI [of _ "[]"]) simp
  next
    case (Ready typed outp)
    with io obtain s2 where s2: "user_typed (base t) typed s = (Inr (), s2)"
      "pty_output (base t) outp s2 = (Inr (), s1)" by (auto simp: bindM_result)
    note same = user_typed_same [OF s2(1)]
    from pty_output_returns [OF s2(2) _ assms(3), of c] assms(2) same obtain b b' where
      b: "logging (c @ b) (core s1)" "same_session (core s2) (core s1)" "subseq b' b"
      and s1: "s1 = s2\<lparr>core := core s1, from_pty := from_pty s2 @ b, to_screen := to_screen s2 @ b'\<rparr>"
      by auto
    from s1 have "tty s1 = tty s2" "termParams s1 = termParams s2" "from_pty s1 = from_pty s2 @ b"
      "to_screen s1 = to_screen s2 @ b'"
      by (cases s1; cases s2; simp)+
    with b same show ?thesis by auto
  qed
  moreover have "s' = handle_winch t s1" "\<not> sigIntReceived s'" "\<not> sigQuitReceived s'"
    "\<not> sigChldReceived s'"
    using sig by (auto simp: Let_def bindM_result finish_stops split: if_splits)
  moreover have "core (handle_winch t s1) = core s1" "from_pty (handle_winch t s1) = from_pty s1" "to_screen (handle_winch t s1) = to_screen s1"
    "tty (handle_winch t s1) = tty s1" "termParams (handle_winch t s1) = termParams s1"
    by (simp_all add: handle_winch_def)
  ultimately show ?thesis by auto
qed

lemma signalHandler_same:
  "to_screen (signalHandler sig s) = to_screen s" "from_pty (signalHandler sig s) = from_pty s" "tty (signalHandler sig s) = tty s"
  "termParams (signalHandler sig s) = termParams s"
  "logging c (core (signalHandler sig s)) = logging c (core s)"
  by (cases sig; simp add: signalHandler_def print_error_def logging_def)+

lemma session_reach_inv:
  assumes "session_reach s0 s" "logging c (core s0)" "from_pty s0 = []" "to_screen s0 = []"
  shows "logging (c @ from_pty s) (core s) \<and> subseq (to_screen s) (from_pty s) \<and> tty s = tty s0 \<and> termParams s = termParams s0"
  using assms(1)
proof induction
  case reach_start
  then show ?case using assms(2-4) by simp
next
  case (reach_signal s sig)
  then show ?case by (simp add: signalHandler_same)
next
  case (reach_round s t w s')
  then obtain b b' where "logging ((c @ from_pty s) @ b) (core s')" "subseq b' b"
    "from_pty s' = from_pty s @ b" "to_screen s' = to_screen s @ b'" "tty s' = tty s"
    "termParams s' = termParams s"
    using loop_round_returns [of t w s s' "c @ from_pty s"] by blast
  with reach_round.IH show ?case by (simp add: list_emb_append_mono)
next
  case (reach_other s a)
  then show ?case by (simp add: logging_user_step)
qed

section \<open>How a session ends\<close>

lemma in_core_eq: "m (core s) = (r, g) \<Longrightarrow> in_core m s = (r, s\<lparr>core := g\<rparr>)"
  by (simp add: in_core_def)

lemma logging_print_error [simp]: "logging c (print_error m g) = logging c g"
  by (simp add: logging_def print_error_def)

lemma closed_text_same: "same_vars g g' \<Longrightarrow> closed_text h g' = closed_text h g"
  by (simp add: closed_text_def same_vars_simps)

lemma same_vars_print_error: "same_vars g (print_error m g)"
  unfolding same_vars_def print_error_def
  by (intro exI [of _ "files g"] exI [of _ "syslogs g"] exI [of _ "stderr_text g @ [m]"]) simp

lemma finish_ok:
  assumes log: "logging c (core s)" and ok: "disk_ok (files (core s))"
      "recoverable (logFileName (core s) @ ''.tampered'') (files (core s))"
    and mem: "malloc_ok (base t) = (\<lambda>_. True)"
    and len: "length (logFileName (core s)) + 19 \<le> MAXPATHLEN"
      "length (closed_text (base t) (core s)) \<le> BUFSIZ - 2"
    and msg: "wait_message (wait_result t) (core s) = (msg, code)" "length msg \<le> BUFSIZ - 2"
  shows "\<exists>s' q. finish t s = (Inl (Exited code), s') \<and> \<not> pty_open s'
    \<and> (isatty0 t \<and> tcsetattr_error t = None \<longrightarrow> tty s' = termParams s)
    \<and> q \<in> final_names (logFileName (core s))
    \<and> kept_as q (c @ msg @ closed_text (base t) (core s)) (files (core s'))"
proof -
  define s1 where "s1 = (if isatty0 t then
      (if tcsetattr_error t \<noteq> None then s\<lparr>core := print_error ''tcsetattr: stdin'' (core s)\<rparr>
       else s\<lparr>tty := termParams s\<rparr>) else s)"
  have v1: "same_vars (core s) (core s1)" "files (core s1) = files (core s)" "logging c (core s1)"
    "isatty0 t \<and> tcsetattr_error t = None \<longrightarrow> tty s1 = termParams s"
    using log same_vars_print_error by (simp_all add: s1_def print_error_def logging_def)
  have m1: "wait_message (wait_result t) (core s1) = (msg, code)"
    using msg(1) same_vars_simps [OF v1(1)]
    by (auto simp: wait_message_def ended_by_user_def split: wait_result.splits)
  from log_message_ok [OF v1(3) msg(2) mem] obtain g2 where
    g2: "log_message (base t) msg (core s1) = (Inr (), g2)" "logging (c @ msg) g2"
      "same_session (core s1) g2" "log_frame (core s1) g2" by blast
  have v2: "same_vars (core s) g2"
    using v1(1) g2(3) same_vars_trans by (auto simp: same_session_def)
  note name = same_vars_simps(5) [OF v2] and txt2 = closed_text_same [OF v2, of "base t"]
  have "disk_ok (files g2)" "recoverable (logFileName g2 @ ''.tampered'') (files g2)"
    using ok v1(2) g2(3) recoverable_same_dir_log [OF _ g2(2,4,3), of "logFileName g2 @ ''.tampered''"]
    by (simp_all add: disk_ok_def same_session_def same_dir_def name)
  from endlogging_keeps [OF g2(2) this mem] len name txt2 obtain g3 q where
    g3: "endlogging (base t) g2 = (Inr (), g3)" "q \<in> final_names (logFileName (core s))"
      "kept_as q ((c @ msg) @ closed_text (base t) (core s)) (files g3)" by auto
  have "finish t s = (Inl (Exited code), s1\<lparr>core := g3, pty_open := False\<rparr>)"
    using m1 in_core_eq [of "log_message (base t) msg" s1, OF g2(1)]
      in_core_eq [of "endlogging (base t)" "s1\<lparr>core := g2\<rparr>" "Inr ()" g3] g3(1)
    unfolding finish_def s1_def [symmetric] Let_def by simp
  with v1(4) g3(2,3) show ?thesis by auto
qed

text \<open>The round after the child has ended.\<close>

lemma child_end_round:
  assumes "logging c (core s)" "disk_ok (files (core s))"
    "recoverable (logFileName (core s) @ ''.tampered'') (files (core s))"
    "malloc_ok (base t) = (\<lambda>_. True)" "length (logFileName (core s)) + 19 \<le> MAXPATHLEN"
    "length (closed_text (base t) (core s)) \<le> BUFSIZ - 2" "wait_result t = If_Exited code"
    "length (ended_by_user (core s)) \<le> BUFSIZ - 2" "isatty0 t" "tcsetattr_error t = None"
  shows "\<exists>s' q. loop_round t Interrupted (signalHandler SIGCHLD s) = (Inl (Exited code), s')
    \<and> tty s' = termParams s \<and> q \<in> final_names (logFileName (core s))
    \<and> kept_as q (c @ ended_by_user (core s) @ closed_text (base t) (core s)) (files (core s'))"
proof -
  let ?s = "handle_winch t (signalHandler SIGCHLD s)"
  have same: "core ?s = core s" "termParams ?s = termParams s" "sigChldReceived ?s"
    by (simp_all add: handle_winch_def signalHandler_def)
  have "wait_message (wait_result t) (core ?s) = (ended_by_user (core s), code)"
    using assms(7) same(1) by (simp add: wait_message_def)
  from finish_ok [of c ?s t, OF _ _ _ assms(4) _ _ this assms(8)] assms(1-3,5,6,9,10) obtain s' q where
    "finish t ?s = (Inl (Exited code), s')" "tty s' = termParams s"
    "q \<in> final_names (logFileName (core s))"
    "kept_as q (c @ ended_by_user (core s) @ closed_text (base t) (core s)) (files (core s'))"
    unfolding same by auto
  moreover from this(1) have
    "loop_round t Interrupted (signalHandler SIGCHLD s) = (Inl (Exited code), s')"
    using same(3) by (simp add: loop_round_def bindM_def Let_def)
  ultimately show ?thesis by blast
qed

text \<open>The rounds that end the program without \<open>finish\<close>, and what they log.\<close>

fun round_error :: "wakeup \<Rightarrow> string option" where
  "round_error (Select_Error err) = Some (''select: '' @ err)"
| "round_error (Ready (Some (Read_Error err, w)) outp) = Some (''read - stdin: '' @ err)"
| "round_error (Ready (Some (Data b, Write_Result n err)) outp) =
     (if n \<noteq> int (length b) then Some (''write - pty: '' @ err) else None)"
| "round_error _ = None"

lemma log_and_exit_bind:
  "m s = log_and_exit h x s' \<Longrightarrow> bindM m k s = log_and_exit h x s'"
  for k :: "unit \<Rightarrow> session \<Rightarrow> (stop + unit) \<times> session"
  by (auto simp: bindM_def log_and_exit_def split: prod.splits sum.splits)

lemma loop_round_error:
  assumes "round_error w = Some m"
  shows "\<exists>p. loop_round t w s = log_and_exit (base t) m (s\<lparr>to_pty := p\<rparr>)"
proof (cases w)
  case (Select_Error err)
  then have "loop_round t w s = log_and_exit (base t) m s"
    using assms unfolding loop_round_def by (intro log_and_exit_bind) simp
  then show ?thesis by (intro exI [of _ "to_pty s"]) simp
next
  case (Ready r outp)
  with assms obtain x y where r: "r = Some (x, y)" by (cases r) auto
  have "\<exists>p. user_typed (base t) r s = log_and_exit (base t) m (s\<lparr>to_pty := p\<rparr>)"
  proof (cases x)
    case (Read_Error err)
    with assms Ready r show ?thesis by (intro exI [of _ "to_pty s"]) (simp add: user_typed_def)
  next
    case (Data b)
    with assms Ready r show ?thesis
      by (cases y) (auto simp: user_typed_def Let_def split: if_splits)
  qed
  then show ?thesis
    using Ready unfolding loop_round_def by (auto intro!: log_and_exit_bind)
qed (use assms in simp)

section \<open>Properties\<close>

definition sample_tty :: termios where
  "sample_tty = \<lparr>c_iflag = ICRNL OR IXON, c_oflag = OPOST, c_lflag = ISIG OR ICANON OR ECHO,
     c_vmin = 1, c_vtime = 0\<rparr>"

definition running_session :: session where
  "running_session = \<lparr>core = sample_session, sigWinchReceived = False, sigIntReceived = False,
     sigQuitReceived = False, sigChldReceived = False, tty = raw_tty sample_tty,
     termParams = sample_tty, newTty = raw_tty sample_tty, winSize = (24, 80), pty_size = (24, 80),
     child_winches = 0, pty_open = True, to_pty = [], from_pty = [],
     to_screen = []\<rparr>"

definition sample_term :: term_host where
  "sample_term = \<lparr>base = sample_host, isatty0 = True, tcsetattr_error = None,
     window_size = (50, 132), wait_result = If_Exited 3\<rparr>"

lemma running_logging: "logging ''a'' (core running_session)"
  using logging_sample by (simp add: running_session_def)

text \<open>C4: Everything the shell puts out is in the log: in every state a session runs through,
  whatever signals arrive, whatever is typed and read in whatever blocks, and whatever the user
  does to names, the log file holds what it held at the start and then exactly the bytes read from
  the pseudo terminal; what the user saw on the screen is a part of these.\<close>

theorem screen_is_logged:
  assumes "session_reach s0 s" "logging c (core s0)" "from_pty s0 = []" "to_screen s0 = []"
  shows "logging (c @ from_pty s) (core s) \<and> subseq (to_screen s) (from_pty s)"
  using session_reach_inv [OF assms] by simp

theorem screen_is_logged_witness:
  "\<exists>s. session_reach running_session s \<and> from_pty s = ''# '' \<and> to_screen s = ''#''
    \<and> logging (''a'' @ from_pty s) (core s)"
proof -
  obtain g where g: "dologging sample_host ''# '' (length ''# '') sample_session = (Inr (), g)"
    using dologging_ok [OF logging_sample le_refl, of sample_host "''# ''"] by auto
  let ?s = "running_session\<lparr>core := g, from_pty := ''# '', to_screen := ''#''\<rparr>"
  have "loop_round sample_term (Ready None (Some (Data ''# '', Write_Result 1 []))) running_session
      = (Inr (), ?s)"
    using g by (simp add: loop_round_def user_typed_def pty_output_def in_core_def sample_term_def
        running_session_def handle_winch_def bindM_def written_def Let_def)
  moreover have "malloc_ok (base sample_term) = (\<lambda>_. True)" by (simp add: sample_term_def)
  ultimately have r: "session_reach running_session ?s"
    using reach_round [OF reach_start] by blast
  have "from_pty running_session = []" "to_screen running_session = []"
    by (simp_all add: running_session_def)
  from screen_is_logged [OF r running_logging this] r show ?thesis by fastforce
qed

text \<open>When the child ends, so does the session, with the child's exit status: the terminal
  gets its original settings back, and the log, whatever was done to its name, survives with the
  final message and the closing message at its end.\<close>

theorem session_ends_with_child:
  assumes "logging c (core s)" "disk_ok (files (core s))"
    "recoverable (logFileName (core s) @ ''.tampered'') (files (core s))"
    "malloc_ok (base t) = (\<lambda>_. True)" "length (logFileName (core s)) + 19 \<le> MAXPATHLEN"
    "length (closed_text (base t) (core s)) \<le> BUFSIZ - 2" "wait_result t = If_Exited code"
    "length (ended_by_user (core s)) \<le> BUFSIZ - 2" "isatty0 t" "tcsetattr_error t = None"
  shows "\<exists>s' q. loop_round t Interrupted (signalHandler SIGCHLD s) = (Inl (Exited code), s')
    \<and> tty s' = termParams s \<and> q \<in> final_names (logFileName (core s))
    \<and> kept_as q (c @ ended_by_user (core s) @ closed_text (base t) (core s)) (files (core s'))"
  by (rule child_end_round [OF assms])

theorem session_ends_with_child_witness:
  "\<exists>s' q. loop_round sample_term Interrupted (signalHandler SIGCHLD running_session)
      = (Inl (Exited 3), s')
    \<and> tty s' = sample_tty \<and> q \<in> final_names ''/l''
    \<and> kept_as q (''a'' @ ended_by_user (core running_session)
        @ closed_text sample_host (core running_session)) (files (core s'))"
proof -
  have core: "core running_session = sample_session" by (simp add: running_session_def)
  have tty: "termParams running_session = sample_tty" by (simp add: running_session_def)
  have t: "base sample_term = sample_host" "wait_result sample_term = If_Exited 3"
    "isatty0 sample_term" "tcsetattr_error sample_term = None"
    by (simp_all add: sample_term_def)
  have "length (closed_text sample_host sample_session) \<le> BUFSIZ - 2"
    "length (ended_by_user sample_session) \<le> BUFSIZ - 2"
    by (simp add: BUFSIZ_def,
      simp add: BUFSIZ_def ended_by_user_def CRLF_def sample_session_def sample_rootsh_def)
  from session_ends_with_child [OF running_logging, of sample_term 3] this show ?thesis
    by (simp add: core t tty disk_ok_def recoverable_def MAXPATHLEN_def)
qed

text \<open>A change of the window's size reaches the terminal of the shell: the next round copies the
  size of the real terminal and tells the child, once, and changes nothing else.\<close>

theorem window_change_is_passed_on:
  assumes "\<not> sigIntReceived s" "\<not> sigQuitReceived s" "\<not> sigChldReceived s" "\<not> sigWinchReceived s"
  shows "loop_round t Interrupted (signalHandler SIGWINCH s) = (Inr (),
    s\<lparr>winSize := window_size t, pty_size := window_size t, child_winches := child_winches s + 1\<rparr>)"
  using assms by (cases s) (simp add: loop_round_def handle_winch_def signalHandler_def bindM_def)

theorem window_change_is_passed_on_witness:
  "loop_round sample_term Interrupted (signalHandler SIGWINCH running_session) = (Inr (),
    running_session\<lparr>winSize := (50, 132), pty_size := (50, 132), child_winches := 1\<rparr>)"
  by (subst window_change_is_passed_on) (simp_all add: running_session_def sample_term_def)

text \<open>C38: A failing \<open>pselect\<close>, read from the keyboard or write to the shell ends the program
  with nothing cleaned up: the message is logged, but the terminal keeps the raw settings, the log
  keeps its name and gets no closing message, and syslog is not closed.\<close>

theorem error_exit_leaves_session_open:
  assumes "logging c (core s)" "malloc_ok (base t) = (\<lambda>_. True)" "round_error w = Some m"
    "length m \<le> BUFSIZ - 2"
  shows "\<exists>s'. loop_round t w s = (Inl (Exited EXIT_FAILURE), s') \<and> tty s' = tty s
    \<and> pty_open s' = pty_open s \<and> log_contents (core s') = c @ m
    \<and> names (files (core s')) = names (files (core s))
    \<and> openlog_ident (core s') = openlog_ident (core s)"
proof -
  from log_message_ok [OF assms(1,4,2)] obtain g where
    g: "log_message (base t) m (core s) = (Inr (), g)" "logging (c @ m) g" "same_session (core s) g"
    by blast
  from loop_round_error [OF assms(3)] obtain p where
    p: "loop_round t w s = log_and_exit (base t) m (s\<lparr>to_pty := p\<rparr>)" by blast
  have "openlog_ident g = openlog_ident (core s)"
    using g(3) by (auto simp: same_session_def same_vars_def)
  with g in_core_eq [of "log_message (base t) m" "s\<lparr>to_pty := p\<rparr>" "Inr ()" g] logging_contents [OF g(2)]
  show ?thesis by (simp add: p log_and_exit_def same_session_def same_dir_def)
qed

theorem error_exit_leaves_session_open_witness:
  "\<exists>s'. loop_round sample_term (Select_Error ''Bad file descriptor'') running_session
      = (Inl (Exited EXIT_FAILURE), s') \<and> tty s' = raw_tty sample_tty
    \<and> log_contents (core s') = ''aselect: Bad file descriptor''
    \<and> names (files (core s')) = [''/l'' \<mapsto> (8, 1)]"
  using error_exit_leaves_session_open [OF running_logging, of sample_term
      "Select_Error ''Bad file descriptor''"]
  by (simp add: sample_term_def running_session_def BUFSIZ_def) force

end
