(* ===== verification/Forkpty.thy ===== *)
theory Forkpty
  imports Session
begin

text \<open>
  The emulation of \<open>forkpty\<close> in \<^verbatim>\<open>rootsh.c\<close> for hosts without one. The answers of the
  host are the record \<^verbatim>\<open>pty_host\<close>; the state has the open descriptors, the slave's settings and
  what the standard descriptors refer to, and the program's variables for the logs it closes. The
  result is seen from the process the call returns in.
\<close>

section \<open>The code\<close>

datatype fork_result = Fork_Failed | In_Child | In_Parent nat

record pty_host =
  MASTERPTYDEV :: string
  open_master :: "nat option"
  grantpt_ok :: bool
  unlockpt_ok :: bool
  fork_result :: fork_result
  ptsname :: "string option"
  open_slave :: "nat option"
  push_ok :: "string \<Rightarrow> bool"
  tcsetattr_ok :: bool
  setwinsz_ok :: bool
  current_termios :: termios

record pty_state =
  open_fds :: "nat list"
  slave_modes :: "termios option"
  slave_winsize :: "(nat \<times> nat) option"
  std_fds :: "(nat \<times> nat) list"
  session_leader :: bool
  vars :: rootsh

text \<open>What a call returns: the process id, the master and the name if they are set.\<close>

type_synonym pty_result = "int \<times> nat option \<times> string option"

definition pty_open :: "nat \<Rightarrow> pty_state \<Rightarrow> pty_state" where
  "pty_open fd s = s\<lparr>open_fds := fd # open_fds s\<rparr>"

definition pty_close :: "nat \<Rightarrow> pty_state \<Rightarrow> pty_state" where
  "pty_close fd s = s\<lparr>open_fds := filter (\<lambda>x. x \<noteq> fd) (open_fds s)\<rparr>"

definition pty_error :: "string \<Rightarrow> pty_state \<Rightarrow> pty_state" where
  "pty_error msg s = s\<lparr>vars := print_error msg (vars s)\<rparr>"

text \<open>
  The \<open>ioctl\<close>s that push the modules, in order; the macros \<open>AIX_COMPAT\<close> and
  \<open>HAVE_TTCOMPAT\<close> decide which.
\<close>

definition push_modules :: "bool \<Rightarrow> bool \<Rightarrow> string list" where
  "push_modules AIX_COMPAT HAVE_TTCOMPAT =
     (if AIX_COMPAT then []
      else [''ptem'', ''ldterm''] @ (if HAVE_TTCOMPAT then [''ttcompat''] else []))"

fun push_all :: "pty_host \<Rightarrow> nat \<Rightarrow> nat \<Rightarrow> string list \<Rightarrow> pty_state \<Rightarrow> bool \<times> pty_state" where
  "push_all p master slave [] s = (True, s)"
| "push_all p master slave (m # ms) s =
     (if \<not> push_ok p m then
        (False, pty_close slave (pty_close master (pty_error (''ioctl: '' @ m) s)))
      else push_all p master slave ms s)"

text \<open>The child, from \<open>setsid\<close> on.\<close>

definition pty_child ::
  "string list \<Rightarrow> pty_host \<Rightarrow> nat \<Rightarrow> bool \<Rightarrow> termios \<Rightarrow> nat \<times> nat \<Rightarrow> pty_state
    \<Rightarrow> pty_result \<times> pty_state" where
  "pty_child modules p master name termp winp s =
     (let s = s\<lparr>session_leader := True\<rparr> in
      case ptsname p of
        None \<Rightarrow> ((-1, None, None), pty_close master (pty_error ''ptsname'' s))
      | Some slavename \<Rightarrow>
          (case open_slave p of
             None \<Rightarrow> ((-1, None, None), pty_close master (pty_error slavename s))
           | Some slave \<Rightarrow>
               (case push_all p master slave modules (pty_open slave s) of
                  (False, s) \<Rightarrow> ((-1, None, None), s)
                | (True, s) \<Rightarrow>
                    if \<not> tcsetattr_ok p then
                      ((-1, None, None),
                       pty_close slave (pty_close master (pty_error ''tcsetattr: slave pty'' s)))
                    else
                      let s = s\<lparr>slave_modes := Some termp\<rparr> in
                      if \<not> setwinsz_ok p then
                        ((-1, None, None),
                         pty_close slave (pty_close master (pty_error ''ioctl: slave winsz'' s)))
                      else
                        let s = pty_close master (s\<lparr>slave_winsize := Some winp\<rparr>);
                            s = (if logtofile (opts (vars s)) then
                                   s\<lparr>vars := (vars s)\<lparr>files :=
                                     sys_close (logFile (vars s)) (files (vars s))\<rparr>\<rparr>
                                 else s);
                            s = (if logtosyslog (opts (vars s)) then
                                   s\<lparr>vars := (vars s)\<lparr>openlog_ident := None\<rparr>\<rparr>
                                 else s);
                            s = pty_close slave
                              (s\<lparr>std_fds := [(0, slave), (1, slave), (2, slave)]\<rparr>) in
                        ((0, None, if name then Some slavename else None), s))))"

text \<open>The parent.\<close>

definition pty_parent :: "pty_host \<Rightarrow> nat \<Rightarrow> bool \<Rightarrow> nat \<Rightarrow> pty_state \<Rightarrow> pty_result \<times> pty_state" where
  [simp]: "pty_parent p master name pid s =
     (if name then
        (case ptsname p of
           None \<Rightarrow> ((-1, None, None), pty_close master (pty_error ''ptsname'' s))
         | Some slavename \<Rightarrow> ((int pid, Some master, Some slavename), s))
      else ((int pid, Some master, None), s))"

text \<open>
  \<open>termp\<close> and \<open>winp\<close> are \<^term>\<open>None\<close> for the null pointer, \<open>name\<close> tells whether
  the caller wants the name. For a null \<open>winp\<close> the code reads the size into a variable of its
  own and then stores it through \<open>winp\<close>.
\<close>

definition forkpty ::
  "bool \<Rightarrow> bool \<Rightarrow> pty_host \<Rightarrow> bool \<Rightarrow> termios option \<Rightarrow> (nat \<times> nat) option \<Rightarrow> pty_state
    \<Rightarrow> (stop + pty_result) \<times> pty_state" where
  "forkpty AIX_COMPAT HAVE_TTCOMPAT p name termp winp s =
     (let termp = (case termp of None \<Rightarrow> current_termios p | Some t \<Rightarrow> t) in
      case winp of
        None \<Rightarrow> (Inl (Faulted Null_Deref), s)
      | Some winp \<Rightarrow>
          (case open_master p of
             None \<Rightarrow> (Inr (-1, None, None), pty_error (MASTERPTYDEV p) s)
           | Some master \<Rightarrow>
               let s = pty_open master s in
               if \<not> grantpt_ok p then
                 (Inr (-1, None, None), pty_close master (pty_error ''grantpt'' s))
               else if \<not> unlockpt_ok p then
                 (Inr (-1, None, None), pty_close master (pty_error ''unlockpt'' s))
               else
                 (case fork_result p of
                    Fork_Failed \<Rightarrow>
                      (Inr (-1, None, None), pty_close master (pty_error ''fork in forkpty'' s))
                  | In_Child \<Rightarrow>
                      (case pty_child (push_modules AIX_COMPAT HAVE_TTCOMPAT) p master name termp winp s of
                         (r, s) \<Rightarrow> (Inr r, s))
                  | In_Parent pid \<Rightarrow>
                      (case pty_parent p master name pid s of (r, s) \<Rightarrow> (Inr r, s)))))"

section \<open>Lemmas\<close>

text \<open>The descriptors the host hands out are new.\<close>

definition fresh_fds :: "pty_host \<Rightarrow> pty_state \<Rightarrow> bool" where
  "fresh_fds p s \<longleftrightarrow> (case open_master p of None \<Rightarrow> True | Some m \<Rightarrow> m \<notin> set (open_fds s)
      \<and> open_slave p \<noteq> Some m)
     \<and> (case open_slave p of None \<Rightarrow> True | Some sl \<Rightarrow> sl \<notin> set (open_fds s))"

lemma filter_absent: "x \<notin> set xs \<Longrightarrow> filter (\<lambda>y. y \<noteq> x) xs = xs"
  by (induction xs) auto

lemma pty_fds [simp]:
  "open_fds (pty_close fd s) = filter (\<lambda>x. x \<noteq> fd) (open_fds s)"
  "open_fds (pty_open fd s) = fd # open_fds s" "open_fds (pty_error m s) = open_fds s"
  by (simp_all add: pty_close_def pty_open_def pty_error_def)

lemma push_all_fds:
  "push_all p master slave ms s = (b, s') \<Longrightarrow> open_fds s' = (if b then open_fds s
     else filter (\<lambda>x. x \<noteq> slave) (filter (\<lambda>x. x \<noteq> master) (open_fds s)))"
  by (induction ms) (auto split: if_splits)

lemma push_all_ok: "push_all p master slave ms s = (True, s') \<Longrightarrow> s' = s"
  by (induction ms) (auto split: if_splits)

lemma pty_child_fds:
  assumes "pty_child ms p master name termp winp s = (r, s')" "open_fds s = master # old"
    "master \<notin> set old" "open_slave p \<noteq> Some master" "\<And>sl. open_slave p = Some sl \<Longrightarrow> sl \<notin> set old"
  shows "open_fds s' = old"
  using assms
  by (auto simp: pty_child_def Let_def filter_absent split: option.splits prod.splits bool.splits
      if_splits dest!: push_all_fds)

text \<open>A caller that passes no size makes the code store one through the null pointer.\<close>

lemma forkpty_null_winsize_faults:
  "forkpty aix ttcompat p name termp None s = (Inl (Faulted Null_Deref), s)"
  by (simp add: forkpty_def)

section \<open>Properties\<close>

text \<open>C29: \<open>forkpty\<close> leaks no descriptor: when it fails, wherever it fails, and in the child
  also when it succeeds, the descriptors opened during the call are closed again; only the parent
  keeps one, the master it returns.\<close>

theorem forkpty_leaks_nothing:
  assumes "forkpty aix ttcompat p name termp winp s = (Inr (pid, master, n), s')" "fresh_fds p s"
  shows "open_fds s' = (case master of None \<Rightarrow> open_fds s | Some m \<Rightarrow> m # open_fds s)
    \<and> (pid = -1 \<longrightarrow> master = None)"
proof (cases "open_master p")
  case None
  with assms show ?thesis by (auto simp: forkpty_def Let_def split: option.splits)
next
  case (Some m)
  with assms(2) have fresh: "m \<notin> set (open_fds s)" "open_slave p \<noteq> Some m"
    "\<And>sl. open_slave p = Some sl \<Longrightarrow> sl \<notin> set (open_fds s)"
    by (auto simp: fresh_fds_def)
  show ?thesis
  proof (cases "fork_result p")
    case In_Child
    show ?thesis
    proof (cases "grantpt_ok p \<and> unlockpt_ok p")
      case True
      with assms(1) In_Child Some obtain t w where
        c: "pty_child (push_modules aix ttcompat) p m name t w (pty_open m s) = ((pid, master, n), s')"
        by (auto simp: forkpty_def Let_def split: option.splits prod.splits)
      from pty_child_fds [OF c pty_fds(2) fresh] have "open_fds s' = open_fds s" .
      moreover from c have "master = None"
        by (auto simp: pty_child_def Let_def split: option.splits prod.splits bool.splits if_splits)
      ultimately show ?thesis by simp
    next
      case False
      with assms(1) Some fresh(1) show ?thesis
        by (auto simp: forkpty_def Let_def filter_absent split: option.splits if_splits)
    qed
  qed (use assms(1) Some fresh(1) in \<open>auto simp: forkpty_def Let_def filter_absent
      split: option.splits if_splits\<close>)
qed

definition sample_pty :: pty_host where
  "sample_pty = \<lparr>MASTERPTYDEV = ''/dev/ptmx'', open_master = Some 4, grantpt_ok = True,
     unlockpt_ok = True, fork_result = In_Child, ptsname = Some ''/dev/pts/7'',
     open_slave = Some 5, push_ok = (\<lambda>m. m \<noteq> ''ttcompat''), tcsetattr_ok = True, setwinsz_ok = True,
     current_termios = sample_tty\<rparr>"

definition sample_pty_state :: pty_state where
  "sample_pty_state = \<lparr>open_fds = [3], slave_modes = None, slave_winsize = None, std_fds = [],
     session_leader = False, vars = sample_session\<rparr>"

theorem forkpty_leaks_nothing_witness:
  "\<exists>s'. forkpty False True sample_pty False (Some sample_tty) (Some (24, 80)) sample_pty_state
      = (Inr (-1, None, None), s') \<and> open_fds s' = [3]"
proof -
  obtain s' where f: "forkpty False True sample_pty False (Some sample_tty) (Some (24, 80))
      sample_pty_state = (Inr (-1, None, None), s')"
    by (simp add: forkpty_def pty_child_def push_modules_def sample_pty_def)
  have "fresh_fds sample_pty sample_pty_state"
    by (simp add: fresh_fds_def sample_pty_def sample_pty_state_def)
  from forkpty_leaks_nothing [OF f this] f show ?thesis by (auto simp: sample_pty_state_def)
qed

text \<open>C30: The child of a successful call has the slave as its terminal: it leads a session of its
  own, the slave has the modes and the size of the caller's terminal, the standard descriptors
  refer to it, and the child's copies of the logs are closed.\<close>

theorem forkpty_child_owns_terminal:
  assumes "forkpty aix ttcompat p name (Some t) (Some w) s = (Inr (0, m, n), s')"
    "fork_result p = In_Child"
  shows "session_leader s' \<and> slave_modes s' = Some t \<and> slave_winsize s' = Some w
    \<and> (\<exists>slave. open_slave p = Some slave \<and> std_fds s' = [(0, slave), (1, slave), (2, slave)])
    \<and> (logtofile (opts (vars s)) \<longrightarrow> fds (files (vars s')) (logFile (vars s)) = None)
    \<and> (logtosyslog (opts (vars s)) \<longrightarrow> openlog_ident (vars s') = None)"
proof -
  from assms obtain master where
    c: "pty_child (push_modules aix ttcompat) p master name t w (pty_open master s) = ((0, m, n), s')"
    by (auto simp: forkpty_def Let_def split: option.splits prod.splits if_splits)
  then show ?thesis
    by (auto simp: pty_child_def Let_def pty_close_def pty_open_def sys_close_def
        split: option.splits prod.splits bool.splits if_splits dest!: push_all_ok)
qed

theorem forkpty_child_owns_terminal_witness:
  "\<exists>s'. forkpty False False sample_pty False (Some sample_tty) (Some (24, 80)) sample_pty_state
      = (Inr (0, None, None), s') \<and> slave_modes s' = Some sample_tty \<and> fds (files (vars s')) 3 = None"
proof -
  obtain s' where f: "forkpty False False sample_pty False (Some sample_tty) (Some (24, 80))
      sample_pty_state = (Inr (0, None, None), s')"
    by (simp add: forkpty_def pty_child_def push_modules_def sample_pty_def Let_def)
  have "fork_result sample_pty = In_Child" by (simp add: sample_pty_def)
  from forkpty_child_owns_terminal [OF f this] f show ?thesis
    by (simp add: sample_pty_state_def linux_settings_def)
qed

end
