(* ===== verification/Session_Run.thy ===== *)
theory Session_Run
  imports Session
begin

text \<open>
  A run of the session loop over the events of a session: signals, wakeups of \<open>pselect\<close>, the
  doings of other processes, and the failing and recovering of the disk. When it ends, when it goes
  on, and what it leaves behind.
\<close>

section \<open>Events\<close>

text \<open>What happens to a session, in order: signals, wakeups of \<open>pselect\<close> with the answers of
  the host at that time, the doings of other processes, and changes of the disk: how many bytes a
  write to an inode takes from then on, all of them, a part or none.\<close>

datatype session_event =
  Signal signal | Round term_host wakeup | Others user_act | Disk "ino \<Rightarrow> nat option"

fun run_session :: "session_event list \<Rightarrow> session \<Rightarrow> (stop + unit) \<times> session" where
  "run_session [] s = (Inr (), s)"
| "run_session (Signal sig # es) s = run_session es (signalHandler sig s)"
| "run_session (Round t w # es) s = bindM (loop_round t w) (\<lambda>_. run_session es) s"
| "run_session (Others a # es) s =
     run_session es (s\<lparr>core := (core s)\<lparr>files := user_step (files (core s)) a\<rparr>\<rparr>)"
| "run_session (Disk room # es) s =
     run_session es (s\<lparr>core := (core s)\<lparr>files := (files (core s))\<lparr>write_room := room\<rparr>\<rparr>\<rparr>)"

section \<open>Lemmas on a run\<close>

lemma run_session_append:
  "run_session (es1 @ es2) s = bindM (run_session es1) (\<lambda>_. run_session es2) s"
proof (induction es1 s rule: run_session.induct)
  case (3 t w es s)
  show ?case
  proof (cases "fst (loop_round t w s)")
    case (Inl e)
    then show ?thesis by (cases "loop_round t w s") (simp add: bindM_def)
  next
    case (Inr u)
    then obtain s' where "loop_round t w s = (Inr (), s')" by (cases "loop_round t w s") auto
    with 3 show ?thesis by (simp add: bindM_def)
  qed
qed (simp_all add: bindM_def)

text \<open>A signal that ends the session has been seen.\<close>

definition ending :: "session \<Rightarrow> bool" where
  "ending s \<longleftrightarrow> sigIntReceived s \<or> sigQuitReceived s \<or> sigChldReceived s"

definition ends_session :: "signal \<Rightarrow> bool" where
  "ends_session sig \<longleftrightarrow> sig \<in> {SIGINT, SIGQUIT, SIGCHLD}"

fun is_round :: "session_event \<Rightarrow> bool" where
  "is_round (Round t w) = True"
| "is_round e = False"

lemma ending_signal: "ending (signalHandler sig s) \<longleftrightarrow> ends_session sig \<or> ending s"
  by (auto simp: ending_def ends_session_def signalHandler_def split: signal.splits)

lemma ending_winch [simp]: "ending (handle_winch t s) = ending s"
  by (simp add: ending_def handle_winch_def)

lemma ending_updates [simp]:
  "ending (s\<lparr>core := g\<rparr>) = ending s" "ending (s\<lparr>to_pty := b\<rparr>) = ending s"
  "ending (s\<lparr>from_pty := b\<rparr>) = ending s" "ending (s\<lparr>to_screen := b\<rparr>) = ending s"
  by (simp_all add: ending_def)

lemma core_winch [simp]: "core (handle_winch t s) = core s"
  by (simp add: handle_winch_def)

lemma handle_winch_same:
  "to_screen (handle_winch t s) = to_screen s" "to_pty (handle_winch t s) = to_pty s"
  "from_pty (handle_winch t s) = from_pty s" "termParams (handle_winch t s) = termParams s"
  by (simp_all add: handle_winch_def)

lemma pty_output_ending:
  assumes "pty_output h ready s = (Inr (), s')"
  shows "ending s' = ending s"
proof (cases "\<exists>b w. ready = Some (Data b, w) \<and> b \<noteq> []")
  case True
  then obtain b n err where "ready = Some (Data b, Write_Result n err)" "b \<noteq> []"
    by (metis write_result.exhaust)
  with assms show ?thesis
    by (auto simp: pty_output_def in_core_def bindM_result log_and_exit_stops Let_def
        split: if_splits prod.splits)
next
  case False
  with assms show ?thesis
    by (auto simp: pty_output_def split: option.splits read_result.splits)
qed

lemma loop_round_ends:
  assumes "ending s"
  shows "\<exists>e s'. loop_round t w s = (Inl e, s')"
proof -
  have False if round: "loop_round t w s = (Inr (), s')" for s'
  proof -
    from round obtain u s1 where s1: "(case w of
         Select_Error err \<Rightarrow> log_and_exit (base t) (''select: '' @ err) s
       | Interrupted \<Rightarrow> (Inr (), s)
       | Ready typed output \<Rightarrow>
           bindM (user_typed (base t) typed) (\<lambda>_. pty_output (base t) output) s) = (Inr u, s1)"
      "(let s = handle_winch t s1 in
       if sigIntReceived s \<or> sigQuitReceived s \<or> sigChldReceived s then
         bindM (finish t) (\<lambda>_ s. (Inr (), s\<lparr>sigIntReceived := False, sigQuitReceived := False,
           sigChldReceived := False\<rparr>)) s
       else (Inr (), s)) = (Inr (), s')"
      unfolding loop_round_def bindM_result by blast
    from s1(1) have "ending s1 = ending s"
      by (cases w) (auto simp: log_and_exit_stops bindM_result dest!: pty_output_ending user_typed_returns)
    with assms have "ending (handle_winch t s1)" by simp
    with s1(2) show False
      by (auto simp: ending_def Let_def bindM_result finish_stops)
  qed
  then show ?thesis by (metis old.sum.exhaust old.unit.exhaust surj_pair)
qed

lemma run_session_ends:
  "ending s \<Longrightarrow> list_ex is_round es \<Longrightarrow> \<exists>e s'. run_session es s = (Inl e, s')"
proof (induction es s rule: run_session.induct)
  case (3 t w es s)
  from loop_round_ends [OF "3.prems"(1), of t w] show ?case by auto
qed (simp_all add: ending_signal)

text \<open>Events that leave the session running.\<close>

fun goes_on :: "session_event \<Rightarrow> bool" where
  "goes_on (Signal sig) = (\<not> ends_session sig)"
| "goes_on (Others a) = names_only a"
| "goes_on (Disk room) = False"
| "goes_on (Round t w) = (malloc_ok (base t) = (\<lambda>_. True) \<and>
     (case w of
        Select_Error err \<Rightarrow> False
      | Interrupted \<Rightarrow> True
      | Ready typed shown \<Rightarrow>
          (case typed of
             Some (Data b, Write_Result n err) \<Rightarrow> n = int (length b)
           | Some (Read_Error err, y) \<Rightarrow> False
           | None \<Rightarrow> True) \<and>
          (case shown of Some (Data b, Write_Result n err) \<Rightarrow> 0 \<le> n | _ \<Rightarrow> True)))"

lemma session_reach_trans: "session_reach s1 s2 \<Longrightarrow> session_reach s0 s1 \<Longrightarrow> session_reach s0 s2"
  by (induction rule: session_reach.induct) (auto intro: session_reach.intros)

text \<open>What a session leaves behind: the bytes logged, shown on the screen and passed to the shell.\<close>

datatype transcript = Transcript (in_log: buffer) (on_screen: buffer) (to_shell: buffer)

instantiation transcript :: monoid_add
begin

definition zero_transcript :: transcript where
  "0 = Transcript [] [] []"

definition plus_transcript :: "transcript \<Rightarrow> transcript \<Rightarrow> transcript" where
  "a + b = Transcript (in_log a @ in_log b) (on_screen a @ on_screen b) (to_shell a @ to_shell b)"

instance
  by standard (simp_all add: zero_transcript_def plus_transcript_def)

end

fun bytes_read :: "(read_result \<times> write_result) option \<Rightarrow> buffer" where
  "bytes_read (Some (Data b, w)) = b"
| "bytes_read r = []"

fun bytes_passed :: "(read_result \<times> write_result) option \<Rightarrow> buffer" where
  "bytes_passed (Some (Data b, Write_Result n err)) = written n b"
| "bytes_passed r = []"

fun event_transcript :: "session_event \<Rightarrow> transcript" where
  "event_transcript (Round t (Ready typed shown)) =
     Transcript (bytes_read shown) (bytes_passed shown) (bytes_passed typed)"
| "event_transcript e = 0"

definition transcript_of :: "session \<Rightarrow> transcript" where
  "transcript_of s = Transcript (log_contents (core s)) (to_screen s) (to_pty s)"

definition going :: "session \<Rightarrow> bool" where
  "going s \<longleftrightarrow> \<not> ending s \<and> in_session (core s)"

lemma going_logging: "going s \<longleftrightarrow> \<not> ending s \<and> logging (in_log (transcript_of s)) (core s)"
  by (simp add: going_def in_session_def transcript_of_def)

lemma going_I:
  assumes "logging c (core s)" "\<not> ending s"
  shows "going s" "transcript_of s = Transcript c (to_screen s) (to_pty s)"
  using assms logging_contents [OF assms(1)] by (simp_all add: going_def in_session_def transcript_of_def)

lemma user_typed_goes_on:
  assumes "goes_on (Round t (Ready typed shown))"
  shows "user_typed (base t) typed s = (Inr (), s\<lparr>to_pty := to_pty s @ bytes_passed typed\<rparr>)"
proof (cases typed)
  case None
  then show ?thesis by (simp add: user_typed_def)
next
  case (Some x)
  with assms obtain b err where "x = (Data b, Write_Result (int (length b)) err)"
    by (cases x) (auto split: read_result.splits write_result.splits)
  with Some show ?thesis by (auto simp: user_typed_def Let_def)
qed

text \<open>The program with a disk that works again: what it can still say of its log when writing
  fails.\<close>

definition healed :: "rootsh \<Rightarrow> rootsh" where
  "healed g = g\<lparr>files := (files g)\<lparr>write_room := (\<lambda>_. None)\<rparr>\<rparr>"

abbreviation log_ino :: "rootsh \<Rightarrow> ino" where "log_ino g \<equiv> (logDev g, logInode g)"

definition log_room :: "rootsh \<Rightarrow> nat option" where
  "log_room g = write_room (files g) (log_ino g)"

lemma fs_inv_disk [simp]: "fs_inv (f\<lparr>write_room := room\<rparr>) = fs_inv f"
  by (simp add: fs_inv_def)

lemma healed_logging: "logging c g \<longleftrightarrow> logging c (healed g) \<and> log_room g = None"
  by (auto simp: logging_def healed_def log_room_def log_open_def)

lemma healed_idem [simp]: "healed (g\<lparr>files := (files g)\<lparr>write_room := room\<rparr>\<rparr>) = healed g"
  by (simp add: healed_def)

lemma user_step_disk:
  "user_step (f\<lparr>write_room := room\<rparr>) a = (user_step f a)\<lparr>write_room := room\<rparr>"
  by (cases a) (auto simp: sys_defs Let_def split: option.splits node.splits bool.splits)

lemma healed_user_step:
  assumes "logging c (healed g)" "names_only a"
  shows "logging c (healed (g\<lparr>files := user_step (files g) a\<rparr>))"
  using logging_user_step [OF assms] by (simp add: healed_def user_step_disk)

lemma sys_write_healed:
  assumes "sys_write fd data f = (n, f')" "fs_inv f" "log_open fd i c (f\<lparr>write_room := (\<lambda>_. None)\<rparr>)"
  shows "fs_inv f' \<and> write_room f' = write_room f
    \<and> log_open fd i (c @ taken (write_room f i) data) (f'\<lparr>write_room := (\<lambda>_. None)\<rparr>)"
proof -
  let ?h = "\<lambda>f. f\<lparr>write_room := (\<lambda>_. None)\<rparr>"
  from assms(3) obtain d where d: "nodes f i = Some (File c)" "fds f fd = Some d" "fd_ino d = i" "fd_append d"
    by (auto simp: log_open_def)
  show ?thesis
  proof (cases "write_room f i = Some 0")
    case True
    with assms d have "f' = f" by (simp add: sys_write_def)
    with True assms(2,3) show ?thesis by simp
  next
    case False
    from sys_write_append [of "?h f" i c fd d "taken (write_room f i) data"] d
    have "sys_write fd (taken (write_room f i) data) (?h f) = (n, ?h f')" "write_room f' = write_room f"
      using False assms(1) d by (auto simp: sys_write_def Let_def)
    with sys_write_log [OF assms(3), of "taken (write_room f i) data"] assms(2) show ?thesis
      by (auto simp del: taken_simps)
  qed
qed

lemma sys_write_dir: "sys_write fd data f = (n, f') \<Longrightarrow> same_dir f f'"
  by (auto simp: sys_write_def same_dir_def Let_def split: option.splits if_splits node.splits)

lemma dologging_disk:
  assumes "logging c (healed g)" "malloc_ok h = (\<lambda>_. True)"
  shows "\<exists>g'. dologging h b (length b) g = (Inr (), g')
    \<and> logging (c @ taken (log_room g) b) (healed g') \<and> log_room g' = log_room g
    \<and> same_session g g'"
proof (cases "log_room g = None")
  case True
  with assms(1) have "logging c g" by (rule healed_logging [THEN iffD2, OF conjI])
  from dologging_ok [OF this le_refl assms(2), of b] obtain g' where
    g': "dologging h b (length b) g = (Inr (), g')" "logging (c @ b) g'" "same_session g g'" by auto
  from healed_logging [THEN iffD1, OF g'(2)] g'(1,3) True show ?thesis
    by (auto simp: same_session_def log_room_def same_dir_def same_vars_simps)
next
  case False
  from assms(1) have log: "logtofile (opts g)" "w2s_inv (syslogs g)" by (auto simp: logging_def healed_def)
  define w where "w = (if logtosyslog (opts g)
    then w2s_put (syslogLogLineCount (opts g)) SYSLOG_PRIO (syslogs g) b else syslogs g)"
  have w: "w2s_inv w" using w2s_spec_inv [OF log(2)] w2s_put_eq [OF log(2)] log(2) by (simp add: w_def)
  obtain n f where f: "sys_write (logFile g) b (files g) = (n, f)" by fastforce
  define e where "e = (if n < 0 then stderr_text g @ [''Error writing to logfile''] else stderr_text g)"
  from f log(1) assms(2) write2syslog_refines [OF log(2)] w2s_put_eq [OF log(2)]
  have d: "dologging h b (length b) g = (Inr (), g\<lparr>files := f, syslogs := w, stderr_text := e\<rparr>)"
    by (simp add: dologging_def print_error_def w_def e_def)
  from sys_write_healed [OF f, of "log_ino g" c] assms(1) have
    "fs_inv (f\<lparr>write_room := (\<lambda>_. None)\<rparr>) \<and> write_room f = write_room (files g)
     \<and> log_open (logFile g) (log_ino g) (c @ taken (log_room g) b) (f\<lparr>write_room := (\<lambda>_. None)\<rparr>)"
    by (simp add: logging_def healed_def log_room_def)
  moreover have "same_vars g (g\<lparr>files := f, syslogs := w, stderr_text := e\<rparr>)" "same_dir (files g) f"
    using sys_write_dir [OF f] unfolding same_vars_def by blast+
  ultimately show ?thesis using log(1) w unfolding d
    by (simp add: logging_def healed_def log_room_def same_session_def)
qed

lemma pty_output_disk:
  assumes "goes_on (Round t (Ready typed shown))" "logging c (healed (core s))"
  shows "\<exists>g. pty_output (base t) shown s = (Inr (), s\<lparr>core := g, from_pty := from_pty s @ bytes_read shown,
      to_screen := to_screen s @ bytes_passed shown\<rparr>)
    \<and> logging (c @ taken (log_room (core s)) (bytes_read shown)) (healed g)
    \<and> log_room g = log_room (core s) \<and> same_session (core s) g"
proof (cases "\<exists>b w. shown = Some (Data b, w) \<and> b \<noteq> []")
  case True
  then obtain b n err where b: "shown = Some (Data b, Write_Result n err)" "b \<noteq> []"
    by (metis write_result.exhaust)
  with assms(1) have ok: "malloc_ok (base t) = (\<lambda>_. True)" "0 \<le> n"
    by (auto split: option.splits)
  from dologging_disk [OF assms(2) ok(1), of b] obtain g where
    "dologging (base t) b (length b) (core s) = (Inr (), g)"
    "logging (c @ taken (log_room (core s)) b) (healed g)" "log_room g = log_room (core s)" "same_session (core s) g"
    by blast
  with b ok show ?thesis
    by (intro exI [of _ g], cases s) (simp add: pty_output_def in_core_def bindM_def split: if_splits)
next
  case False
  then have "pty_output (base t) shown s = (Inr (), s)"
    by (auto simp: pty_output_def split: option.splits read_result.splits)
  moreover from False have "bytes_read shown = [] \<and> bytes_passed shown = []"
    by (cases shown rule: bytes_passed.cases) (auto simp: written_def)
  ultimately show ?thesis using assms(2) by (intro exI [of _ "core s"]) simp
qed

text \<open>What does not change while a session runs.\<close>

definition stays :: "session \<Rightarrow> session \<Rightarrow> bool" where
  "stays s s' \<longleftrightarrow> same_vars (core s) (core s') \<and> termParams s' = termParams s"

lemma stays_refl [simp]: "stays s s"
  by (simp add: stays_def)

lemma stays_trans: "stays s s1 \<Longrightarrow> stays s1 s2 \<Longrightarrow> stays s s2"
  by (auto simp: stays_def intro: same_vars_trans)

lemma stays_log_ino: "stays s s' \<Longrightarrow> log_ino (core s') = log_ino (core s)"
  by (simp add: stays_def same_vars_simps)

text \<open>An event that leaves the session running, whatever the disk does at the time: the user sees
  and types the same.\<close>

lemma event_disk:
  assumes "\<not> ending s" "logging c (healed (core s))" "goes_on e"
  shows "\<exists>s'. run_session [e] s = (Inr (), s') \<and> \<not> ending s'
    \<and> logging (c @ taken (log_room (core s)) (in_log (event_transcript e))) (healed (core s'))
    \<and> log_room (core s') = log_room (core s) \<and> stays s s'
    \<and> (is_round e \<longrightarrow> same_dir (files (core s)) (files (core s')))
    \<and> from_pty s' = from_pty s @ in_log (event_transcript e)
    \<and> to_screen s' = to_screen s @ on_screen (event_transcript e)
    \<and> to_pty s' = to_pty s @ to_shell (event_transcript e)"
proof (cases e)
  case (Signal sig)
  have "logging c (healed (core (signalHandler sig s)))"
    "log_room (core (signalHandler sig s)) = log_room (core s)"
    "stays s (signalHandler sig s)" "to_pty (signalHandler sig s) = to_pty s"
    using assms(2) same_vars_print_error
    by (cases sig; simp add: signalHandler_def print_error_def logging_def healed_def log_room_def stays_def)+
  with Signal assms show ?thesis
    by (auto simp: ending_signal signalHandler_same zero_transcript_def)
next
  case (Others a)
  with assms healed_user_step [OF assms(2), of a] show ?thesis
    by (auto simp: zero_transcript_def log_room_def user_step_frame stays_def)
next
  case (Round t w)
  show ?thesis
  proof (cases w)
    case (Select_Error err)
    with assms(3) Round show ?thesis by simp
  next
    case Interrupted
    then have "loop_round t w s = (Inr (), handle_winch t s)"
      using assms(1) ending_winch [of t s] by (simp add: loop_round_def bindM_def ending_def Let_def)
    then show ?thesis using assms(1,2) Round Interrupted
      by (simp add: bindM_def handle_winch_same zero_transcript_def stays_def)
  next
    case (Ready typed shown)
    with assms(3) Round have go: "goes_on (Round t (Ready typed shown))" by simp
    let ?s = "s\<lparr>to_pty := to_pty s @ bytes_passed typed\<rparr>"
    from pty_output_disk [OF go, of c ?s] assms(2) obtain g where
      g: "pty_output (base t) shown ?s = (Inr (), ?s\<lparr>core := g, from_pty := from_pty s @ bytes_read shown,
        to_screen := to_screen s @ bytes_passed shown\<rparr>)" (is "_ = (Inr (), ?s1)")
        "logging (c @ taken (log_room (core s)) (bytes_read shown)) (healed g)"
        "log_room g = log_room (core s)" "same_session (core s) g" by auto
    have e: "\<not> ending (handle_winch t ?s1)" using assms(1) by simp
    have "loop_round t w s = (Inr (), handle_winch t ?s1)"
      using e g(1) Ready user_typed_goes_on [OF go, of s]
      by (simp add: loop_round_def bindM_def ending_def Let_def)
    with g e Round Ready show ?thesis
      by (simp add: bindM_def handle_winch_same stays_def same_session_def)
  qed
qed (use assms(3) in simp)

lemma run_session_step_reach:
  "run_session [e] s = (Inr (), s') \<Longrightarrow> goes_on e \<Longrightarrow> session_reach s s'"
  by (cases e)
    (auto simp: bindM_result intro: reach_signal [OF reach_start] reach_other [OF reach_start]
      reach_round [OF reach_start])

text \<open>An event that leaves the session running adds its part to the transcript.\<close>

lemma event_goes_on:
  assumes "going s" "goes_on e"
  shows "\<exists>s'. run_session [e] s = (Inr (), s') \<and> session_reach s s' \<and> going s'
    \<and> transcript_of s' = transcript_of s + event_transcript e"
proof -
  from assms(1) have log: "logging (log_contents (core s)) (core s)" and run: "\<not> ending s"
    by (simp_all add: going_def in_session_def)
  from healed_logging [THEN iffD1, OF log] have h: "logging (log_contents (core s)) (healed (core s))"
    "log_room (core s) = None" by blast+
  from event_disk [OF run h(1) assms(2)] h(2) obtain s' where s':
    "run_session [e] s = (Inr (), s')" "\<not> ending s'" "log_room (core s') = None"
    "logging (log_contents (core s) @ in_log (event_transcript e)) (healed (core s'))"
    "to_screen s' = to_screen s @ on_screen (event_transcript e)"
    "to_pty s' = to_pty s @ to_shell (event_transcript e)" by auto
  from healed_logging [THEN iffD2, OF conjI, OF s'(4,3)] s'(2) going_I
  have "going s'" "transcript_of s' = transcript_of s + event_transcript e"
    by (auto simp: s'(5,6) transcript_of_def plus_transcript_def)
  with s'(1) run_session_step_reach [OF s'(1) assms(2)] show ?thesis by blast
qed

lemma run_session_all: "run_session es s = run_all (\<lambda>e. run_session [e]) es s"
proof (induction es arbitrary: s)
  case (Cons e es)
  then have "run_session es = run_all (\<lambda>e. run_session [e]) es" by (rule ext)
  with run_session_append [of "[e]" es s] show ?case by simp
qed simp

interpretation runs: recorder "\<lambda>e. run_session [e]" "\<lambda>s. going s \<and> session_reach s0 s" goes_on
    transcript_of event_transcript
  for s0
proof
  fix s e
  assume "going s \<and> session_reach s0 s" "goes_on e"
  with event_goes_on [of s e] session_reach_trans show "\<exists>s'. run_session [e] s = (Inr (), s')
      \<and> (going s' \<and> session_reach s0 s') \<and> transcript_of s' = transcript_of s + event_transcript e"
    by blast
qed

lemma run_session_goes_on:
  assumes "list_all goes_on es" "\<not> ending s" "logging c (core s)"
  shows "\<exists>s'. run_session es s = (Inr (), s') \<and> session_reach s s' \<and> going s'
    \<and> transcript_of s' = transcript_of s + sum_list (map event_transcript es)"
  using runs.run_recorded [of s s es] assms going_I(1) [OF assms(3,2)] reach_start
  by (auto simp: run_session_all [of es])

text \<open>What of the output the log keeps when the disk fails and recovers: of every block read what
  the log's inode \<open>i\<close> takes at that time.\<close>

fun kept :: "ino \<Rightarrow> nat option \<Rightarrow> session_event list \<Rightarrow> buffer" where
  "kept i room [] = []"
| "kept i room (Disk room' # es) = kept i (room' i) es"
| "kept i room (e # es) = taken room (in_log (event_transcript e)) @ kept i room es"

lemma kept_goes_on:
  "goes_on e \<Longrightarrow> kept i room (e # es) = taken room (in_log (event_transcript e)) @ kept i room es"
  by (cases e) simp_all

fun is_disk :: "session_event \<Rightarrow> bool" where
  "is_disk (Disk room) = True"
| "is_disk e = False"

lemma run_session_disk:
  assumes "\<not> ending s" "logging c (healed (core s))" "list_all (\<lambda>e. goes_on e \<or> is_disk e) es"
  shows "\<exists>s'. run_session es s = (Inr (), s') \<and> \<not> ending s' \<and> stays s s'
    \<and> logging (c @ kept (log_ino (core s)) (log_room (core s)) es) (healed (core s'))
    \<and> from_pty s' = from_pty s @ in_log (sum_list (map event_transcript es))
    \<and> to_screen s' = to_screen s @ on_screen (sum_list (map event_transcript es))
    \<and> to_pty s' = to_pty s @ to_shell (sum_list (map event_transcript es))"
  using assms
proof (induction es arbitrary: s c)
  case Nil
  then show ?case by (simp add: zero_transcript_def)
next
  case (Cons e es)
  show ?case
  proof (cases "is_disk e")
    case True
    then obtain room where e: "e = Disk room" by (cases e) auto
    let ?s = "s\<lparr>core := (core s)\<lparr>files := (files (core s))\<lparr>write_room := room\<rparr>\<rparr>\<rparr>"
    have "log_room (core ?s) = room (log_ino (core s))" "stays s ?s" by (simp_all add: log_room_def stays_def)
    with Cons.IH [of ?s c] Cons.prems e stays_trans [of s ?s] show ?thesis by auto
  next
    case False
    with Cons.prems(3) have go: "goes_on e" by simp
    from event_disk [OF Cons.prems(1,2) go] obtain s1 where s1: "run_session [e] s = (Inr (), s1)"
      "\<not> ending s1" "logging (c @ taken (log_room (core s)) (in_log (event_transcript e))) (healed (core s1))"
      "log_room (core s1) = log_room (core s)" "stays s s1"
      "from_pty s1 = from_pty s @ in_log (event_transcript e)"
      "to_screen s1 = to_screen s @ on_screen (event_transcript e)"
      "to_pty s1 = to_pty s @ to_shell (event_transcript e)" by blast
    from Cons.IH [OF s1(2,3)] Cons.prems(3) obtain s' where s': "run_session es s1 = (Inr (), s')" "\<not> ending s'"
      "logging (c @ kept (log_ino (core s)) (log_room (core s)) (e # es)) (healed (core s'))"
      "stays s1 s'" "from_pty s' = from_pty s1 @ in_log (sum_list (map event_transcript es))"
      "to_screen s' = to_screen s1 @ on_screen (sum_list (map event_transcript es))"
      "to_pty s' = to_pty s1 @ to_shell (sum_list (map event_transcript es))"
      by (auto simp: kept_goes_on [OF go] s1(4) stays_log_ino [OF s1(5)])
    with s1(1,6,7,8) stays_trans [OF s1(5) s'(4)] run_session_append [of "[e]" es s] show ?thesis
      by (auto simp: bindM_def plus_transcript_def)
  qed
qed

text \<open>A disk that takes everything loses nothing.\<close>

lemma kept_all: "list_all goes_on es \<Longrightarrow> kept i None es = in_log (sum_list (map event_transcript es))"
  by (induction es) (simp_all add: zero_transcript_def plus_transcript_def kept_goes_on)

section \<open>Properties\<close>

text \<open>C16: After an interrupt, a quit or the end of the child the program ends: whatever else happens,
  the next wakeup of the loop, if not an earlier one, is the last.\<close>

theorem session_ends_after_signal:
  assumes "ends_session sig" "list_ex is_round es2"
  shows "\<exists>e s'. run_session (es1 @ Signal sig # es2) s = (Inl e, s')"
proof -
  obtain r s1 where r: "run_session es1 s = (r, s1)" by (cases "run_session es1 s") auto
  show ?thesis
  proof (cases r)
    case (Inl e)
    with r show ?thesis by (simp add: run_session_append bindM_def)
  next
    case (Inr u)
    have "ending (signalHandler sig s1)" using assms(1) by (simp add: ending_signal)
    from run_session_ends [OF this assms(2)] r Inr show ?thesis
      by (simp add: run_session_append bindM_def)
  qed
qed

theorem session_ends_after_signal_witness:
  "\<exists>e s. run_session [Signal SIGWINCH, Signal SIGCHLD, Round sample_term Interrupted] running_session = (Inl e, s)"
  using session_ends_after_signal [of SIGCHLD "[Round sample_term Interrupted]" "[Signal SIGWINCH]" running_session]
  by (simp add: ends_session_def)

text \<open>Until then it goes on: wakeups without an error of the keyboard, the pseudo terminal or the
  screen, window changes and the doings of others leave the session running and logging.\<close>

theorem session_goes_on:
  assumes "list_all goes_on es" "\<not> ending s" "logging c (core s)" "from_pty s = []" "to_screen s = []"
  shows "\<exists>s'. run_session es s = (Inr (), s') \<and> logging (c @ from_pty s') (core s')"
proof -
  from run_session_goes_on [OF assms(1-3)] obtain s' where
    "run_session es s = (Inr (), s')" "session_reach s s'" by blast
  with session_reach_inv [OF this(2) assms(3-5)] show ?thesis by blast
qed

theorem session_goes_on_witness:
  "\<exists>s. run_session [Signal SIGWINCH, Round sample_term Interrupted,
      Round sample_term (Ready None (Some (Data ''# '', Write_Result 2 [])))] running_session = (Inr (), s)
    \<and> logging (''a'' @ from_pty s) (core s)"
  by (rule session_goes_on [OF _ _ running_logging])
    (simp_all add: ends_session_def ending_def running_session_def sample_term_def)

text \<open>C11: A session that goes on is determined by its events: the log grows by exactly the blocks read
  from the shell, the screen by the parts of them the terminal took, and the shell gets exactly what
  was typed, each in order, whatever signals and doings of others come in between.\<close>

theorem session_is_recorded:
  assumes "list_all goes_on es" "\<not> ending s" "in_session (core s)"
  shows "\<exists>s'. run_session es s = (Inr (), s') \<and> in_session (core s')
    \<and> log_contents (core s') = log_contents (core s) @ in_log (sum_list (map event_transcript es))
    \<and> to_screen s' = to_screen s @ on_screen (sum_list (map event_transcript es))
    \<and> to_pty s' = to_pty s @ to_shell (sum_list (map event_transcript es))"
  using run_session_goes_on [OF assms(1,2)] assms(3)
  by (auto simp: in_session_def going_def transcript_of_def plus_transcript_def)

theorem session_is_recorded_witness:
  "\<exists>s. run_session [Signal SIGWINCH, Round sample_term (Ready (Some (Data ''id'', Write_Result 2 [])) None),
      Others (U_unlink ''/l''), Round sample_term (Ready None (Some (Data ''# '', Write_Result 1 [])))]
      running_session = (Inr (), s)
    \<and> log_contents (core s) = ''a# '' \<and> to_screen s = ''#'' \<and> to_pty s = ''id''"
  using session_is_recorded [of "[Signal SIGWINCH,
      Round sample_term (Ready (Some (Data ''id'', Write_Result 2 [])) None), Others (U_unlink ''/l''),
      Round sample_term (Ready None (Some (Data ''# '', Write_Result 1 [])))]" running_session]
    running_logging logging_contents [OF running_logging]
  by (auto simp: in_session_def ends_session_def ending_def sample_term_def written_def
    plus_transcript_def zero_transcript_def running_session_def)

text \<open>C17: A log that cannot be written stops nothing: over any sequence of events that leaves a
  session running, with the disk refusing writes, taking a part of them and recovering in between, the
  user sees and types everything, but the log has been extended, block by block, only by what the
  disk took at the time.\<close>

theorem session_outlives_its_log:
  assumes "\<not> ending s" "in_session (core s)" "list_all (\<lambda>e. goes_on e \<or> is_disk e) es"
  shows "\<exists>s'. run_session es s = (Inr (), s') \<and> \<not> ending s'
    \<and> nodes (files (core s')) (logDev (core s), logInode (core s))
        = Some (File (log_contents (core s) @ kept (logDev (core s), logInode (core s)) None es))
    \<and> to_screen s' = to_screen s @ on_screen (sum_list (map event_transcript es))
    \<and> to_pty s' = to_pty s @ to_shell (sum_list (map event_transcript es))"
proof -
  from assms(2) healed_logging have h: "logging (log_contents (core s)) (healed (core s))" "log_room (core s) = None"
    unfolding in_session_def by blast+
  have "nodes (files g) (log_ino g) = Some (File c)" if "logging c (healed g)" for c g
    using that by (auto simp: logging_def healed_def log_open_def)
  with run_session_disk [OF assms(1) h(1) assms(3)] h(2) show ?thesis
    by (metis stays_log_ino)
qed

theorem session_outlives_its_log_witness:
  "\<exists>s. run_session [Disk (\<lambda>_. Some 2), Round sample_term (Ready None (Some (Data ''rm x'', Write_Result 4 []))),
      Disk (\<lambda>_. None), Round sample_term (Ready None (Some (Data ''# '', Write_Result 2 [])))]
      running_session = (Inr (), s)
    \<and> nodes (files (core s)) (logDev (core running_session), logInode (core running_session))
        = Some (File ''arm# '') \<and> to_screen s = ''rm x# ''"
proof -
  have "in_session (core running_session)" "log_contents (core running_session) = ''a''"
    using running_logging logging_contents [OF running_logging] by (auto simp: in_session_def)
  with session_outlives_its_log [of running_session "[Disk (\<lambda>_. Some 2),
      Round sample_term (Ready None (Some (Data ''rm x'', Write_Result 4 []))), Disk (\<lambda>_. None),
      Round sample_term (Ready None (Some (Data ''# '', Write_Result 2 [])))]"]
  show ?thesis
    by (auto simp: ending_def sample_term_def written_def plus_transcript_def zero_transcript_def
      running_session_def)
qed

text \<open>C32: A child that ends before the handlers are installed is never noticed: the signal is
  forgotten, the read from its terminal fails every time, and the loop turns for ever without any
  effect.\<close>

theorem early_end_is_missed:
  assumes "enter_session t (signalHandler SIGCHLD s0) = (Inr (), s)"
  shows "run_session (replicate n (Round t (Ready None (Some (Read_Error err, w))))) s
      = (Inr (), s)"
proof -
  from assms have "\<not> ending s" "\<not> sigWinchReceived s"
    by (auto simp: enter_session_def Let_def bindM_result setupSignalHandlers_def ending_def
      log_and_exit_stops split: if_splits option.splits)
  then have "loop_round t (Ready None (Some (Read_Error err, w))) s = (Inr (), s)"
    by (simp add: loop_round_def user_typed_def pty_output_def handle_winch_def bindM_def ending_def Let_def)
  then show ?thesis by (induction n) (simp_all add: bindM_def)
qed

theorem early_end_is_missed_witness:
  "\<exists>s. enter_session sample_term (signalHandler SIGCHLD running_session) = (Inr (), s)
    \<and> run_session (replicate 5 (Round sample_term (Ready None (Some (Read_Error ''EIO'', Write_Result 0 []))))) s = (Inr (), s)"
proof -
  obtain s where "enter_session sample_term (signalHandler SIGCHLD running_session) = (Inr (), s)"
    by (simp add: enter_session_def setupSignalHandlers_def sample_term_def bindM_def Let_def)
  with early_end_is_missed [OF this] show ?thesis by blast
qed

end
