(* ===== verification/Program.thy ===== *)
theory Program
  imports Options Forkpty Session_Run
begin

text \<open>
  The program as a whole: \<open>main\<close> from the compiled settings to the shell or the session loop.
\<close>

section \<open>Starting\<close>

text \<open>
  The host of a run: the answers of the operating system, the build's choices, and what the
  terminal was like; \<open>exec_ok\<close> is whether the host can execute a program.
\<close>

record main_host =
  the_term :: term_host
  the_pty :: pty_host
  exec_ok :: "string \<Rightarrow> string list \<Rightarrow> bool"
  SUCMD :: string
  HAS_ETC_SHELLS :: bool
  AIX_COMPAT :: bool
  HAVE_TTCOMPAT :: bool
  term_now :: termios
  size_now :: "nat \<times> nat"
  fds_now :: "nat list"

definition compiled_error :: "string \<Rightarrow> string \<Rightarrow> string" where
  "compiled_error what v =
     ''Compiled value for '' @ what @ '': '' @ [CHR 0x27] @ v @ [CHR 0x27]
     @ '' is longer than max path len: '' @ dec MAXPATHLEN"

text \<open>The compiled values and the configuration file.\<close>

definition load_settings :: "build \<Rightarrow> host \<Rightarrow> string option \<Rightarrow> rootsh \<Rightarrow> (stop + unit) \<times> rootsh" where
  "load_settings bld h config g =
     (case compiled_settings bld of
        Inl e \<Rightarrow>
          (Inl e, print_error (if length (LOGDIR bld) > MAXPATHLEN
             then compiled_error ''logdir'' (LOGDIR bld)
             else compiled_error ''default shell'' (DEFAULTSHELL bld)) g)
      | Inr st \<Rightarrow>
          (case readConfigFile (malloc_ok h) config st of
             Inl e \<Rightarrow> (Inl (Faulted e), g)
           | Inr (ok, st, errs) \<Rightarrow>
               let g = g\<lparr>opts := st, stderr_text := stderr_text g @ errs\<rparr> in
               if ok then (Inr (), g)
               else (Inl (Exited EXIT_FAILURE),
                 print_error ''Error setting up configuration options'' g)))"

text \<open>\<open>strncpy (progName, basename (argv[0]), (MAXPATHLEN - 1))\<close> into a zeroed array.\<close>

definition name_program :: "string list \<Rightarrow> rootsh \<Rightarrow> rootsh" where
  "name_program v g =
     g\<lparr>progName := take (MAXPATHLEN - 1) (basename (if v = [] then None else Some (hd v)))\<rparr>"

definition read_options :: "build \<Rightarrow> build_names \<Rightarrow> host \<Rightarrow> string option \<Rightarrow> main_state \<Rightarrow>
    ((stop + string option) \<times> main_state) option" where
  "read_options bld b h config m =
     (case load_settings bld h config (prog m) of
        (Inl e, g) \<Rightarrow> Some (Inl e, m\<lparr>prog := g\<rparr>)
      | (Inr u, g) \<Rightarrow>
          option_loop b h None (m\<lparr>prog := name_program (argv (scanner m)) g\<rparr>))"

text \<open>How \<open>main\<close> goes on: as the child it runs a program, as the parent it watches the session.\<close>

datatype main_end = Runs string "string list" | Watches session

definition initial_session :: "main_host \<Rightarrow> rootsh \<Rightarrow> session" where
  "initial_session M g =
     \<lparr>core = g, sigWinchReceived = False, sigIntReceived = False, sigQuitReceived = False,
      sigChldReceived = False, tty = term_now M, termParams = term_now M, newTty = term_now M,
      winSize = size_now M, pty_size = size_now M, child_winches = 0, pty_open = True,
      to_pty = [], from_pty = [], to_screen = []\<rparr>"

definition start_session :: "main_host \<Rightarrow> string option \<Rightarrow> rootsh \<Rightarrow> (stop + main_end) \<times> rootsh" where
  "start_session M shellCommands =
     bindM (prepare_session (HAS_ETC_SHELLS M) (base (the_term M)) shellCommands) (\<lambda>shell g.
       case forkpty (AIX_COMPAT M) (HAVE_TTCOMPAT M) (the_pty M) False (Some (term_now M))
           (Some (size_now M))
           \<lparr>open_fds = fds_now M, slave_modes = None, slave_winsize = None, std_fds = [],
            session_leader = False, vars = g\<rparr> of
         (Inl e, s) \<Rightarrow> (Inl e, vars s)
       | (Inr (childPid, master, name), s) \<Rightarrow>
           if childPid < 0 then (Inl (Exited EXIT_FAILURE), print_error ''forkpty'' (vars s))
           else if childPid = 0 then
             (case execShell (exec_ok M) (SUCMD M) shell shellCommands (vars s) of
                (Inl e, g) \<Rightarrow> (Inl e, g)
              | (Inr (path, args), g) \<Rightarrow> (Inr (Runs path args), g))
           else
             (case enter_session (the_term M) (initial_session M (vars s)) of
                (Inl e, s) \<Rightarrow> (Inl e, core s)
              | (Inr u, s) \<Rightarrow> (Inr (Watches s), core s)))"

definition rootsh_main :: "build \<Rightarrow> build_names \<Rightarrow> main_host \<Rightarrow> string option \<Rightarrow> main_state \<Rightarrow>
    ((stop + main_end) \<times> main_state) option" where
  "rootsh_main bld b M config m =
     map_option (\<lambda>(r, m).
       case r of
         Inl e \<Rightarrow> (Inl e, m)
       | Inr shellCommands \<Rightarrow>
           (case start_session M shellCommands (prog m) of (r, g) \<Rightarrow> (r, m\<lparr>prog := g\<rparr>)))
     (read_options bld b (base (the_term M)) config m)"

section \<open>Lemmas on starting\<close>

text \<open>Nothing before \<open>beginlogging\<close> touches files, settings, the program's name, the user to run
  as or what syslog received.\<close>

definition undisturbed :: "rootsh \<Rightarrow> rootsh \<Rightarrow> bool" where
  "undisturbed g g' \<longleftrightarrow> files g' = files g \<and> opts g' = opts g \<and> syslogs g' = syslogs g
    \<and> runAsUser g' = runAsUser g \<and> progName g' = progName g"

lemma undisturbed_refl [simp]: "undisturbed g g"
  by (simp add: undisturbed_def)

lemma undisturbed_trans: "undisturbed g1 g2 \<Longrightarrow> undisturbed g2 g3 \<Longrightarrow> undisturbed g1 g3"
  by (simp add: undisturbed_def)

lemma undisturbed_print [simp]: "undisturbed g (print_error m h) = undisturbed g h"
  by (simp add: undisturbed_def print_error_def)

lemma setupusername_undisturbed: "setupusername h g = (r, g') \<Longrightarrow> undisturbed g g'"
  by (auto simp: setupusername_def split: option.splits if_splits)

lemma saveenv_undisturbed: "saveenv h name g = (r, g') \<Longrightarrow> undisturbed g g'"
  by (auto simp: saveenv_def bindM_def Let_def undisturbed_def print_error_def
      split: option.splits if_splits sum.splits prod.splits)

lemma restoreenv_undisturbed: "restoreenv g = (r, g') \<Longrightarrow> undisturbed g g'"
  by (auto simp: restoreenv_def undisturbed_def split: option.splits sum.splits)

lemma setupusermode_undisturbed:
  assumes "setupusermode h g = (Inr ok, g')"
  shows "undisturbed g g'"
proof (cases "runAsUser g")
  case None
  with assms show ?thesis by (simp add: setupusermode_def)
next
  case (Some user)
  show ?thesis
  proof (cases "length user > 64 \<or> getpwnam h user = None")
    case True
    with assms Some show ?thesis by (auto simp: setupusermode_def split: if_splits)
  next
    case False
    with assms Some obtain v g1 u g2 where
      "saveenv h ''TERM'' g = (Inr v, g1)" "restoreenv (clearenv g1) = (Inr u, g2)" "g' = g2"
      by (auto simp: setupusermode_def bindM_result)
    moreover have "undisturbed g1 (clearenv g1)" by (simp add: undisturbed_def clearenv_def)
    ultimately show ?thesis
      using saveenv_undisturbed restoreenv_undisturbed undisturbed_trans by metis
  qed
qed

lemma setupshell_undisturbed: "setupshell b h g = (r, g') \<Longrightarrow> undisturbed g g'"
  by (auto simp: setupshell_def Let_def undisturbed_def print_error_def
      split: option.splits if_splits prod.splits)

lemma getenv_putenv_other:
  assumes "env_name entry \<noteq> name" "CHR ''='' \<notin> set name"
  shows "getenv (putenv entry env) name = getenv env name"
proof -
  have other: "take (length name + 1) e \<noteq> name @ ''=''" if "env_name e \<noteq> name" for e
    using that env_name_eq [OF assms(2)] by (metis append_assoc append_take_drop_id)
  then show ?thesis
    using assms(1) by (induction env) (use other in auto)
qed

lemma setupusername_vars:
  "setupusername h g = (r, g') \<Longrightarrow> environ g' = environ g \<and> usershells g' = usershells g"
  by (auto simp: setupusername_def print_error_def split: option.splits if_splits)

text \<open>The shell is chosen and the logs are begun, in this order; without a user to run as, the
  caller's \<open>SHELL\<close> is still there for the choice.\<close>

lemma prepare_session_begins:
  assumes "prepare_session b h cmds g = (Inr shell, g')"
  shows "\<exists>g1 g0. setupshell b h g1 = (Inr (Some shell), g0) \<and> beginlogging h cmds g0 = (Inr True, g')
    \<and> undisturbed g g1 \<and> undisturbed g1 g0
    \<and> (runAsUser g = None \<longrightarrow> usershells g1 = usershells g
        \<and> getenv (environ g1) ''SHELL'' = getenv (environ g) ''SHELL'')"
proof -
  define sid where "sid = snprintf_text (MAXPATHLEN + 11)
            (name_without_dash (progName g) @ ''['' @ pad0 5 (getpid h) @ '']'')"
  define g1 where "g1 = g\<lparr>sessionId := sid, environ := putenv
            (snprintf_text (MAXPATHLEN + 11 + 17) (''ROOTSH_SESSIONID='' @ sid)) (environ g)\<rparr>"
  define g2 where "g2 = g1\<lparr>standalone := getenv (environ g1) ''SUDO_USER'' = None\<rparr>"
  from assms obtain user g3 where u: "setupusername h g2 = (Inr (Some user), g3)"
    "bindM (setupusermode h) (\<lambda>ok g. if \<not> ok then (Inl (Exited EXIT_FAILURE), g)
       else bindM (setupshell b h) (\<lambda>shell g. case shell of
           None \<Rightarrow> (Inl (Exited EXIT_FAILURE), g)
         | Some shell \<Rightarrow> bindM (beginlogging h cmds)
             (\<lambda>ok g. if \<not> ok then (Inl (Exited EXIT_FAILURE), g) else (Inr shell, g)) g) g)
       (g3\<lparr>userName := user\<rparr>) = (Inr shell, g')"
    by (auto simp: prepare_session_def Let_def sid_def g1_def g2_def bindM_result split: option.splits)
  from u(2) obtain g4 g5 where m: "setupusermode h (g3\<lparr>userName := user\<rparr>) = (Inr True, g4)"
    "setupshell b h g4 = (Inr (Some shell), g5)" "beginlogging h cmds g5 = (Inr True, g')"
    by (auto simp: bindM_result split: if_splits option.splits)
  have "undisturbed g g2" by (simp add: undisturbed_def g2_def g1_def)
  moreover have "undisturbed g3 (g3\<lparr>userName := user\<rparr>)" by (simp add: undisturbed_def)
  ultimately have d: "undisturbed g g3" "undisturbed g g4" "undisturbed g4 g5"
    using setupusername_undisturbed [OF u(1)] setupusermode_undisturbed [OF m(1)]
      setupshell_undisturbed [OF m(2)] undisturbed_trans by metis+
  have "usershells g4 = usershells g \<and> getenv (environ g4) ''SHELL'' = getenv (environ g) ''SHELL''"
    if "runAsUser g = None"
  proof -
    have "g4 = g3\<lparr>userName := user\<rparr>"
      using m(1) that d(1) by (simp add: setupusermode_def undisturbed_def)
    moreover have "length sid < MAXPATHLEN + 11" unfolding sid_def by (rule length_snprintf_text) simp
    then have "getenv (environ g2) ''SHELL'' = getenv (environ g) ''SHELL''"
      using getenv_putenv_other [of "''ROOTSH_SESSIONID='' @ sid" "''SHELL''"]
      by (simp add: g2_def g1_def env_name_def)
    ultimately show ?thesis using setupusername_vars [OF u(1)] by (simp add: g2_def g1_def)
  qed
  with m(2,3) d(2,3) show ?thesis by (intro exI [of _ g4] exI [of _ g5]) simp
qed

text \<open>What the program does from there on, until the child runs its program or the parent watches,
  leaves the settings, the names and the choice of the user and of the shell alone.\<close>

definition same_setup :: "rootsh \<Rightarrow> rootsh \<Rightarrow> bool" where
  "same_setup g g' \<longleftrightarrow> opts g' = opts g \<and> runAsUser g' = runAsUser g \<and> progName g' = progName g
     \<and> userName g' = userName g \<and> useLoginShell g' = useLoginShell g \<and> isaLoginShell g' = isaLoginShell g"

lemma same_setup_refl [simp]: "same_setup g g"
  by (simp add: same_setup_def)

lemma same_setup_trans: "same_setup g g1 \<Longrightarrow> same_setup g1 g2 \<Longrightarrow> same_setup g g2"
  by (simp add: same_setup_def)

lemma same_setup_texts:
  assumes "same_setup g g'"
  shows "opened_text h user g' = opened_text h user g" "begin_user h g' = begin_user h g"
    "is_self s g' = is_self s g"
  using assms by (simp_all add: same_setup_def opened_text_def login_text_def begin_user_def is_self_def)

lemma dologging_setup:
  assumes "dologging h buf n g = (Inr u, g')"
  shows "same_setup g g' \<and> logFile g' = logFile g \<and> logInode g' = logInode g \<and> logDev g' = logDev g
    \<and> logFileName g' = logFileName g \<and> openlog_ident g' = openlog_ident g
    \<and> (files g' = files g \<or> files g' = snd (sys_write (logFile g) (take n buf) (files g)))"
  using assms by (auto simp: dologging_def same_setup_def print_error_def Let_def
      split: if_splits sum.splits prod.splits)

text \<open>The log is attached: its descriptor is open for appending on the file that was remembered.\<close>

definition log_attached :: "rootsh \<Rightarrow> bool" where
  "log_attached g \<longleftrightarrow> (\<exists>d c. fds (files g) (logFile g) = Some d \<and> fd_append d
     \<and> fd_ino d = (logDev g, logInode g) \<and> nodes (files g) (logDev g, logInode g) = Some (File c))"

lemma log_attached_write:
  assumes "log_attached g" "logFile g' = logFile g" "logInode g' = logInode g" "logDev g' = logDev g"
    "files g' = files g \<or> files g' = snd (sys_write (logFile g) data (files g))"
  shows "log_attached g' \<and> names (files g') = names (files g)"
  using assms by (auto simp: log_attached_def sys_write_def Let_def)

text \<open>A log that \<open>beginlogging\<close> opened is there to be written, whatever the disk takes.\<close>

lemma sys_open_opens:
  assumes "sys_open path app f = (Inr fd, f')" "fs_inv f"
  shows "can_open f path \<and> (\<exists>j old. names f' path = Some j
    \<and> fds f' fd = Some \<lparr>fd_ino = j, fd_off = 0, fd_append = app\<rparr> \<and> nodes f' j = Some (File old))"
proof -
  have e: "open_error f path = None"
    using assms(1) by (auto simp: sys_open_def split: option.splits)
  moreover have d: "nodes f i \<noteq> Some (Dir b)" if "names f path = Some i" for i b
    using assms(1) that calculation by (auto simp: sys_open_def)
  ultimately obtain f2 j old where "sys_open path app f = (Inr (next_fd f), f2)" "names f2 path = Some j"
    "fds f2 (next_fd f) = Some \<lparr>fd_ino = j, fd_off = 0, fd_append = app\<rparr>" "nodes f2 j = Some (File old)"
    using sys_open_ok [OF assms(2), of path app] by blast
  moreover have "can_open f path"
    using e d by (auto simp: can_open_def split: option.splits node.splits)
  ultimately show ?thesis using assms(1) by auto
qed

lemma write_message_returns:
  "write_message h m g = (Inr n, g') \<Longrightarrow>
    g' = g\<lparr>files := snd (sys_write (logFile g) (take (length m) (msgbuf_of h m)) (files g))\<rparr>"
  by (auto simp: write_message_def split: if_splits prod.splits)

lemma open_log_opens:
  assumes "open_log h user g = (Inr True, g')" "fs_inv (files g)"
  shows "can_open (files g) (choose_log_name h g) \<and> log_attached g' \<and> name_intact g' \<and> same_setup g g'
    \<and> logFileName g' = choose_log_name h g"
proof -
  obtain fd f i n where f: "sys_open (choose_log_name h g) True (files g) = (Inr fd, f)" "sys_fstat fd f = Some i"
    and w: "write_message h (opened_text h user (g\<lparr>logFileName := choose_log_name h g, files := f,
        logFile := fd, logInode := snd i, logDev := fst i\<rparr>))
      (g\<lparr>logFileName := choose_log_name h g, files := f, logFile := fd, logInode := snd i, logDev := fst i\<rparr>)
      = (Inr n, g')"
    using assms(1) by (auto simp: open_log_def Let_def bindM_result split: sum.splits prod.splits option.splits if_splits)
  let ?g = "g\<lparr>logFileName := choose_log_name h g, files := f, logFile := fd, logInode := snd i, logDev := fst i\<rparr>"
  obtain data where g': "g' = ?g\<lparr>files := snd (sys_write fd data f)\<rparr>"
    using write_message_returns [OF w] by auto
  from sys_open_opens [OF f(1) assms(2)] obtain j old where j: "can_open (files g) (choose_log_name h g)"
    "names f (choose_log_name h g) = Some j" "fds f fd = Some \<lparr>fd_ino = j, fd_off = 0, fd_append = True\<rparr>"
    "nodes f j = Some (File old)" by blast
  then have "log_attached ?g" using f(2) by (simp add: log_attached_def sys_fstat_def)
  from log_attached_write [OF this, of g' data] have "log_attached g'" "names (files g') = names f"
    by (simp_all add: g')
  with j f(2) show ?thesis by (simp add: g' name_intact_def sys_fstat_def same_setup_def)
qed

text \<open>What is known when \<open>beginlogging\<close> has not failed.\<close>

lemma beginlogging_begins:
  assumes "beginlogging h cmds g = (Inr True, g')" "fs_inv (files g)"
  shows "same_setup g g' \<and> (logtofile (opts g) \<or> logtosyslog (opts g)) \<and> begin_user h g \<noteq> None
    \<and> (logtofile (opts g) \<longrightarrow> can_open (files g) (choose_log_name h g) \<and> log_attached g' \<and> name_intact g')
    \<and> (logtosyslog (opts g) \<longrightarrow> openlog_ident g' \<noteq> None)"
proof -
  from assms(1) obtain user g1 where u: "begin_user h g = Some user" "logtofile (opts g) \<or> logtosyslog (opts g)"
    and o: "(if logtofile (opts g) then open_log h user g else (Inr True, g)) = (Inr True, g1)" and
    rest: "(let g = (if logtosyslog (opts g1) then open_syslog h user g1 else g1) in
       case cmds of None \<Rightarrow> (Inr True, g)
       | Some cmds \<Rightarrow> bindM (log_message h (''shell commands: '' @ cmds @ [LF])) (\<lambda>_ g. (Inr True, g)) g)
      = (Inr True, g')"
    by (auto simp: beginlogging_def begin_user_def bindM_result split: option.splits if_splits)
  have g1: "same_setup g g1" "logtofile (opts g) \<longrightarrow> can_open (files g) (choose_log_name h g) \<and> log_attached g1 \<and> name_intact g1"
    using o open_log_opens [of h user g g1] assms(2) by (auto split: if_splits)
  define g2 where "g2 = (if logtosyslog (opts g1) then open_syslog h user g1 else g1)"
  have g2: "same_setup g g2" "logtofile (opts g) \<longrightarrow> can_open (files g) (choose_log_name h g) \<and> log_attached g2 \<and> name_intact g2"
    "logtosyslog (opts g) \<longrightarrow> openlog_ident g2 \<noteq> None"
    using g1 by (auto simp: g2_def open_syslog_def Let_def same_setup_def log_attached_def name_intact_def)
  show ?thesis
  proof (cases cmds)
    case None
    with rest g2 u show ?thesis by (simp add: g2_def)
  next
    case (Some d)
    let ?m = "''shell commands: '' @ d @ [LF]"
    from Some rest obtain v where "dologging h (msgbuf_of h ?m) (length ?m) g2 = (Inr v, g')"
      by (auto simp: bindM_result g2_def log_message_def)
    note s = dologging_setup [OF this]
    have "log_attached g' \<and> names (files g') = names (files g2)" if "log_attached g2"
      using log_attached_write [OF that, of g' "take (length ?m) (msgbuf_of h ?m)"] s by blast
    moreover have "same_setup g g'" using g2(1) s same_setup_trans by blast
    ultimately show ?thesis using g2 u s by (auto simp: name_intact_def)
  qed
qed

text \<open>With a disk that takes everything, what the log holds.\<close>

lemma beginlogging_logs:
  assumes "beginlogging h cmds g = (Inr True, g')" "fs_inv (files g)" "w2s_inv (syslogs g)"
    "disk_ok (files g)" "logtofile (opts g)" "malloc_ok h = (\<lambda>_. True)" "begin_user h g' = Some user"
    "length (opened_text h user g') \<le> BUFSIZ - 2" "length (command_text cmds) \<le> BUFSIZ - 2"
  shows "logging (old_contents (files g) (logFileName g') @ opened_text h user g' @ command_text cmds) g'
    \<and> disk_ok (files g')"
proof -
  from beginlogging_begins [OF assms(1,2)] assms(5) have b: "same_setup g g'" "can_open (files g) (choose_log_name h g)"
    by simp_all
  note t = same_setup_texts [OF b(1)]
  from beginlogging_ok [OF assms(2-5) b(2) _ _ assms(9,6), of user] assms(1,7,8) show ?thesis
    by (auto simp: t)
qed

lemma push_all_vars: "push_all p a b ms s = (ok, s') \<Longrightarrow> same_setup (vars s) (vars s')"
  by (induction ms) (auto simp: pty_close_def pty_error_def print_error_def same_setup_def split: if_splits)

lemma pty_child_vars:
  "pty_child mods p a nm tm ws s = ((pid, x, y), s') \<Longrightarrow> pid \<le> 0 \<and> same_setup (vars s) (vars s')"
  by (auto simp: pty_child_def Let_def pty_close_def pty_open_def pty_error_def print_error_def same_setup_def
      split: option.splits prod.splits bool.splits if_splits dest!: push_all_vars)

lemma forkpty_vars:
  "forkpty a t p False tm ws s = (Inr (pid, x, y), s') \<Longrightarrow>
    same_setup (vars s) (vars s') \<and> (0 < pid \<longrightarrow> vars s' = vars s)"
  by (auto simp: forkpty_def Let_def pty_close_def pty_open_def pty_error_def print_error_def same_setup_def
      split: option.splits prod.splits if_splits fork_result.splits dest!: pty_child_vars)

lemma enter_session_returns:
  assumes "enter_session t s = (Inr u, s')"
  shows "core s' = core s \<and> from_pty s' = from_pty s \<and> to_screen s' = to_screen s
    \<and> termParams s' = termParams s \<and> \<not> ending s'"
  using assms log_and_exit_stops
  by (auto simp: enter_session_def Let_def bindM_result setupSignalHandlers_def ending_def
      split: if_splits option.splits)

lemma start_session_cases:
  assumes "start_session M cmds g = (Inr x, g')"
  obtains shell g1 where "prepare_session (HAS_ETC_SHELLS M) (base (the_term M)) cmds g = (Inr shell, g1)"
    "same_setup g1 g'"
    "\<And>path args. x = Runs path args \<Longrightarrow> exec_ok M path args \<and> exec_args (SUCMD M) shell cmds g' = Inr (path, args)"
    "\<And>s. x = Watches s \<Longrightarrow> core s = g1 \<and> g' = g1 \<and> from_pty s = [] \<and> to_screen s = [] \<and> \<not> ending s
      \<and> termParams s = term_now M"
proof -
  from assms obtain shell g1 where p: "prepare_session (HAS_ETC_SHELLS M) (base (the_term M)) cmds g = (Inr shell, g1)"
    by (auto simp: start_session_def bindM_result)
  let ?s = "\<lparr>open_fds = fds_now M, slave_modes = None, slave_winsize = None, std_fds = [],
            session_leader = False, vars = g1\<rparr>"
  from assms p obtain pid a n s where f: "forkpty (AIX_COMPAT M) (HAVE_TTCOMPAT M) (the_pty M) False
      (Some (term_now M)) (Some (size_now M)) ?s = (Inr (pid, a, n), s)"
    by (auto simp: start_session_def split: sum.splits prod.splits)
  from forkpty_vars [OF f] have v: "same_setup g1 (vars s)" "0 < pid \<longrightarrow> vars s = g1" by simp_all
  have rest: "(if pid < 0 then (Inl (Exited EXIT_FAILURE), print_error ''forkpty'' (vars s))
    else if pid = 0 then
      (case execShell (exec_ok M) (SUCMD M) shell cmds (vars s) of
         (Inl e, g) \<Rightarrow> (Inl e, g) | (Inr (path, args), g) \<Rightarrow> (Inr (Runs path args), g))
    else (case enter_session (the_term M) (initial_session M (vars s)) of
         (Inl e, s) \<Rightarrow> (Inl e, core s) | (Inr u, s) \<Rightarrow> (Inr (Watches s), core s))) = (Inr x, g')"
    using assms p f by (simp add: start_session_def)
  show ?thesis
  proof (cases "pid = 0")
    case True
    with rest obtain path args where x: "execShell (exec_ok M) (SUCMD M) shell cmds (vars s) = (Inr (path, args), g')"
      "x = Runs path args" by (auto split: sum.splits prod.splits)
    from execShell_returns [OF x(1)] x(2) v show ?thesis by (intro that [OF p]) simp_all
  next
    case False
    with rest obtain w where w: "enter_session (the_term M) (initial_session M g1) = (Inr (), w)" "x = Watches w" "g' = core w"
      using v(2) by (auto split: sum.splits prod.splits if_splits)
    from enter_session_returns [OF w(1)] w(2,3) show ?thesis
      by (intro that [OF p]) (simp_all add: initial_session_def)
  qed
qed

text \<open>Reading the options touches no file and leaves syslog alone.\<close>

definition no_effects :: "rootsh \<Rightarrow> rootsh \<Rightarrow> bool" where
  "no_effects g g' \<longleftrightarrow> files g' = files g \<and> syslogs g' = syslogs g"

lemma option_switch_effects:
  "option_switch b h c cmds m = (r, m') \<Longrightarrow> no_effects (prog m) (prog m')"
  by (auto simp: option_switch_def usage_def version_def print_lines_def set_by_strdup_def collect_def
      no_effects_def split: if_splits sum.splits)

lemma option_loop_effects:
  "getopt_wf (scanner m) \<Longrightarrow> option_loop b h cmds m = Some (r, m') \<Longrightarrow> no_effects (prog m) (prog m')"
proof (induction "scan_left (scanner m)" arbitrary: cmds m rule: less_induct)
  case less
  let ?P = "getenv (environ (prog m)) ''POSIXLY_CORRECT''"
  obtain c s where c: "getopt_long ?P optstring long_options (scanner m) = (Inr c, s)"
    using getopt_internal_ok [OF less.prems(1) optstring_facts(1), of ?P True False "Some long_options"]
    by (auto simp: getopt_long_def)
  note loop = less.prems(2) [unfolded option_loop.simps [of b h cmds m] c]
  show ?case
  proof (cases "c = - 1")
    case True
    with loop show ?thesis by (auto simp: collect_def no_effects_def split: sum.splits prod.splits)
  next
    case False
    obtain r1 m1 where r: "option_switch b h c cmds (m\<lparr>scanner := s\<rparr>) = (r1, m1)"
      by (cases "option_switch b h c cmds (m\<lparr>scanner := s\<rparr>)") auto
    from option_switch_effects [OF r] have e: "no_effects (prog m) (prog m1)" by simp
    show ?thesis
    proof (cases r1)
      case (Inl e)
      with loop r False e show ?thesis by auto
    next
      case (Inr cmds')
      with loop r False have "option_loop b h cmds' m1 = Some (r, m')" by simp
      with option_switch_progress [OF c less.prems(1) False r [unfolded Inr]] less.hyps [of m1 cmds'] e
      show ?thesis by (simp add: no_effects_def)
    qed
  qed
qed

lemma load_settings_effects:
  "load_settings bld h config g = (r, g') \<Longrightarrow> no_effects g g' \<and> environ g' = environ g
    \<and> runAsUser g' = runAsUser g \<and> usershells g' = usershells g"
  by (auto simp: load_settings_def no_effects_def print_error_def Let_def
      split: sum.splits prod.splits if_splits)

lemma read_options_cases:
  assumes "read_options bld b h config m = Some (Inr cmds, m')"
  obtains g where "load_settings bld h config (prog m) = (Inr (), g)"
    "option_loop b h None (m\<lparr>prog := name_program (argv (scanner m)) g\<rparr>) = Some (Inr cmds, m')"
  using assms that by (auto simp: read_options_def split: sum.splits prod.splits)

lemma read_options_effects:
  assumes "read_options bld b h config m = Some (Inr cmds, m1)" "getopt_wf (scanner m)"
  shows "no_effects (prog m) (prog m1)"
proof -
  from assms(1) obtain g where g: "load_settings bld h config (prog m) = (Inr (), g)"
    "option_loop b h None (m\<lparr>prog := name_program (argv (scanner m)) g\<rparr>) = Some (Inr cmds, m1)"
    by (rule read_options_cases)
  from option_loop_effects [OF _ g(2)] load_settings_effects [OF g(1)] assms(2)
  show ?thesis by (simp add: no_effects_def name_program_def)
qed

lemma rootsh_main_cases:
  assumes "rootsh_main bld b M config m = Some (Inr x, m')"
  obtains cmds m1 where "read_options bld b (base (the_term M)) config m = Some (Inr cmds, m1)"
    "start_session M cmds (prog m1) = (Inr x, prog m')"
proof -
  from assms obtain r m1 where r: "read_options bld b (base (the_term M)) config m = Some (r, m1)"
    "(case r of Inl e \<Rightarrow> (Inl e, m1)
      | Inr cmds \<Rightarrow> (case start_session M cmds (prog m1) of (r, g) \<Rightarrow> (r, m1\<lparr>prog := g\<rparr>))) = (Inr x, m')"
    by (auto simp: rootsh_main_def)
  then obtain cmds where "r = Inr cmds" by (cases r) auto
  with r that show ?thesis by (cases "start_session M cmds (prog m1)") auto
qed

text \<open>Logging that has been switched off stays off.\<close>

lemma apply_event_off:
  "\<not> logtofile (opts g) \<Longrightarrow> \<not> logtofile (opts (foldl apply_event g es))"
  "\<not> logtosyslog (opts g) \<Longrightarrow> \<not> logtosyslog (opts (foldl apply_event g es))"
  by (induction es arbitrary: g) (auto simp: apply_event_def Let_def)

lemma apply_event_x_y:
  "fst e = char_int (CHR ''x'') \<Longrightarrow> \<not> logtofile (opts (apply_event g e))"
  "fst e = char_int (CHR ''y'') \<Longrightarrow> \<not> logtosyslog (opts (apply_event g e))"
  by (simp_all add: apply_event_def)

lemma apply_event_switches_off:
  "char_int (CHR ''x'') \<in> fst ` set es \<Longrightarrow> \<not> logtofile (opts (foldl apply_event g es))"
  "char_int (CHR ''y'') \<in> fst ` set es \<Longrightarrow> \<not> logtosyslog (opts (foldl apply_event g es))"
proof (induction es arbitrary: g)
  case (Cons e es)
  {
    case 1
    then have "fst e = char_int (CHR ''x'') \<or> char_int (CHR ''x'') \<in> fst ` set es" by auto
    then show ?case using Cons.IH(1) [of "apply_event g e"]
        apply_event_off(1) [OF apply_event_x_y(1) [of e g], of es] by auto
  next
    case 2
    then have "fst e = char_int (CHR ''y'') \<or> char_int (CHR ''y'') \<in> fst ` set es" by auto
    then show ?case using Cons.IH(2) [of "apply_event g e"]
        apply_event_off(2) [OF apply_event_x_y(2) [of e g], of es] by auto
  }
qed simp_all

text \<open>What the options of a command line do does not depend on what was loaded before.\<close>

lemma apply_events_runAsUser:
  "runAsUser g = runAsUser g' \<Longrightarrow> runAsUser (foldl apply_event g es) = runAsUser (foldl apply_event g' es)"
proof (induction es arbitrary: g g')
  case (Cons e es)
  then have "runAsUser (apply_event g e) = runAsUser (apply_event g' e)"
    by (simp add: apply_event_def Let_def)
  from Cons.IH [OF this] show ?case by simp
qed simp

lemma apply_events_frame:
  "environ (foldl apply_event g es) = environ g" "usershells (foldl apply_event g es) = usershells g"
  by (induction es arbitrary: g) (simp_all add: apply_event_def Let_def)

text \<open>After the settings the options are carried out, up to the first \<^verbatim>\<open>-c\<close>; when
  all of them set variables, the operands are the commands.\<close>

lemma read_options_prog:
  assumes "scanner m = getopt_start (p # args)" "list_all (\<lambda>a. NUL \<notin> set a) (p # args)"
    "malloc_ok h = (\<lambda>_. True)"
    "scan (getenv (environ (prog m)) ''POSIXLY_CORRECT'' \<noteq> None) optstring long_options args
      = (es, options, operands)"
    "read_options bld b h config m = Some (Inr cmds, m1)"
  shows "(list_all sets_variable es \<longrightarrow> cmds = (if operands = [] then None else Some (words operands)))
    \<and> runAsUser (prog m1) = runAsUser (foldl apply_event (prog m) (before_c es))
    \<and> environ (prog m1) = environ (prog m) \<and> usershells (prog m1) = usershells (prog m)
    \<and> (\<exists>g. prog m1 = foldl apply_event g (before_c es))"
proof -
  from assms(5) obtain g where g: "load_settings bld h config (prog m) = (Inr (), g)"
    "option_loop b h None (m\<lparr>prog := name_program (argv (scanner m)) g\<rparr>) = Some (Inr cmds, m1)"
    by (rule read_options_cases)
  let ?m = "m\<lparr>prog := name_program (argv (scanner m)) g\<rparr>"
  have e: "environ (prog ?m) = environ (prog m)" "runAsUser (prog ?m) = runAsUser (prog m)"
    "usershells (prog ?m) = usershells (prog m)"
    using load_settings_effects [OF g(1)] by (simp_all add: name_program_def)
  with option_loop_prog [of ?m p args h es options operands b cmds m1] assms(1-4) g(2)
  have m1: "prog m1 = foldl apply_event (prog ?m) (before_c es)" by simp
  moreover have "cmds = (if operands = [] then None else Some (words operands))" if "list_all sets_variable es"
    using option_loop_carried_out [of ?m p args h es options operands b] assms(1-4) g(2) e(1) that by auto
  ultimately show ?thesis
    using e apply_events_runAsUser [OF e(2)] apply_events_frame by auto
qed

text \<open>No step of the start can go on for ever.\<close>

definition ends :: "('s \<Rightarrow> (stop + 'a) \<times> 's) \<Rightarrow> bool" where
  "ends m \<longleftrightarrow> (\<forall>s. fst (m s) \<noteq> Inl Diverged)"

lemma ends_bind: "ends m \<Longrightarrow> (\<And>a. ends (k a)) \<Longrightarrow> ends (bindM m k)"
  by (auto simp: ends_def bindM_def split: prod.splits sum.splits) (metis fst_conv)+

lemma endsD: "ends m \<Longrightarrow> m s \<noteq> (Inl Diverged, t)"
  by (metis ends_def fst_conv)

lemma w2s_loop_ends: "w2s_loop M u p buf len t l s \<noteq> Inl Diverged"
proof (induction M u p buf len t l s rule: w2s_loop.induct)
  case (1 M u p buf len t l s)
  have e: "emit_line M u p line s \<noteq> Inl Diverged" for line s
    by (simp add: emit_line_def Let_def split: prod.splits)
  show ?case
  proof (cases "l = None \<or> \<not> t < len")
    case True
    then show ?thesis by (auto simp: w2s_loop.simps [of M u p buf len t l s] split: option.splits)
  next
    case False
    then obtain k where k: "l = Some k" "t < len" by auto
    show ?thesis
    proof (cases "emit_line M u p (take (k - t) (drop t buf)) (s\<lparr>rflag := True\<rparr>)")
      case (Inl x)
      with e have "x \<noteq> Diverged" by metis
      with k Inl show ?thesis by (simp add: w2s_loop.simps [of M u p buf len t "Some k" s])
    next
      case (Inr s')
      with k "1.IH" [OF k Inr] show ?thesis
        by (subst w2s_loop.simps) (auto simp: Let_def)
    qed
  qed
qed

lemma write2syslog_ends: "write2syslog M d u p s \<noteq> Inl Diverged"
  using w2s_loop_ends by (auto simp: write2syslog_def Let_def result_iff split: option.splits if_splits)

lemma log_message_ends: "ends (log_message h m)"
  using write2syslog_ends
  by (auto simp: ends_def log_message_def dologging_def Let_def split: sum.splits prod.splits)

lemma prepare_session_ends: "ends (prepare_session b h cmds)"
proof -
  have o: "ends (open_log h user)" for user
    by (auto simp: ends_def open_log_def write_message_def Let_def bindM_def split: sum.splits prod.splits option.splits)
  have logs: "ends (beginlogging h cmds)"
  proof -
    have "ends (\<lambda>g. if logtofile (opts g) then open_log h user g else (Inr True, g))" for user
      using o by (simp add: ends_def)
    moreover have "ends (bindM (log_message h m) (\<lambda>_ g. (Inr True, g)))" for m
      by (intro ends_bind log_message_ends) (simp add: ends_def)
    ultimately have "ends (bindM (\<lambda>g. if logtofile (opts g) then open_log h user g else (Inr True, g)) (\<lambda>ok g.
              if \<not> ok then (Inr False, g)
              else
                let g = (if logtosyslog (opts g) then open_syslog h user g else g) in
                case cmds of
                  None \<Rightarrow> (Inr True, g)
                | Some cmds \<Rightarrow>
                    bindM (log_message h (''shell commands: '' @ cmds @ [LF])) (\<lambda>_ g. (Inr True, g)) g))" for user
      by (intro ends_bind) (auto simp: ends_def Let_def split: option.splits)
    then show ?thesis
      by (auto simp: ends_def beginlogging_def split: option.splits)
  qed
  have name: "ends (setupusername h)"
    by (auto simp: ends_def setupusername_def split: option.splits)
  have shell: "ends (setupshell b h)"
    by (auto simp: ends_def setupshell_def Let_def split: option.splits prod.splits)
  have save: "ends (saveenv h n)" and restore: "ends restoreenv" for n
    by (auto simp: ends_def saveenv_def restoreenv_def bindM_def Let_def split: option.splits prod.splits sum.splits if_splits)
  have "ends (\<lambda>g. bindM restoreenv (\<lambda>_ g. (Inr True, g)) (clearenv g))"
    using ends_bind [OF restore, of "\<lambda>_ g. (Inr True, g)"] by (simp add: ends_def)
  then have "ends (bindM (saveenv h ''TERM'') (\<lambda>_ g. bindM restoreenv (\<lambda>_ g. (Inr True, g)) (clearenv g)))"
    by (intro ends_bind save)
  then have mode: "ends (setupusermode h)"
    by (auto simp: ends_def setupusermode_def split: option.splits)
  have "ends (bindM (beginlogging h cmds) (\<lambda>ok g. if \<not> ok then (Inl (Exited EXIT_FAILURE), g) else (Inr sh, g)))" for sh :: string
    by (intro ends_bind logs) (simp add: ends_def)
  then have "ends (bindM (setupshell b h) (\<lambda>shell g. case shell of
          None \<Rightarrow> (Inl (Exited EXIT_FAILURE), g)
        | Some shell \<Rightarrow> bindM (beginlogging h cmds)
            (\<lambda>ok g. if \<not> ok then (Inl (Exited EXIT_FAILURE), g) else (Inr shell, g)) g))"
    by (intro ends_bind shell) (auto simp: ends_def split: option.splits)
  then have "ends (bindM (setupusermode h) (\<lambda>ok g. if \<not> ok then (Inl (Exited EXIT_FAILURE), g)
       else bindM (setupshell b h) (\<lambda>shell g. case shell of
           None \<Rightarrow> (Inl (Exited EXIT_FAILURE), g)
         | Some shell \<Rightarrow> bindM (beginlogging h cmds)
             (\<lambda>ok g. if \<not> ok then (Inl (Exited EXIT_FAILURE), g) else (Inr shell, g)) g) g))"
    by (intro ends_bind mode) (simp add: ends_def)
  then have "ends (bindM (setupusername h) (\<lambda>user g. case user of
       None \<Rightarrow> (Inl (Exited EXIT_FAILURE), g)
     | Some user \<Rightarrow> let g = g\<lparr>userName := user\<rparr> in
       bindM (setupusermode h) (\<lambda>ok g. if \<not> ok then (Inl (Exited EXIT_FAILURE), g)
       else bindM (setupshell b h) (\<lambda>shell g. case shell of
           None \<Rightarrow> (Inl (Exited EXIT_FAILURE), g)
         | Some shell \<Rightarrow> bindM (beginlogging h cmds)
             (\<lambda>ok g. if \<not> ok then (Inl (Exited EXIT_FAILURE), g) else (Inr shell, g)) g) g) g))"
    by (intro ends_bind name) (auto simp: ends_def Let_def split: option.splits)
  then show ?thesis by (simp add: ends_def prepare_session_def Let_def)
qed

lemma start_session_ends: "ends (start_session M cmds)"
proof -
  have enter: "ends (enter_session t)" for t
  proof -
    have "ends (log_and_exit h m)" for h m
      unfolding log_and_exit_def
      using endsD [OF log_message_ends] by (intro ends_bind) (auto simp: ends_def in_core_def split: prod.splits)
    then show ?thesis
      by (auto simp: ends_def enter_session_def bindM_def Let_def split: option.splits prod.splits sum.splits) (metis fst_conv)+
  qed
  have fork: "ends (forkpty a b p n tm ws)" for a b p n tm ws
    by (auto simp: ends_def forkpty_def Let_def split: option.splits fork_result.splits prod.splits)
  have exec: "ends (execShell ok su sh c)" for ok su sh c
    by (auto simp: ends_def execShell_def split: sum.splits prod.splits)
  note d = endsD [OF enter] endsD [OF fork] endsD [OF exec]
  show ?thesis
    unfolding start_session_def
  proof (intro ends_bind prepare_session_ends)
    fix shell
    show "ends (\<lambda>g. case forkpty (AIX_COMPAT M) (HAVE_TTCOMPAT M) (the_pty M) False
        (Some (term_now M)) (Some (size_now M))
        \<lparr>open_fds = fds_now M, slave_modes = None, slave_winsize = None, std_fds = [], session_leader = False, vars = g\<rparr> of
           (Inl e, s) \<Rightarrow> (Inl e, vars s)
         | (Inr (childPid, master, name), s) \<Rightarrow>
             if childPid < 0 then (Inl (Exited EXIT_FAILURE), print_error ''forkpty'' (vars s))
             else if childPid = 0 then
               (case execShell (exec_ok M) (SUCMD M) shell cmds (vars s) of
                  (Inl e, g) \<Rightarrow> (Inl e, g)
                | (Inr (path, args), g) \<Rightarrow> (Inr (Runs path args), g))
             else
               (case enter_session (the_term M) (initial_session M (vars s)) of
                  (Inl e, s) \<Rightarrow> (Inl e, core s)
                | (Inr u, s) \<Rightarrow> (Inr (Watches s), core s)))"
      unfolding ends_def by (auto simp: d split: prod.split sum.split)
  qed
qed

lemma rootsh_main_total:
  assumes "getopt_wf (scanner m)"
  shows "\<exists>r m'. rootsh_main bld b M config m = Some (r, m') \<and> r \<noteq> Inl Diverged"
proof -
  let ?h = "base (the_term M)"
  obtain r g where l: "load_settings bld ?h config (prog m) = (r, g)"
    by (cases "load_settings bld ?h config (prog m)") auto
  then have "r \<noteq> Inl Diverged"
    by (auto simp: load_settings_def compiled_settings_def Let_def split: sum.splits prod.splits if_splits)
  moreover have "getopt_wf (scanner (m\<lparr>prog := name_program (argv (scanner m)) g\<rparr>))" using assms by simp
  ultimately obtain r m1 where "read_options bld b ?h config m = Some (r, m1)" "r \<noteq> Inl Diverged"
    using option_loop_total [of "m\<lparr>prog := name_program (argv (scanner m)) g\<rparr>" b ?h None] l
    by (cases r) (auto simp: read_options_def)
  with endsD [OF start_session_ends, of M] show ?thesis
    by (cases r) (auto simp: rootsh_main_def split: prod.splits)
qed

lemma getopt_start_wf [simp]: "v \<noteq> [] \<Longrightarrow> getopt_wf (getopt_start v)"
  by (cases v) (simp_all add: getopt_wf_def getopt_start_def)

text \<open>The state the parent watches from, and what its log holds.\<close>

lemma program_watches:
  assumes "rootsh_main bld b M config m = Some (Inr (Watches s0), m')"
  shows "from_pty s0 = [] \<and> to_screen s0 = [] \<and> \<not> ending s0 \<and> termParams s0 = term_now M
    \<and> prog m' = core s0"
proof -
  from assms obtain cmds m1 where "read_options bld b (base (the_term M)) config m = Some (Inr cmds, m1)"
    and s: "start_session M cmds (prog m1) = (Inr (Watches s0), prog m')"
    by (rule rootsh_main_cases)
  from s obtain g1 where "prog m' = g1 \<and> core s0 = g1 \<and> from_pty s0 = [] \<and> to_screen s0 = [] \<and> \<not> ending s0
      \<and> termParams s0 = term_now M"
    by (rule start_session_cases) blast
  then show ?thesis by simp
qed

lemma program_starts:
  assumes "rootsh_main bld b M config m = Some (Inr (Watches s0), m')" "getopt_wf (scanner m)"
    "fs_inv (files (prog m))" "w2s_inv (syslogs (prog m))" "disk_ok (files (prog m))"
    "logtofile (opts (prog m'))" "malloc_ok (base (the_term M)) = (\<lambda>_. True)"
    "read_options bld b (base (the_term M)) config m = Some (Inr cmds, m1)"
    "begin_user (base (the_term M)) (core s0) = Some user"
    "length (opened_text (base (the_term M)) user (core s0)) \<le> BUFSIZ - 2"
    "length (command_text cmds) \<le> BUFSIZ - 2"
  shows "logging (old_contents (files (prog m)) (logFileName (core s0))
      @ opened_text (base (the_term M)) user (core s0) @ command_text cmds) (core s0)
    \<and> disk_ok (files (core s0))"
proof -
  let ?h = "base (the_term M)"
  from assms(1) obtain c n where "read_options bld b ?h config m = Some (Inr c, n)"
    "start_session M c (prog n) = (Inr (Watches s0), prog m')"
    by (rule rootsh_main_cases)
  with assms(8) have m1: "start_session M cmds (prog m1) = (Inr (Watches s0), prog m')" by simp
  note same = read_options_effects [OF assms(8,2)]
  from m1 obtain shell where p: "prepare_session (HAS_ETC_SHELLS M) ?h cmds (prog m1) = (Inr shell, core s0)"
    "prog m' = core s0"
    by (rule start_session_cases) blast
  from prepare_session_begins [OF p(1)] obtain g1 g0 where
    b: "beginlogging ?h cmds g0 = (Inr True, core s0)" "undisturbed (prog m1) g1" "undisturbed g1 g0"
    by blast
  have f: "files g0 = files (prog m)" "syslogs g0 = syslogs (prog m)"
    using b(2,3) same by (simp_all add: undisturbed_def no_effects_def)
  have "same_setup g0 (core s0)" using beginlogging_begins [OF b(1)] f assms(3) by simp
  then have "logtofile (opts g0)" using assms(6) p(2) by (simp add: same_setup_def)
  from beginlogging_logs [OF b(1) _ _ _ this assms(7,9-11)] f assms(3-5) show ?thesis by simp
qed

section \<open>A concrete run\<close>

definition sample_program :: main_host where
  "sample_program = \<lparr>the_term = sample_term, the_pty = sample_pty\<lparr>fork_result := In_Parent 4712\<rparr>,
     exec_ok = (\<lambda>_ _. True), SUCMD = ''/bin/su'', HAS_ETC_SHELLS = True, AIX_COMPAT = False,
     HAVE_TTCOMPAT = False, term_now = sample_tty, size_now = (24, 80), fds_now = [0, 1, 2]\<rparr>"

lemma sample_program_simps [simp]:
  "the_term sample_program = sample_term" "base sample_term = sample_host"
  by (simp_all add: sample_program_def sample_term_def)

lemma basename_rootsh: "basename (Some ''rootsh'') = ''rootsh''"
  by (simp add: basename_def scan_path_eq)

definition sample_log :: string where
  "sample_log = ''/var/log/rootsh/root.20040709083005.04711''"

definition prepared_rootsh :: rootsh where
  "prepared_rootsh = sample_rootsh\<lparr>environ := [''TERM=xterm'', ''ROOTSH_SESSIONID=rootsh[04711]''],
     usershells := snd (shell_is_valid (Some (''/bin/bash'' @ [LF])) ''/bin/bash'' init_shells)\<rparr>"

lemma setupshell_accepts:
  assumes "getenv (environ g) ''SHELL'' = None" "getpwnam h (userName g) = Some p" "pw_shell p = Some shell"
    "shell_is_valid (SHELLS_FILE h) shell (usershells g) = (True, us)" "\<not> is_self shell (g\<lparr>usershells := us\<rparr>)"
  shows "setupshell True h g = (Inr (Some shell), g\<lparr>usershells := us\<rparr>)"
  using assms by (simp add: setupshell_def)

lemma sample_prepares:
  "prepare_session True sample_host cmds sample_rootsh =
    bindM (beginlogging sample_host cmds) (\<lambda>ok g.
      if \<not> ok then (Inl (Exited EXIT_FAILURE), g) else (Inr ''/bin/bash'', g)) prepared_rootsh"
proof -
  let ?g = prepared_rootsh
  have name: "snprintf_text (MAXPATHLEN + 11) (name_without_dash (progName sample_rootsh) @ ''['' @
      pad0 5 (getpid sample_host) @ '']'') = ''rootsh[04711]''"
    by (simp add: sample_rootsh_def sample_host_def sample_numbers name_without_dash_def
        snprintf_text_def MAXPATHLEN_def)
  have env: "putenv (snprintf_text (MAXPATHLEN + 11 + 17) (''ROOTSH_SESSIONID='' @ ''rootsh[04711]''))
      (environ sample_rootsh) = [''TERM=xterm'', ''ROOTSH_SESSIONID=rootsh[04711]'']"
    by (simp add: sample_rootsh_def env_name_def snprintf_text_def MAXPATHLEN_def)
  define g0 where "g0 = ?g\<lparr>usershells := init_shells\<rparr>"
  have g: "sample_rootsh\<lparr>sessionId := ''rootsh[04711]'', environ := [''TERM=xterm'', ''ROOTSH_SESSIONID=rootsh[04711]''],
      standalone := True, userName := ''root''\<rparr> = g0"
    by (simp add: prepared_rootsh_def sample_rootsh_def g0_def)
  obtain us where valid: "shell_is_valid (SHELLS_FILE sample_host) ''/bin/bash'' init_shells = (True, us)"
    using shell_valid_listed [of "SHELLS_FILE sample_host" init_shells "''/bin/bash''"]
    by (cases "shell_is_valid (SHELLS_FILE sample_host) ''/bin/bash'' init_shells")
      (auto simp: listed_shells_def ISSPACE_def sample_host_def)
  have us: "g0\<lparr>usershells := us\<rparr> = ?g"
    using valid by (simp add: g0_def prepared_rootsh_def sample_host_def)
  have "\<not> is_self ''/bin/bash'' ?g"
    using self_tests(1) by (simp add: is_self_def prepared_rootsh_def sample_rootsh_def)
  with setupshell_accepts [of g0 sample_host root_entry "''/bin/bash''" us] valid
  have shell: "setupshell True sample_host g0 = (Inr (Some ''/bin/bash''), ?g)"
    by (simp add: us) (simp add: g0_def prepared_rootsh_def sample_rootsh_def sample_host_def root_entry_def)
  have mode: "setupusermode sample_host g0 = (Inr True, g0)"
    by (simp add: setupusermode_def prepared_rootsh_def sample_rootsh_def g0_def)
  have user: "setupusername sample_host g = (Inr (Some ''root''), g)" for g
    by (simp add: setupusername_def sample_host_def root_entry_def)
  show ?thesis
    unfolding prepare_session_def name env Let_def
    using g shell mode by (simp add: user bindM_def)
qed

lemma sample_begins:
  assumes "length (command_text cmds) \<le> BUFSIZ - 2"
  shows "\<exists>g. beginlogging sample_host cmds prepared_rootsh = (Inr True, g) \<and> opts g = linux_settings
    \<and> logFileName g = sample_log \<and> progName g = ''rootsh'' \<and> userName g = ''root'' \<and> runAsUser g = None
    \<and> useLoginShell g = False \<and> isaLoginShell g = False
    \<and> names (files g) (sample_log @ ''.tampered'') = None \<and> open_error (files g) = (\<lambda>_. None)"
proof -
  have init: "fs_inv (files prepared_rootsh)" "w2s_inv (syslogs prepared_rootsh)" "disk_ok (files prepared_rootsh)"
      "logtofile (opts prepared_rootsh)"
      "can_open (files prepared_rootsh) (choose_log_name sample_host prepared_rootsh)"
      "begin_user sample_host prepared_rootsh = Some (Some ''root'')"
      "length (opened_text sample_host (Some ''root'') prepared_rootsh) \<le> BUFSIZ - 2"
      "length (command_text cmds) \<le> BUFSIZ - 2" "malloc_ok sample_host = (\<lambda>_. True)"
    using fs_inv_sample(1) init_w2s_inv assms
    by (simp_all add: prepared_rootsh_def disk_ok_def can_open_def begin_user_def opened_text_def login_text_def
        str_arg_def tty_name_def sample_defs BUFSIZ_def)
  have name: "choose_log_name sample_host prepared_rootsh = sample_log"
    by (simp add: choose_log_name_def default_log_name_def prepared_rootsh_def sample_log_def sample_defs
        MAXPATHLEN_def sample_numbers snprintf_text_def Let_def)
  have sample: "opts prepared_rootsh = linux_settings" "progName prepared_rootsh = ''rootsh''"
    "userName prepared_rootsh = ''root''" "files prepared_rootsh = sample_fs"
    "runAsUser prepared_rootsh = None" "useLoginShell prepared_rootsh = False" "isaLoginShell prepared_rootsh = False"
    by (simp_all add: prepared_rootsh_def sample_rootsh_def)
  from beginlogging_ok [OF init(1-8) init(9)] obtain g1 where
    g1: "beginlogging sample_host cmds prepared_rootsh = (Inr True, g1)" "opts g1 = linux_settings"
      "logFileName g1 = sample_log" "progName g1 = ''rootsh''" "userName g1 = ''root''"
      "open_error (files g1) = open_error sample_fs"
      "\<forall>q. q \<noteq> sample_log \<longrightarrow> names (files g1) q = names sample_fs q"
    unfolding name sample by blast
  from g1(6,7) have "names (files g1) (sample_log @ ''.tampered'') = None" "open_error (files g1) = (\<lambda>_. None)"
    by (simp_all add: sample_fs_def)
  moreover have "runAsUser g1 = None" "useLoginShell g1 = False" "isaLoginShell g1 = False"
    using beginlogging_begins [OF g1(1) init(1)] sample(5-7) by (simp_all add: same_setup_def)
  ultimately show ?thesis using g1(1-5) by blast
qed

text \<open>With this the parent watches, and the child runs the shell.\<close>

lemma sample_starts:
  "\<exists>s. start_session sample_program None sample_rootsh = (Inr (Watches s), core s) \<and> opts (core s) = linux_settings
    \<and> logFileName (core s) = sample_log \<and> progName (core s) = ''rootsh'' \<and> userName (core s) = ''root''
    \<and> runAsUser (core s) = None \<and> isaLoginShell (core s) = False
    \<and> names (files (core s)) (sample_log @ ''.tampered'') = None \<and> open_error (files (core s)) = (\<lambda>_. None)"
proof -
  obtain g where g: "beginlogging sample_host None prepared_rootsh = (Inr True, g)" "opts g = linux_settings"
    "logFileName g = sample_log" "progName g = ''rootsh''" "userName g = ''root''"
    "runAsUser g = None" "isaLoginShell g = False"
    "names (files g) (sample_log @ ''.tampered'') = None" "open_error (files g) = (\<lambda>_. None)"
    using sample_begins [of None] by (auto simp: command_text_def)
  have "\<exists>s. enter_session sample_term (initial_session sample_program g) = (Inr (), s) \<and> core s = g"
    by (simp add: enter_session_def setupSignalHandlers_def initial_session_def sample_term_def bindM_def Let_def)
  then obtain s where s: "enter_session sample_term (initial_session sample_program g) = (Inr (), s)" "core s = g"
    by blast
  from g s show ?thesis
    by (simp add: start_session_def sample_prepares bindM_def forkpty_def sample_program_def pty_open_def sample_pty_def Let_def)
qed

definition sample_child :: main_host where
  "sample_child = sample_program\<lparr>the_pty := sample_pty\<rparr>"

lemma sample_child_starts:
  "\<exists>g. start_session sample_child (Some ''ls '') sample_rootsh
    = (Inr (Runs ''/bin/bash'' [''bash'', ''-i'', ''-c'', ''ls '']), g)"
proof -
  obtain g where g: "beginlogging sample_host (Some ''ls '') prepared_rootsh = (Inr True, g)"
    "runAsUser g = None" "useLoginShell g = False"
    using sample_begins [of "Some ''ls ''"] by (auto simp: command_text_def BUFSIZ_def)
  have exec: "exec_args ''/bin/su'' ''/bin/bash'' (Some ''ls '') h = Inr (''/bin/bash'', [''bash'', ''-i'', ''-c'', ''ls ''])"
    if "runAsUser h = None" "useLoginShell h = False" for h
    using that by (simp add: exec_args_def after_last_slash_def)
  from g exec show ?thesis
    by (simp add: start_session_def sample_prepares bindM_def sample_child_def sample_program_def execShell_def
      forkpty_def pty_child_def push_modules_def sample_pty_def pty_open_def pty_close_def Let_def)
qed

lemma sample_reads:
  assumes "scan False optstring long_options args = ([], options, operands)" "list_all (\<lambda>a. NUL \<notin> set a) args"
  shows "\<exists>m. read_options linux_build sample_names sample_host None (sample_main args)
      = Some (Inr (if operands = [] then None else Some (words operands)), m) \<and> prog m = sample_rootsh"
proof -
  have g: "sample_rootsh\<lparr>opts := linux_settings, stderr_text := [], progName := ''rootsh''\<rparr> = sample_rootsh"
    by (simp add: sample_rootsh_def)
  have load: "load_settings linux_build sample_host None sample_rootsh
      = (Inr (), sample_rootsh\<lparr>opts := linux_settings, stderr_text := []\<rparr>)"
    by (simp add: load_settings_def readConfigFile_def sample_rootsh_def)
  have name: "name_program (argv (scanner (sample_main args))) (sample_rootsh\<lparr>opts := linux_settings, stderr_text := []\<rparr>)
      = sample_rootsh"
    using g by (simp add: name_program_def sample_main_def getopt_start_def basename_rootsh MAXPATHLEN_def)
  from option_loop_carried_out [of "sample_main args" "''rootsh''" args sample_host "[]" options operands sample_names]
    assms load name show ?thesis
    by (auto simp: read_options_def sample_main_def)
qed

lemma sample_runs:
  "\<exists>s m. rootsh_main linux_build sample_names sample_program None (sample_main []) = Some (Inr (Watches s), m)
    \<and> opts (prog m) = linux_settings \<and> logFileName (core s) = sample_log \<and> progName (core s) = ''rootsh''
    \<and> userName (core s) = ''root'' \<and> runAsUser (core s) = None \<and> isaLoginShell (core s) = False \<and> names (files (core s)) (sample_log @ ''.tampered'') = None
    \<and> open_error (files (core s)) = (\<lambda>_. None)"
  using sample_starts sample_reads [of "[]" "[]" "[]"] by (auto simp: rootsh_main_def scan.simps)

lemma sample_opening:
  assumes "progName g = ''rootsh''" "userName g = ''root''" "runAsUser g = None" "isaLoginShell g = False"
  shows "begin_user sample_host g = Some (Some ''root'')"
    "length (opened_text sample_host (Some ''root'') g) \<le> BUFSIZ - 2"
  using assms by (simp_all add: begin_user_def opened_text_def login_text_def str_arg_def tty_name_def
      sample_host_def root_entry_def BUFSIZ_def)

lemma sample_child_runs:
  "\<exists>m. rootsh_main linux_build sample_names sample_child None (sample_main [''ls''])
    = Some (Inr (Runs ''/bin/bash'' [''bash'', ''-i'', ''-c'', ''ls '']), m)"
  using sample_child_starts sample_reads [of "[''ls'']" "[]" "[''ls'']"]
  by (auto simp: rootsh_main_def scan.simps nonoption_p_def c_at_def words_def sample_child_def)

section \<open>Properties\<close>

text \<open>C15: The whole start of the program, settings, options and session, terminates for every command
  line, configuration and host: \<open>main\<close> comes to a program that is run, to a session that is
  entered, or to a stop, and no loop on the way, of the options, of the commands or of the syslog
  writer, goes on for ever. (A stop is an exit or a fault, as with
  \<^verbatim>\<open>-u\<close> and without \<open>TERM\<close>; when there is no fault is shown in
  \<^verbatim>\<open>Program_Safety\<close>.)\<close>

theorem main_ends:
  assumes "scanner m = getopt_start v" "v \<noteq> []"
  shows "\<exists>r m'. rootsh_main bld b M config m = Some (r, m') \<and> r \<noteq> Inl Diverged"
  using rootsh_main_total [of m bld b M config] assms by auto

theorem main_ends_witness:
  "\<exists>r m'. rootsh_main linux_build sample_names sample_program (Some ''x'') (sample_main [''-c'']) = Some (r, m')
    \<and> r \<noteq> Inl Diverged"
  by (rule main_ends [of _ "[''rootsh'', ''-c'']"]) (simp_all add: sample_main_def)

text \<open>C6: No shell runs and no session is entered without a log. When \<open>main\<close> gets that far, at least
  one of the two logs is switched on, and after the preparation that this run went through, each log
  that is on has been opened: the log file's descriptor is open for appending on the file that its name
  refers to and that was remembered for the examination, and syslog has been given an identity. The
  session begins in that state.\<close>

theorem no_shell_without_log:
  assumes "rootsh_main bld b M config m = Some (Inr x, m')" "getopt_wf (scanner m)" "fs_inv (files (prog m))"
  shows "(logtofile (opts (prog m')) \<or> logtosyslog (opts (prog m')))
    \<and> (\<exists>cmds m1 shell g. read_options bld b (base (the_term M)) config m = Some (Inr cmds, m1)
      \<and> prepare_session (HAS_ETC_SHELLS M) (base (the_term M)) cmds (prog m1) = (Inr shell, g)
      \<and> opts g = opts (prog m')
      \<and> (logtofile (opts g) \<longrightarrow> log_attached g \<and> name_intact g)
      \<and> (logtosyslog (opts g) \<longrightarrow> openlog_ident g \<noteq> None)
      \<and> (\<forall>s. x = Watches s \<longrightarrow> core s = g))"
proof -
  let ?h = "base (the_term M)"
  from assms(1) obtain cmds m1 where r: "read_options bld b ?h config m = Some (Inr cmds, m1)"
    and s: "start_session M cmds (prog m1) = (Inr x, prog m')"
    by (rule rootsh_main_cases)
  from read_options_effects [OF r assms(2)] have same: "no_effects (prog m) (prog m1)" .
  from s obtain shell g where g: "prepare_session (HAS_ETC_SHELLS M) ?h cmds (prog m1) = (Inr shell, g)"
    "same_setup g (prog m')" "\<forall>s. x = Watches s \<longrightarrow> core s = g"
    by (rule start_session_cases) blast
  from prepare_session_begins [OF g(1)] obtain g1 g0 where
    b: "beginlogging ?h cmds g0 = (Inr True, g)" "undisturbed (prog m1) g1" "undisturbed g1 g0"
    by blast
  have "fs_inv (files g0)" using b(2,3) same assms(3) by (simp add: undisturbed_def no_effects_def)
  note f = beginlogging_begins [OF b(1) this]
  have o: "opts g = opts g0" "opts g = opts (prog m')" using f g(2) by (simp_all add: same_setup_def)
  show ?thesis
    by (intro conjI exI [of _ cmds] exI [of _ m1] exI [of _ shell] exI [of _ g]) (use f o r g in simp_all)
qed

theorem no_shell_without_log_witness:
  "\<exists>s m. rootsh_main linux_build sample_names sample_program None (sample_main []) = Some (Inr (Watches s), m)
    \<and> (logtofile (opts (prog m)) \<or> logtosyslog (opts (prog m))) \<and> log_attached (core s) \<and> name_intact (core s)
    \<and> openlog_ident (core s) \<noteq> None"
proof -
  obtain s m where r: "rootsh_main linux_build sample_names sample_program None (sample_main []) = Some (Inr (Watches s), m)"
    "opts (prog m) = linux_settings" using sample_runs by blast
  have "getopt_wf (scanner (sample_main []))" "fs_inv (files (prog (sample_main [])))"
    using fs_inv_sample(1) by (simp_all add: sample_main_def sample_rootsh_def)
  from no_shell_without_log [OF r(1) this] obtain g where
    "opts g = linux_settings" "logtofile (opts g) \<longrightarrow> log_attached g \<and> name_intact g"
    "logtosyslog (opts g) \<longrightarrow> openlog_ident g \<noteq> None" "core s = g" unfolding r(2) by blast
  with r show ?thesis by (simp add: linux_settings_def)
qed

text \<open>C9: What the child runs: the commands that were read reach the program that is executed as one
  command behind \<open>-c\<close>; they are the operands when all options set variables (what they are with
  \<^verbatim>\<open>-c\<close> is shown in \<^verbatim>\<open>Options\<close>). The
  program is \<open>su\<close> for the user named last before any \<open>-c\<close>; without one it is the shell the caller
  asks for, which is listed when the build uses a shells file, or the default shell in place of the
  program itself, made interactive unless it is a login shell.\<close>

theorem child_runs_the_command:
  assumes "scanner m = getopt_start (p # args)" "list_all (\<lambda>a. NUL \<notin> set a) (p # args)"
    "malloc_ok (base (the_term M)) = (\<lambda>_. True)" "fs_inv (files (prog m))"
    "scan (getenv (environ (prog m)) ''POSIXLY_CORRECT'' \<noteq> None) optstring long_options args
      = (es, options, operands)"
    "rootsh_main bld b M config m = Some (Inr (Runs path argv'), m')"
  shows "\<exists>cmds m1 name. read_options bld b (base (the_term M)) config m = Some (Inr cmds, m1)
    \<and> (list_all sets_variable es \<longrightarrow> cmds = (if operands = [] then None else Some (words operands)))
    \<and> runAsUser (prog m') = runAsUser (foldl apply_event (prog m) (before_c es))
    \<and> exec_ok M path argv'
    \<and> argv' = name #
      (case runAsUser (prog m') of
         Some u \<Rightarrow> (if useLoginShell (prog m') then [''-''] else []) @ [u]
       | None \<Rightarrow> if useLoginShell (prog m') then [] else [''-i''])
      @ (case cmds of None \<Rightarrow> [] | Some c \<Rightarrow> [''-c'', c])
    \<and> (if runAsUser (prog m') \<noteq> None then path = SUCMD M
       else \<exists>shell. wanted_shell (base (the_term M)) ((prog m')\<lparr>environ := environ (prog m)\<rparr>) = Some shell
         \<and> path = (if is_self shell (prog m') then defaultshell (opts (prog m')) else shell)
         \<and> (HAS_ETC_SHELLS M \<longrightarrow>
             fst (shell_is_valid (SHELLS_FILE (base (the_term M))) shell (usershells (prog m)))))"
proof -
  let ?h = "base (the_term M)"
  have wf: "getopt_wf (scanner m)" using assms(1) by simp
  from assms(6) obtain cmds m1 where m1: "read_options bld b ?h config m = Some (Inr cmds, m1)"
    "start_session M cmds (prog m1) = (Inr (Runs path argv'), prog m')"
    by (rule rootsh_main_cases)
  note c = read_options_prog [OF assms(1-3,5) m1(1)]
  from m1(2) obtain shell g where s: "prepare_session (HAS_ETC_SHELLS M) ?h cmds (prog m1) = (Inr shell, g)"
    "same_setup g (prog m')" "exec_ok M path argv' \<and> exec_args (SUCMD M) shell cmds (prog m') = Inr (path, argv')"
    by (rule start_session_cases) blast
  from prepare_session_begins [OF s(1)] obtain g1 g0 where
    b: "setupshell (HAS_ETC_SHELLS M) ?h g1 = (Inr (Some shell), g0)" "beginlogging ?h cmds g0 = (Inr True, g)"
      "undisturbed (prog m1) g1" "undisturbed g1 g0"
      "runAsUser (prog m1) = None \<longrightarrow> usershells g1 = usershells (prog m1)
        \<and> getenv (environ g1) ''SHELL'' = getenv (environ (prog m1)) ''SHELL''"
    by (elim exE conjE) (rule that)
  have "fs_inv (files g0)"
    using b(3,4) read_options_effects [OF m1(1) wf] assms(4) by (simp add: undisturbed_def no_effects_def)
  with beginlogging_begins [OF b(2)] s(2) have same: "same_setup g0 (prog m')" using same_setup_trans by blast
  have u: "runAsUser (prog m') = runAsUser (prog m1)" using same b(3,4) by (simp add: same_setup_def undisturbed_def)
  obtain name where x: "path = (if runAsUser (prog m') \<noteq> None then SUCMD M else shell)" "argv' = name #
      (case runAsUser (prog m') of
         Some u \<Rightarrow> (if useLoginShell (prog m') then [''-''] else []) @ [u]
       | None \<Rightarrow> if useLoginShell (prog m') then [] else [''-i''])
      @ (case cmds of None \<Rightarrow> [] | Some c \<Rightarrow> [''-c'', c])"
    using exec_args_shape [OF conjunct2 [OF s(3)]] by blast
  have "\<exists>want. wanted_shell ?h ((prog m')\<lparr>environ := environ (prog m)\<rparr>) = Some want
         \<and> path = (if is_self want (prog m') then defaultshell (opts (prog m')) else want)
         \<and> (HAS_ETC_SHELLS M \<longrightarrow> fst (shell_is_valid (SHELLS_FILE ?h) want (usershells (prog m))))"
    if "runAsUser (prog m') = None"
  proof -
    from b(1) obtain want v where w: "wanted_shell ?h g1 = Some want"
      "if HAS_ETC_SHELLS M then shell_is_valid (SHELLS_FILE ?h) want (usershells g1) = (True, v) else v = usershells g1"
      "if is_self want g1
      then shell = defaultshell (opts g1) \<and> shell \<noteq> [] \<and> g0 = g1\<lparr>usershells := v, environ := putenv (''SHELL='' @ shell) (environ g1),
        useLoginShell := True, isaLoginShell := True\<rparr>
      else shell = want \<and> g0 = g1\<lparr>usershells := v\<rparr>" by (rule setupshell_wanted)
    have g1: "userName g1 = userName (prog m')" "progName g1 = progName (prog m')" "opts g1 = opts (prog m')"
      using w(3) same by (auto simp: same_setup_def split: if_splits)
    have e: "usershells g1 = usershells (prog m)" "getenv (environ g1) ''SHELL'' = getenv (environ (prog m)) ''SHELL''"
      using b(5) c u that by simp_all
    have "wanted_shell ?h ((prog m')\<lparr>environ := environ (prog m)\<rparr>) = Some want"
      using w(1) e(2) g1(1) by (simp add: wanted_shell_def split: option.splits)
    moreover have "is_self want (prog m') = is_self want g1" using g1(2) by (simp add: is_self_def)
    then have "path = (if is_self want (prog m') then defaultshell (opts (prog m')) else want)"
      using w(3) x(1) that g1(3) by (simp split: if_splits)
    moreover have "HAS_ETC_SHELLS M \<longrightarrow> fst (shell_is_valid (SHELLS_FILE ?h) want (usershells (prog m)))"
      using w(2) e(1) by (simp split: if_splits)
    ultimately show ?thesis by blast
  qed
  with c m1(1) u s(3) x show ?thesis
    by (intro exI [of _ cmds] exI [of _ m1] exI [of _ name]) simp
qed

theorem child_runs_the_command_witness:
  "\<exists>argv' m name. rootsh_main linux_build sample_names sample_child None (sample_main [''ls''])
      = Some (Inr (Runs ''/bin/bash'' argv'), m)
    \<and> runAsUser (prog m) = None \<and> argv' = name # (if useLoginShell (prog m) then [] else [''-i'']) @ [''-c'', ''ls '']
    \<and> fst (shell_is_valid (SHELLS_FILE sample_host) ''/bin/bash'' init_shells)"
proof -
  obtain argv' m where r: "rootsh_main linux_build sample_names sample_child None (sample_main [''ls''])
      = Some (Inr (Runs ''/bin/bash'' argv'), m)"
    using sample_child_runs by blast
  have sc: "scan (getenv (environ (prog (sample_main [''ls'']))) ''POSIXLY_CORRECT'' \<noteq> None) optstring long_options [''ls'']
      = ([], [], [''ls''])"
    by (simp add: sample_main_def scan.simps nonoption_p_def c_at_def)
  have p: "scanner (sample_main [''ls'']) = getopt_start [''rootsh'', ''ls'']" "fs_inv (files (prog (sample_main [''ls''])))"
    "malloc_ok (base (the_term sample_child)) = (\<lambda>_. True)" "list_all (\<lambda>a. NUL \<notin> set a) [''rootsh'', ''ls'']"
    using fs_inv_sample(1) by (simp_all add: sample_main_def sample_child_def sample_rootsh_def)
  have f: "prog (sample_main [''ls'']) = sample_rootsh" "runAsUser sample_rootsh = None" "usershells sample_rootsh = init_shells"
    "base (the_term sample_child) = sample_host" "HAS_ETC_SHELLS sample_child" "before_c [] = []"
    by (simp_all add: sample_main_def sample_rootsh_def sample_child_def sample_program_def before_c_def)
  from child_runs_the_command [OF p(1,4,3,2) sc r] obtain name shell where c: "runAsUser (prog m) = None"
    "argv' = name # (if useLoginShell (prog m) then [] else [''-i'']) @ [''-c'', ''ls '']"
    "wanted_shell sample_host ((prog m)\<lparr>environ := environ sample_rootsh\<rparr>) = Some shell"
    "''/bin/bash'' = (if is_self shell (prog m) then defaultshell (opts (prog m)) else shell)"
    "fst (shell_is_valid (SHELLS_FILE sample_host) shell init_shells)"
    by (auto simp: f words_def)
  from c(3) have "shell = ''/bin/bash''"
    by (auto simp: wanted_shell_def sample_rootsh_def sample_host_def root_entry_def split: option.splits if_splits)
  with r c show ?thesis by blast
qed

text \<open>C19: A command line that switches off both logs gets no shell, wherever the two options
  stand before the first \<open>-c\<close>, whatever else it says, whatever the configuration file says and
  whoever calls. (Behind \<open>-c\<close> they would be part of the command.)\<close>

theorem both_logs_off_is_refused:
  assumes "scanner m = getopt_start (p # args)" "list_all (\<lambda>a. NUL \<notin> set a) (p # args)"
    "malloc_ok (base (the_term M)) = (\<lambda>_. True)" "fs_inv (files (prog m))"
    "scan (getenv (environ (prog m)) ''POSIXLY_CORRECT'' \<noteq> None) optstring long_options args
      = (es, options, operands)"
    "char_int (CHR ''x'') \<in> fst ` set (before_c es)"
    "char_int (CHR ''y'') \<in> fst ` set (before_c es)"
  shows "\<exists>e m'. rootsh_main bld b M config m = Some (Inl e, m')"
proof -
  let ?h = "base (the_term M)"
  have wf: "getopt_wf (scanner m)" using assms(1) by simp
  have "rootsh_main bld b M config m \<noteq> Some (Inr x, m')" for x m'
  proof
    assume "rootsh_main bld b M config m = Some (Inr x, m')"
    then obtain cmds m1 where m1: "read_options bld b ?h config m = Some (Inr cmds, m1)"
      "start_session M cmds (prog m1) = (Inr x, prog m')"
      by (rule rootsh_main_cases)
    from read_options_prog [OF assms(1-3,5) m1(1)] obtain g where
      g: "prog m1 = foldl apply_event g (before_c es)" by blast
    then have off: "\<not> logtofile (opts (prog m1))" "\<not> logtosyslog (opts (prog m1))"
      using apply_event_switches_off assms(6,7) g by auto
    from m1(2) obtain shell g where p: "prepare_session (HAS_ETC_SHELLS M) ?h cmds (prog m1) = (Inr shell, g)"
      by (rule start_session_cases) blast
    from prepare_session_begins [OF p] obtain g1 g0 where
      b: "beginlogging ?h cmds g0 = (Inr True, g)" "undisturbed (prog m1) g1" "undisturbed g1 g0" by blast
    have "fs_inv (files g0)"
      using b(2,3) read_options_effects [OF m1(1) wf] assms(4) by (simp add: undisturbed_def no_effects_def)
    with beginlogging_begins [OF b(1)] b(2,3) off show False by (simp add: undisturbed_def)
  qed
  moreover obtain r where "rootsh_main bld b M config m = Some r" using rootsh_main_total [OF wf] by blast
  ultimately show ?thesis by (metis old.sum.exhaust surj_pair)
qed

theorem both_logs_off_is_refused_witness:
  "\<exists>e m. rootsh_main linux_build sample_names sample_program None
    (sample_main [''-y'', ''ls'', ''--no-logf'', ''-c'', ''id'']) = Some (Inl e, m)"
proof -
  have "fs_inv (files (prog (sample_main args)))" for args
    using fs_inv_sample(1) by (simp add: sample_main_def sample_rootsh_def)
  then show ?thesis
    by (intro both_logs_off_is_refused [where es = "[(char_int (CHR ''y''), None), (char_int (CHR ''x''), None),
          (char_int (CHR ''c''), Some ''id'')]"
        and options = "[''-y'', ''--no-logf'', ''-c'', ''id'']" and operands = "[''ls'']" and p = "''rootsh''"
        and args = "[''-y'', ''ls'', ''--no-logf'', ''-c'', ''id'']"])
      (simp_all add: sample_main_def scan.simps nonoption_p_def c_at_def element_events_def kind_of_def
        optstring_def long_options_def long_event_def find_long_def name_part_def value_part_def
        before_c_def)
qed

text \<open>C3: End to end: the program has started a session with its file log on, the disk took
  everything at the start and memory was available, and the opening text and the text of the commands
  fit their buffers. Then in every state that the session reaches, by keys, output, window changes,
  signals and changes to names on a disk that goes on taking everything, the log file holds what it held
  before, the opening text, the commands of the command line, and then exactly what the shell put out,
  and the user saw a part of that.\<close>

theorem program_logs_the_session:
  assumes "rootsh_main bld b M config m = Some (Inr (Watches s0), m')" "getopt_wf (scanner m)"
    "fs_inv (files (prog m))" "w2s_inv (syslogs (prog m))" "disk_ok (files (prog m))"
    "logtofile (opts (prog m'))" "malloc_ok (base (the_term M)) = (\<lambda>_. True)"
    "read_options bld b (base (the_term M)) config m = Some (Inr cmds, m1)"
    "begin_user (base (the_term M)) (core s0) = Some user"
    "length (opened_text (base (the_term M)) user (core s0)) \<le> BUFSIZ - 2"
    "length (command_text cmds) \<le> BUFSIZ - 2"
  shows "\<forall>s. session_reach s0 s \<longrightarrow>
    logging (old_contents (files (prog m)) (logFileName (core s0))
      @ opened_text (base (the_term M)) user (core s0) @ command_text cmds @ from_pty s) (core s)
    \<and> subseq (to_screen s) (from_pty s)"
proof -
  from program_starts [OF assms] program_watches [OF assms(1)] have
    "logging (old_contents (files (prog m)) (logFileName (core s0))
      @ opened_text (base (the_term M)) user (core s0) @ command_text cmds) (core s0)"
    "from_pty s0 = []" "to_screen s0 = []" by blast+
  with session_reach_inv [OF _ this] show ?thesis by simp
qed

lemma sample_start_facts:
  assumes "rootsh_main linux_build sample_names sample_program None (sample_main []) = Some (Inr (Watches s), m)"
    "opts (prog m) = linux_settings"
  shows "getopt_wf (scanner (sample_main []))" "fs_inv (files (prog (sample_main [])))"
    "w2s_inv (syslogs (prog (sample_main [])))" "disk_ok (files (prog (sample_main [])))"
    "logtofile (opts (prog m))" "malloc_ok (base (the_term sample_program)) = (\<lambda>_. True)"
  using fs_inv_sample(1) init_w2s_inv assms(2)
  by (simp_all add: sample_main_def sample_rootsh_def disk_ok_def sample_fs_def linux_settings_def)

lemma sample_options:
  "\<exists>m1. read_options linux_build sample_names (base (the_term sample_program)) None (sample_main []) = Some (Inr None, m1)"
  using sample_reads [of "[]" "[]" "[]"] by (auto simp: scan.simps)

theorem program_logs_the_session_witness:
  "\<exists>s m. rootsh_main linux_build sample_names sample_program None (sample_main []) = Some (Inr (Watches s), m)
    \<and> logging (old_contents sample_fs sample_log @ opened_text sample_host (Some ''root'') (core s)) (core s)"
proof -
  obtain s m where r: "rootsh_main linux_build sample_names sample_program None (sample_main []) = Some (Inr (Watches s), m)"
    "opts (prog m) = linux_settings" and t: "logFileName (core s) = sample_log" "progName (core s) = ''rootsh''"
    "userName (core s) = ''root''" "runAsUser (core s) = None" "isaLoginShell (core s) = False"
    using sample_runs by blast
  obtain m1 where o: "read_options linux_build sample_names (base (the_term sample_program)) None (sample_main []) = Some (Inr None, m1)"
    using sample_options by blast
  have b: "begin_user (base (the_term sample_program)) (core s) = Some (Some ''root'')"
    "length (opened_text (base (the_term sample_program)) (Some ''root'') (core s)) \<le> BUFSIZ - 2"
    "length (command_text None) \<le> BUFSIZ - 2"
    using sample_opening [OF t(2-5)] by (simp_all add: command_text_def)
  have e: "from_pty s = []" "files (prog (sample_main [])) = sample_fs"
    using program_watches [OF r(1)] by (simp_all add: sample_main_def sample_rootsh_def)
  from program_logs_the_session [OF r(1) sample_start_facts [OF r] o b] reach_start [of s]
  have "logging (old_contents sample_fs sample_log @ opened_text sample_host (Some ''root'') (core s)) (core s)"
    by (auto simp: t(1) e command_text_def)
  with r(1) show ?thesis by blast
qed

text \<open>C2: A whole run: the file log is on, the disk works when the session starts and again when it ends,
  and may refuse or cut writes in between. Output, keyboard input, window changes and changes to names
  come in any order until the child exits normally; at that time the recovery name with
  \<open>.tampered\<close> can be opened and the terminal can be reset, and texts and names fit their buffers.
  Then the program exits with the child's status, the terminal is as it was, and under one of the
  three final names there is a file with what the log held before, the opening text, the commands,
  what the disk took of the output, and the two closing messages. If the disk never failed, that is
  all the output.\<close>

theorem whole_run_is_kept:
  assumes "rootsh_main bld b M config m = Some (Inr (Watches s0), m')" "getopt_wf (scanner m)"
    "fs_inv (files (prog m))" "w2s_inv (syslogs (prog m))" "disk_ok (files (prog m))"
    "logtofile (opts (prog m'))" "malloc_ok (base (the_term M)) = (\<lambda>_. True)"
    "read_options bld b (base (the_term M)) config m = Some (Inr cmds, m1)"
    "begin_user (base (the_term M)) (core s0) = Some user"
    "length (opened_text (base (the_term M)) user (core s0)) \<le> BUFSIZ - 2"
    "length (command_text cmds) \<le> BUFSIZ - 2"
    and "list_all (\<lambda>e. goes_on e \<or> is_disk e) es" "run_session es s0 = (Inr (), s)" "disk_ok (files (core s))"
    and "recoverable (logFileName (core s0) @ ''.tampered'') (files (core s))"
    and "malloc_ok (base t) = (\<lambda>_. True)" "wait_result t = If_Exited code" "isatty0 t"
      "tcsetattr_error t = None" "length (logFileName (core s0)) + 19 \<le> MAXPATHLEN"
      "length (closed_text (base t) (core s0)) \<le> BUFSIZ - 2"
      "length (ended_by_user (core s0)) \<le> BUFSIZ - 2"
    and "took = kept (logDev (core s0), logInode (core s0)) None es"
  shows "\<exists>s' q. run_session (es @ [Signal SIGCHLD, Round t Interrupted]) s0 = (Inl (Exited code), s')
    \<and> tty s' = term_now M \<and> q \<in> final_names (logFileName (core s0))
    \<and> kept_as q (old_contents (files (prog m)) (logFileName (core s0))
        @ opened_text (base (the_term M)) user (core s0) @ command_text cmds
        @ took @ ended_by_user (core s0) @ closed_text (base t) (core s0)) (files (core s'))
    \<and> (list_all goes_on es \<longrightarrow> took = from_pty s)"
proof -
  define c0 where "c0 = old_contents (files (prog m)) (logFileName (core s0))
    @ opened_text (base (the_term M)) user (core s0) @ command_text cmds"
  from program_starts [OF assms(1-11)] program_watches [OF assms(1)] have
    c: "logging c0 (core s0)" "from_pty s0 = []" "\<not> ending s0" "termParams s0 = term_now M"
    unfolding c0_def by blast+
  from healed_logging [THEN iffD1, OF c(1)] run_session_disk [OF c(3) _ assms(12)] assms(13) have
    s: "logging (c0 @ took) (healed (core s))" "stays s0 s"
      "from_pty s = in_log (sum_list (map event_transcript es))"
    by (auto simp: assms(23) c(2))
  have "log_room (core s) = None" using assms(14) by (simp add: log_room_def disk_ok_def)
  with s(1) have log: "logging (c0 @ took) (core s)" using healed_logging by blast
  have same: "logFileName (core s) = logFileName (core s0)" "ended_by_user (core s) = ended_by_user (core s0)"
    "closed_text (base t) (core s) = closed_text (base t) (core s0)" "termParams s = term_now M"
    using s(2) c(4) closed_text_same by (auto simp: stays_def ended_by_user_def same_vars_simps)
  from child_end_round [OF log assms(14), of t code] assms(15-22) obtain s' q where
    "loop_round t Interrupted (signalHandler SIGCHLD s) = (Inl (Exited code), s')" "tty s' = term_now M"
    "q \<in> final_names (logFileName (core s0))"
    "kept_as q ((c0 @ took) @ ended_by_user (core s0) @ closed_text (base t) (core s0)) (files (core s'))"
    unfolding same by auto
  moreover from this(1) have
    "run_session (es @ [Signal SIGCHLD, Round t Interrupted]) s0 = (Inl (Exited code), s')"
    using assms(13) by (simp add: run_session_append)
  ultimately show ?thesis using kept_all [of es "log_ino (core s0)"] s(3)
    by (intro exI [of _ s'] exI [of _ q]) (simp add: assms(23) c0_def)
qed

theorem whole_run_is_kept_witness:
  "\<exists>s0 m s' q. rootsh_main linux_build sample_names sample_program None (sample_main []) = Some (Inr (Watches s0), m)
    \<and> run_session [Disk (\<lambda>_. Some 2), Round sample_term (Ready None (Some (Data ''rm x'', Write_Result 4 []))),
        Disk (\<lambda>_. None), Others (U_unlink sample_log), Signal SIGCHLD, Round sample_term Interrupted] s0
      = (Inl (Exited 3), s')
    \<and> q \<in> final_names sample_log \<and> kept_as q (old_contents sample_fs sample_log
        @ opened_text sample_host (Some ''root'') (core s0) @ ''rm'' @ ended_by_user (core s0)
        @ closed_text sample_host (core s0)) (files (core s'))"
proof -
  let ?es = "[Disk (\<lambda>_. Some 2), Round sample_term (Ready None (Some (Data ''rm x'', Write_Result 4 []))),
    Disk (\<lambda>_. None), Others (U_unlink sample_log)]"
  let ?t = "sample_log @ ''.tampered''"
  obtain s0 m where r: "rootsh_main linux_build sample_names sample_program None (sample_main []) = Some (Inr (Watches s0), m)"
    "opts (prog m) = linux_settings" "logFileName (core s0) = sample_log" and t: "progName (core s0) = ''rootsh''"
    "userName (core s0) = ''root''" "runAsUser (core s0) = None" "isaLoginShell (core s0) = False"
    "names (files (core s0)) ?t = None" "open_error (files (core s0)) = (\<lambda>_. None)"
    using sample_runs by blast
  note p = sample_start_facts [OF r(1,2)]
  obtain m1 where o: "read_options linux_build sample_names (base (the_term sample_program)) None (sample_main []) = Some (Inr None, m1)"
    using sample_options by blast
  have b: "begin_user (base (the_term sample_program)) (core s0) = Some (Some ''root'')"
    "length (opened_text (base (the_term sample_program)) (Some ''root'') (core s0)) \<le> BUFSIZ - 2"
    "length (command_text None) \<le> BUFSIZ - 2"
    using sample_opening [OF t(1-4)] by (simp_all add: command_text_def)
  have ev: "list_all (\<lambda>e. goes_on e \<or> is_disk e) ?es" by (simp add: sample_term_def)
  from program_starts [OF r(1) p o b] program_watches [OF r(1)] obtain c where
    c: "logging c (core s0)" "\<not> ending s0" by blast
  from run_session_disk [OF c(2) _ ev] healed_logging [THEN iffD1, OF c(1)]
  obtain s where s: "run_session ?es s0 = (Inr (), s)" by blast
  let ?s0 = "s0\<lparr>core := (core s0)\<lparr>files := (files (core s0))\<lparr>write_room := (\<lambda>_. Some 2)\<rparr>\<rparr>\<rparr>"
  have "logging c (healed (core ?s0))" "\<not> ending ?s0" using healed_logging [THEN iffD1, OF c(1)] c(2) by simp_all
  from event_disk [OF this(2,1), of "?es ! 1"] obtain s1 where s1:
    "run_session [?es ! 1] ?s0 = (Inr (), s1)" "same_dir (files (core ?s0)) (files (core s1))"
    by (auto simp: sample_term_def)
  with s have "files (core s) = user_step ((files (core s1))\<lparr>write_room := (\<lambda>_. None)\<rparr>) (U_unlink sample_log)"
    by (auto simp: bindM_result)
  with s1(2) t(5,6) have rec: "disk_ok (files (core s))" "recoverable (logFileName (core s0) @ ''.tampered'') (files (core s))"
    using user_step_spares [of ?t "U_unlink sample_log"] user_step_frame(2,3) [of _ "U_unlink sample_log", simplified] r(3)
    by (simp_all add: recoverable_def disk_ok_def same_dir_def)
  have e: "malloc_ok (base sample_term) = (\<lambda>_. True)" "wait_result sample_term = If_Exited 3"
    "isatty0 sample_term" "tcsetattr_error sample_term = None" "length (logFileName (core s0)) + 19 \<le> MAXPATHLEN"
    "length (closed_text (base sample_term) (core s0)) \<le> BUFSIZ - 2" "length (ended_by_user (core s0)) \<le> BUFSIZ - 2"
    using r(3) t(1,2) by (simp_all add: sample_term_def sample_log_def MAXPATHLEN_def BUFSIZ_def
      closed_text_def ended_by_user_def CRLF_def tty_name_def sample_host_def)
  have f: "files (prog (sample_main [])) = sample_fs" by (simp add: sample_main_def sample_rootsh_def)
  from whole_run_is_kept [OF r(1) p o b ev s rec e refl] r(1,3) show ?thesis
    by (auto simp: zero_transcript_def sample_term_def command_text_def f)
qed

end
