(* ===== verification/Weakest_Pre.thy ===== *)
theory Weakest_Pre
  imports Prelude
begin

text \<open>
  Weakest preconditions for operations that may stop: \<open>safely m Q s\<close> says that \<open>m\<close>, started
  in \<open>s\<close>, returns with \<open>Q\<close> or exits, and neither faults nor diverges. The rules follow the
  constructs the operations are built with; the collection \<open>safe\<close> has those for the operations.
\<close>

named_theorems safe

text \<open>An operation that returns with \<open>Q\<close> or exits; it neither faults nor diverges.\<close>

definition safely :: "('s \<Rightarrow> (stop + 'a) \<times> 's) \<Rightarrow> ('a \<Rightarrow> 's \<Rightarrow> bool) \<Rightarrow> 's \<Rightarrow> bool" where
  "safely m Q s \<longleftrightarrow> (case m s of (Inl e, t) \<Rightarrow> \<exists>c. e = Exited c | (Inr a, t) \<Rightarrow> Q a t)"

lemma safely_bind [simp]: "safely (bindM m k) Q = safely m (\<lambda>a. safely (k a) Q)"
  by (auto simp: fun_eq_iff safely_def bindM_def split: prod.splits sum.splits)

lemma safely_bind_at [simp]:
  "safely (\<lambda>s. bindM (m s) (k s) (f s)) Q = (\<lambda>s. safely (m s) (\<lambda>a. safely (k s a) Q) (f s))"
  by (auto simp: fun_eq_iff safely_def bindM_def split: prod.splits sum.splits)

lemma safely_return [simp]: "safely (\<lambda>s. (Inr (a s), f s)) Q = (\<lambda>s. Q (a s) (f s))"
  by (simp add: fun_eq_iff safely_def)

lemma safely_exit [simp]: "safely (\<lambda>s. (Inl (Exited (c s)), f s)) Q = (\<lambda>_. True)"
  by (simp add: fun_eq_iff safely_def)

lemma safely_Pair [simp]: "safely (Pair (Inr a)) Q = Q a" "safely (Pair (Inl (Exited c))) Q = (\<lambda>_. True)"
  by (simp_all add: fun_eq_iff safely_def)

lemma safely_if [simp]:
  "safely (\<lambda>s. if b s then m s else n s) Q = (\<lambda>s. if b s then safely m Q s else safely n Q s)"
  by (simp add: fun_eq_iff safely_def)

lemma safely_option [simp]:
  "safely (\<lambda>s. case x s of None \<Rightarrow> m s | Some y \<Rightarrow> n s y) Q
     = (\<lambda>s. case x s of None \<Rightarrow> safely m Q s | Some y \<Rightarrow> safely (\<lambda>s. n s y) Q s)"
  by (simp add: fun_eq_iff safely_def split: option.splits)

lemma safely_prod [simp]:
  "safely (\<lambda>s. case x s of (a, b) \<Rightarrow> m s a b) Q = (\<lambda>s. case x s of (a, b) \<Rightarrow> safely (\<lambda>s. m s a b) Q s)"
  by (simp add: fun_eq_iff safely_def split: prod.splits)

lemma safely_result: "m s = (Inr a, t) \<Longrightarrow> safely m Q s \<longleftrightarrow> Q a t"
  by (simp add: safely_def)

lemma safely_mono:
  assumes "safely m Q s" "\<And>a t. Q a t \<Longrightarrow> Q' a t"
  shows "safely m Q' s"
  using assms by (auto simp: safely_def split: prod.splits sum.splits)

lemma safely_cong: "m s = m' t \<Longrightarrow> safely m Q s \<longleftrightarrow> safely m' Q t"
  by (simp add: safely_def)

lemma safelyD: "safely m Q s \<Longrightarrow> m s = (r, t) \<Longrightarrow> (\<exists>a. r = Inr a \<and> Q a t) \<or> (\<exists>c. r = Inl (Exited c))"
  by (auto simp: safely_def split: sum.splits)

end
