(* ===== verification/Session_Safety.thy ===== *)
theory Session_Safety
  imports Session_Run Weakest_Pre
begin

text \<open>
  Nothing the user, the terminal, the disk or the signals do makes a session read or write outside
  its buffers, follow a null pointer, or hang: it goes on or exits.
\<close>

section \<open>What keeps the files in order\<close>

text \<open>A step of the file system that keeps descriptors open.\<close>

definition fs_keeps :: "fs \<Rightarrow> fs \<Rightarrow> bool" where
  "fs_keeps f f' \<longleftrightarrow> (fs_inv f \<longrightarrow> fs_inv f') \<and> open_error f' = open_error f
     \<and> (\<forall>k. fds f k \<noteq> None \<longrightarrow> fds f' k \<noteq> None)"

lemma fs_keeps_refl [simp]: "fs_keeps f f"
  by (simp add: fs_keeps_def)

lemma fs_keeps_trans: "fs_keeps f g \<Longrightarrow> fs_keeps g h \<Longrightarrow> fs_keeps f h"
  by (auto simp: fs_keeps_def)

lemma fs_keeps_user_step: "fs_keeps f (user_step f a)"
  by (simp add: fs_keeps_def user_step_fs_inv user_step_frame)

lemma fs_keeps_disk: "fs_keeps f (f\<lparr>write_room := room\<rparr>)"
  by (simp add: fs_keeps_def)

lemma fs_keeps_remove: "fs_keeps f (snd (sys_unlink p f))" "fs_keeps f (snd (sys_rmdir p f))"
  using fs_keeps_user_step [of f "U_unlink p"] fs_keeps_user_step [of f "U_rmdir p"] by simp_all

lemma fs_keeps_fds: "fds f k \<noteq> None \<Longrightarrow> fs_keeps f (f\<lparr>fds := (fds f)(k \<mapsto> d)\<rparr>)"
  unfolding fs_keeps_def fs_inv_def by auto

lemma fs_keeps_write: "sys_write k b f = (n, f') \<Longrightarrow> fs_keeps f f'"
  by (auto simp: sys_write_def Let_def fs_keeps_def intro!: fs_inv_write
      split: option.splits if_splits node.splits)

lemma fs_keeps_read: "sys_read k n f = (b, f') \<Longrightarrow> fs_keeps f f'"
  by (auto simp: sys_read_def Let_def intro!: fs_keeps_fds split: option.splits node.splits)

lemma fs_keeps_rewind: "fs_keeps f (sys_rewind k f)"
  by (auto simp: sys_rewind_def intro!: fs_keeps_fds split: option.splits)

lemma sys_open_keeps:
  assumes "sys_open path app f = (r, f')" "fs_inv f"
  shows "fs_keeps f f' \<and> (case r of
      Inr k \<Rightarrow> k = next_fd f \<and> (\<exists>i. fds f' k = Some \<lparr>fd_ino = i, fd_off = 0, fd_append = app\<rparr>)
    | Inl e \<Rightarrow> f' = f \<and> (open_error f path = Some e \<or> e \<in> {EISDIR, EOTHER 5}))"
proof -
  define i where "i = (device_of f path, next_ino f)"
  define f1 where "f1 = f\<lparr>names := (names f)(path \<mapsto> i), nodes := (nodes f)(i \<mapsto> File []),
    next_ino := Suc (next_ino f)\<rparr>"
  from assms(2) have "fs_inv f1" unfolding f1_def i_def by (rule fs_inv_new)
  then have keep: "fs_keeps f f1" "next_fd f1 = next_fd f" "fs_inv f1" by (simp_all add: fs_keeps_def f1_def)
  have "(\<exists>e. r = Inl e \<and> f' = f \<and> (open_error f path = Some e \<or> e \<in> {EISDIR, EOTHER 5}))
      \<or> (\<exists>j. new_fd j app f = (r, f')) \<or> new_fd i app f1 = (r, f')"
  proof (cases "open_error f path = None \<and> names f path = None")
    case True
    with assms(1) show ?thesis by (simp add: sys_open_def Let_def i_def [symmetric] f1_def [symmetric])
  next
    case False
    with assms(1) show ?thesis
      by (auto simp: sys_open_def simp del: split_paired_Ex split: option.splits node.splits)
  qed
  then consider e where "r = Inl e" "f' = f" "open_error f path = Some e \<or> e \<in> {EISDIR, EOTHER 5}"
    | j f2 where "new_fd j app f2 = (r, f')" "f2 \<in> {f, f1}"
    by blast
  then show ?thesis
  proof cases
    case 1
    then show ?thesis by simp
  next
    case 2
    with assms(2) keep have "fs_inv f2" "fs_keeps f f2" "next_fd f2 = next_fd f" by auto
    with new_fd_inv [OF this(1) 2(1)] 2(1) show ?thesis by (auto simp: fs_keeps_def new_fd_def)
  qed
qed

section \<open>The logs in order\<close>

text \<open>All that is needed for safety: the state of the syslog writer is a proper one, and the log
  file's descriptor, if there is one, is open. Whether it can be written does not matter.\<close>

definition sound :: "rootsh \<Rightarrow> bool" where
  "sound g \<longleftrightarrow> w2s_inv (syslogs g)
     \<and> (logtofile (opts g) \<longrightarrow> fs_inv (files g) \<and> fds (files g) (logFile g) \<noteq> None)"

definition steady :: "rootsh \<Rightarrow> rootsh \<Rightarrow> bool" where
  "steady g0 g \<longleftrightarrow> same_vars g0 g \<and> open_error (files g) = open_error (files g0) \<and> sound g"

lemma steady_refl: "steady g g \<longleftrightarrow> sound g"
  by (simp add: steady_def)

lemma steady_sound: "steady g0 g \<Longrightarrow> sound g"
  by (simp add: steady_def)

lemma logging_sound: "logging c g \<Longrightarrow> sound g"
  by (auto simp: logging_def sound_def log_open_def)

lemma steady_trans: "steady g0 g1 \<Longrightarrow> steady g1 g2 \<Longrightarrow> steady g0 g2"
  by (auto simp: steady_def intro: same_vars_trans)

lemma steady_files:
  assumes "steady g0 g" "fs_keeps (files g) f"
  shows "steady g0 (g\<lparr>files := f\<rparr>)"
  using assms same_vars_trans [OF _ same_vars_intro(1)]
  by (auto simp: steady_def sound_def fs_keeps_def)

lemma steady_print: "steady g0 (print_error m g) \<longleftrightarrow> steady g0 g"
proof -
  have "same_vars (print_error m g) g"
    unfolding same_vars_def print_error_def
    by (intro exI [of _ "files g"] exI [of _ "syslogs g"] exI [of _ "stderr_text g"]) simp
  moreover have "same_vars g (print_error m g)" by (rule same_vars_print_error)
  moreover have "sound (print_error m g) = sound g" "files (print_error m g) = files g"
    by (simp_all add: print_error_def sound_def)
  ultimately show ?thesis unfolding steady_def by (metis same_vars_trans)
qed

lemma steady_syslogs:
  assumes "steady g0 g" "w2s_inv w"
  shows "steady g0 (g\<lparr>syslogs := w\<rparr>)"
proof -
  have "same_vars g (g\<lparr>syslogs := w\<rparr>)"
    using same_vars_intro(3) [where g = g and f = "files g" and w = w] by simp
  with assms show ?thesis using same_vars_trans by (auto simp: steady_def sound_def)
qed

lemma files_print: "files (print_error m g) = files g"
  by (simp add: print_error_def)

lemma steady_close:
  assumes "steady g0 g" "k \<noteq> logFile g0"
  shows "steady g0 (g\<lparr>files := sys_close k (files g)\<rparr>)"
proof -
  have "logFile g = logFile g0" using assms(1) same_vars_simps [of g0 g] by (simp add: steady_def)
  moreover have "fs_inv (files g) \<Longrightarrow> fs_inv (sys_close k (files g))"
    unfolding fs_inv_def sys_close_def by simp
  ultimately show ?thesis
    using assms same_vars_trans [OF _ same_vars_intro(1)] by (auto simp: steady_def sound_def sys_close_def)
qed

lemma dologging_safe [safe]:
  assumes "steady g0 g" "n \<le> length buf" "malloc_ok h = (\<lambda>_. True)"
  shows "safely (dologging h buf n) (\<lambda>_. steady g0) g"
proof -
  obtain k f where w: "sys_write (logFile g) (take n buf) (files g) = (k, f)"
    by (cases "sys_write (logFile g) (take n buf) (files g)")
  define g1 where "g1 = (if logtofile (opts g) then
      if k < 0 then print_error ''Error writing to logfile'' (g\<lparr>files := f\<rparr>) else g\<lparr>files := f\<rparr> else g)"
  have g1: "steady g0 g1"
    using assms(1) steady_files [OF assms(1) fs_keeps_write [OF w]] by (simp add: g1_def steady_print)
  have o: "opts g1 = opts g" by (simp add: g1_def print_error_def)
  have inv: "w2s_inv (syslogs g1)" using g1 by (simp add: steady_def sound_def)
  note r = write2syslog_refines [OF inv] w2s_spec_inv [OF inv]
  have "dologging h buf n g = (if logtosyslog (opts g1) then
      (case write2syslog (malloc_ok h) (Some (take n buf)) (syslogLogLineCount (opts g1)) SYSLOG_PRIO (syslogs g1) of
         Inl e \<Rightarrow> (Inl e, g1) | Inr w \<Rightarrow> (Inr (), g1\<lparr>syslogs := w\<rparr>)) else (Inr (), g1))"
    using assms(2) w by (simp add: dologging_def g1_def Let_def split: sum.splits)
  then show ?thesis
    using g1 r assms(3) by (simp add: safely_def steady_syslogs)
qed

lemma log_message_safe [safe]:
  "steady g0 g \<Longrightarrow> length m \<le> BUFSIZ \<Longrightarrow> malloc_ok h = (\<lambda>_. True) \<Longrightarrow>
    safely (log_message h m) (\<lambda>_. steady g0) g"
  unfolding log_message_def by (rule dologging_safe) simp_all

lemma write_message_safe [safe]:
  assumes "steady g0 g" "length m \<le> BUFSIZ"
  shows "safely (write_message h m) (\<lambda>_. steady g0) g"
  using assms fs_keeps_write
  by (auto simp: safely_def write_message_def intro: steady_files split: prod.splits)

section \<open>Recovering\<close>

text \<open>What \<open>forceopen\<close> can say: the text for an unknown error number, which is an \<open>int\<close>.\<close>

lemma length_dec: "n < 10 ^ k \<Longrightarrow> 0 < k \<Longrightarrow> length (dec n) \<le> k"
proof (induction n arbitrary: k rule: dec.induct)
  case (1 n)
  show ?case
  proof (cases "n < 10")
    case True
    then show ?thesis using "1.prems" by (simp add: dec.simps)
  next
    case False
    then obtain j where k: "k = Suc j" "0 < j" using "1.prems" by (cases k; cases "k - 1") auto
    then have "n div 10 < 10 ^ j" using "1.prems" by (simp add: less_mult_imp_div_less mult.commute)
    with "1.IH" [OF False this k(2)] False k show ?thesis by (simp add: dec.simps [of n])
  qed
qed

text \<open>The name the log is recovered to fails, if at all, with an error number of 32 bits.\<close>

definition errno_ok :: "string \<Rightarrow> fs \<Rightarrow> bool" where
  "errno_ok p f \<longleftrightarrow> (case open_error f p of Some (EOTHER n) \<Rightarrow> n < 2 ^ 31 | _ \<Rightarrow> True)"

definition ready_to_copy :: "nat \<Rightarrow> nat \<Rightarrow> fs \<Rightarrow> bool" where
  "ready_to_copy r w f \<longleftrightarrow> r \<noteq> w \<and> (\<exists>d e. fds f r = Some d \<and> fds f w = Some e \<and> \<not> fd_append e \<and> fd_off e \<le> fd_off d)"

lemma forceopen_safe [safe]:
  assumes "steady g0 g" "logtofile (opts g0)" "errno_ok path (files g0)" "malloc_ok h = (\<lambda>_. True)"
  shows "safely (forceopen h path k) (\<lambda>r g. steady g0 g \<and>
    (case r of None \<Rightarrow> True
     | Some fd \<Rightarrow> fd \<noteq> logFile g0 \<and> (\<exists>e. fds (files g) fd = Some e \<and> fd_off e = 0 \<and> \<not> fd_append e))) g"
  using assms(1)
proof (induction "3 - k" arbitrary: k g rule: less_induct)
  case less
  note v = same_vars_simps [of g0 g]
  have g: "fs_inv (files g)" "fds (files g) (logFile g0) \<noteq> None" "open_error (files g) = open_error (files g0)"
    using less.prems assms(2) v by (auto simp: steady_def sound_def)
  obtain r f where o: "sys_open path False (files g) = (r, f)" by (cases "sys_open path False (files g)")
  note keep = sys_open_keeps [OF o g(1)]
  show ?case
  proof (cases r)
    case (Inr fd)
    with keep have fd: "fd = next_fd (files g)" "\<exists>i. fds f fd = Some \<lparr>fd_ino = i, fd_off = 0, fd_append = False\<rparr>"
      by auto
    have "fd \<noteq> logFile g0" using fs_invD(3) [OF g(1) order_refl] g(2) fd(1) by metis
    with Inr o keep fd less.prems show ?thesis
      by (auto simp: safely_def forceopen.simps [of h path k] intro: steady_files)
  next
    case (Inl e)
    define msg where "msg = (case e of EEXIST \<Rightarrow> MSG_FILE_EXISTS | EISDIR \<Rightarrow> MSG_DIR_EXISTS
      | EOTHER n \<Rightarrow> ''*** FILE COULD NOT BE CREATED (ERRNO '' @ dec n @ '')  ***'' @ CRLF)"
    define f2 where "f2 = (case e of EEXIST \<Rightarrow> snd (sys_unlink path f) | EISDIR \<Rightarrow> snd (sys_rmdir path f)
      | EOTHER n \<Rightarrow> f)"
    have "steady g0 (g\<lparr>files := f2\<rparr>)"
      using less.prems keep Inl fs_keeps_remove by (auto simp: f2_def intro!: steady_files split: errno.splits)
    moreover have "length msg \<le> BUFSIZ"
    proof (cases "\<exists>n. e = EOTHER n")
      case True
      then obtain n where n: "e = EOTHER n" by blast
      with keep Inl assms(3) g(3) have "n < 10 ^ 10" by (auto simp: errno_ok_def split: option.splits)
      from length_dec [OF this] show ?thesis by (simp add: msg_def n BUFSIZ_def CRLF_def)
    next
      case False
      then show ?thesis using msg_lengths by (auto simp: msg_def BUFSIZ_def split: errno.splits)
    qed
    ultimately have log: "safely (log_message h msg) (\<lambda>_. steady g0) (g\<lparr>files := f2\<rparr>)"
      using assms(4) by (rule log_message_safe)
    show ?thesis
    proof (cases "k + 1 \<ge> 3")
      case True
      with Inl o keep less.prems show ?thesis
        by (auto simp: safely_def forceopen.simps [of h path k])
    next
      case False
      have eq: "forceopen h path k g = bindM (log_message h msg) (\<lambda>_ g. forceopen h path (k + 1) g) (g\<lparr>files := f2\<rparr>)"
        using False Inl o keep by (cases e) (simp_all add: forceopen.simps [of h path k] msg_def f2_def Let_def split_beta)
      have "safely (forceopen h path (k + 1)) (\<lambda>r g. steady g0 g \<and>
        (case r of None \<Rightarrow> True
         | Some fd \<Rightarrow> fd \<noteq> logFile g0 \<and> (\<exists>e. fds (files g) fd = Some e \<and> fd_off e = 0 \<and> \<not> fd_append e))) t"
        if "steady g0 t" for t
        using less.hyps [OF _ that, of "k + 1"] False by simp
      then show ?thesis
        unfolding safely_cong [where m = "forceopen h path k" and m' = "bindM (log_message h msg)
          (\<lambda>_. forceopen h path (k + 1))", OF eq] safely_bind by (rule safely_mono [OF log])
    qed
  qed
qed

text \<open>The copying loop returns whatever the disk does: the log file only gets behind where it is
  written, so it does not grow before it is read to its end.\<close>

definition left_to_read :: "nat \<Rightarrow> fs \<Rightarrow> buffer" where
  "left_to_read r f = (case fds f r of None \<Rightarrow> []
     | Some d \<Rightarrow> (case nodes f (fd_ino d) of Some (File c) \<Rightarrow> drop (fd_off d) c | _ \<Rightarrow> []))"

lemma read_left:
  assumes "sys_read r n f = (b, f1)"
  shows "b = take n (left_to_read r f)" "left_to_read r f1 = drop (length b) (left_to_read r f)"
  using assms by (auto simp: sys_read_def left_to_read_def Let_def add.commute
    split: option.splits node.splits)

lemma read_ready:
  assumes "sys_read r n f = (b, f1)" "ready_to_copy r w f"
  shows "\<exists>d e. fds f1 r = Some d \<and> fds f1 w = Some e \<and> \<not> fd_append e \<and> r \<noteq> w
    \<and> fd_off e + length b \<le> fd_off d \<and> (b \<noteq> [] \<longrightarrow> (\<exists>c. nodes f1 (fd_ino d) = Some (File c) \<and> fd_off d \<le> length c))"
  using assms by (auto simp: sys_read_def ready_to_copy_def Let_def split: option.splits node.splits)

lemma write_left:
  assumes "sys_write w b f1 = (k, f2)" "fds f1 r = Some d" "fds f1 w = Some e" "\<not> fd_append e" "r \<noteq> w"
    "fd_off e + length b \<le> fd_off d" "nodes f1 (fd_ino d) = Some (File c)" "fd_off d \<le> length c"
  shows "ready_to_copy r w f2 \<and> length (left_to_read r f2) = length (left_to_read r f1)"
  using assms length_taken [of "write_room f1 (fd_ino e)" b]
  by (auto simp: sys_write_def ready_to_copy_def left_to_read_def Let_def
    split: if_splits option.splits node.splits)

definition copyable :: "nat \<Rightarrow> nat \<Rightarrow> rootsh \<Rightarrow> rootsh \<Rightarrow> bool" where
  "copyable r w g0 g \<longleftrightarrow> steady g0 g \<and> ready_to_copy r w (files g)"

interpretation any_recovery: block_copy "read_block r" "write_block w" "copyable r w g0"
  "\<lambda>g. left_to_read r (files g)" for r w g0
proof
  fix g g'
  assume inv: "copyable r w g0 g" and rd: "read_block r g = ([], g')"
  obtain f' where f': "sys_read r BUFSIZ (files g) = ([], f')" "g' = g\<lparr>files := f'\<rparr>"
    using rd by (auto simp: read_block_def split: prod.splits)
  with inv read_ready [OF f'(1)] read_left [OF f'(1)] fs_keeps_read [OF f'(1)]
  show "copyable r w g0 g' \<and> left_to_read r (files g') = []"
    by (auto simp: copyable_def ready_to_copy_def BUFSIZ_def intro: steady_files)
next
  fix g b g'
  assume inv: "copyable r w g0 g" and rd: "read_block r g = (b, g')" and b: "b \<noteq> []"
  obtain f1 where f1: "sys_read r BUFSIZ (files g) = (b, f1)" "g' = g\<lparr>files := f1\<rparr>"
    using rd by (auto simp: read_block_def split: prod.splits)
  obtain k f2 where f2: "sys_write w b f1 = (k, f2)" by (cases "sys_write w b f1")
  have g2: "files (write_block w g' b) = f2" "steady g0 (write_block w g' b)"
    using inv f1 f2 fs_keeps_trans [OF fs_keeps_read [OF f1(1)] fs_keeps_write [OF f2]]
    by (auto simp: write_block_def copyable_def Let_def steady_print files_print intro: steady_files)
  from read_ready [OF f1(1), of w] inv b obtain d e c where
    "fds f1 r = Some d" "fds f1 w = Some e" "\<not> fd_append e" "r \<noteq> w" "fd_off e + length b \<le> fd_off d"
    "nodes f1 (fd_ino d) = Some (File c)" "fd_off d \<le> length c"
    by (auto simp: copyable_def)
  from write_left [OF f2 this] g2 read_left [OF f1(1)] b
  show "copyable r w g0 (write_block w g' b)
      \<and> length (left_to_read r (files (write_block w g' b))) < length (left_to_read r (files g))"
    by (auto simp: copyable_def)
qed

lemma recoverfile_safe [safe]:
  assumes "steady g0 g" "logtofile (opts g0)" "errno_ok path (files g0)" "malloc_ok h = (\<lambda>_. True)"
  shows "safely (recoverfile h (logFile g0) path) (\<lambda>_. steady g0) g"
  unfolding recoverfile_def safely_bind
proof (rule safely_mono [OF forceopen_safe [OF assms]])
  fix x t
  assume x: "steady g0 t \<and> (case x of None \<Rightarrow> True
     | Some fd \<Rightarrow> fd \<noteq> logFile g0 \<and> (\<exists>e. fds (files t) fd = Some e \<and> fd_off e = 0 \<and> \<not> fd_append e))"
  show "safely ((\<lambda>r g. case r of None \<Rightarrow> (Inr False, g)
       | Some fd \<Rightarrow> let g = g\<lparr>files := sys_rewind (logFile g0) (files g)\<rparr> in
           (case copy_loop (read_block (logFile g0)) (write_block fd) g of
              None \<Rightarrow> (Inl Diverged, g)
            | Some g \<Rightarrow> (Inr True, g\<lparr>files := sys_close fd (files g)\<rparr>))) x) (\<lambda>_. steady g0) t"
  proof (cases x)
    case None
    with x show ?thesis by (simp add: safely_def)
  next
    case (Some fd)
    let ?t = "t\<lparr>files := sys_rewind (logFile g0) (files t)\<rparr>"
    have t: "logtofile (opts t)" "logFile t = logFile g0"
      using x assms(2) same_vars_simps [of g0 t] by (auto simp: steady_def)
    then obtain d where "fds (files t) (logFile g0) = Some d" using x by (auto simp: steady_def sound_def)
    with Some x have "copyable (logFile g0) fd g0 ?t"
      by (auto simp: copyable_def ready_to_copy_def sys_rewind_def intro!: steady_files fs_keeps_fds)
    from any_recovery.copy_returns [OF this] obtain u where
      u: "copy_loop (read_block (logFile g0)) (write_block fd) ?t = Some u" "steady g0 u"
      by (auto simp: copyable_def)
    then have "steady g0 (u\<lparr>files := sys_close fd (files u)\<rparr>)"
      using x Some by (intro steady_close) auto
    with u Some show ?thesis by (simp add: safely_def)
  qed
qed

section \<open>Closing\<close>

lemma same_vars_sym: "same_vars g g' \<Longrightarrow> same_vars g' g"
  unfolding same_vars_def
proof (elim exE)
  fix f w e assume "g' = g\<lparr>files := f, syslogs := w, stderr_text := e\<rparr>"
  then have "g = g'\<lparr>files := files g, syslogs := syslogs g, stderr_text := stderr_text g\<rparr>" by simp
  then show "\<exists>f w e. g = g'\<lparr>files := f, syslogs := w, stderr_text := e\<rparr>" by blast
qed

text \<open>What must fit for a log to be closed: the closing message into its buffer, the name of a
  log that was tampered with into \<open>logFileName\<close>.\<close>

definition closes :: "host \<Rightarrow> rootsh \<Rightarrow> bool" where
  "closes h g \<longleftrightarrow> malloc_ok h = (\<lambda>_. True) \<and> length (closed_text h g) \<le> BUFSIZ
     \<and> length (logFileName g) + 19 \<le> MAXPATHLEN \<and> errno_ok (logFileName g @ ''.tampered'') (files g)"

lemma closes_steady: "steady g0 g \<Longrightarrow> closes h g = closes h g0"
  using same_vars_simps [of g0 g] closed_text_same [of g0 g h]
  by (auto simp: steady_def closes_def errno_ok_def)

lemma examine_keeps: "examine_log g = (msg, f) \<Longrightarrow> fs_keeps (files g) f \<and> length msg \<le> BUFSIZ"
  using msg_lengths fs_keeps_remove fs_keeps_trans [OF fs_keeps_remove(1) fs_keeps_remove(2)]
  by (auto simp: examine_log_def BUFSIZ_def split_beta Let_def split: option.splits if_splits)

lemma tampered_log_safe:
  assumes "steady g0 g" "logtofile (opts g0)" "closes h g0" "length msg \<le> BUFSIZ"
  shows "safely (bindM (log_message h msg) (\<lambda>_.
           bindM append_tampered (\<lambda>_ g.
           bindM (recoverfile h (logFile g) (logFileName g)) (\<lambda>recovered.
           bindM (log_message h (if \<not> recovered then MSG_LOST
                else MSG_RECOVERED)) (\<lambda>_ g.
           (Inr True, g\<lparr>files := sys_close (logFile g) (files g)\<rparr>))) g)))
     (\<lambda>_ g. w2s_inv (syslogs g) \<and> opts g = opts g0) g"
  unfolding safely_bind
proof (rule safely_mono [OF log_message_safe [OF assms(1,4)]])
  show mem: "malloc_ok h = (\<lambda>_. True)" using assms(3) by (simp add: closes_def)
  fix t assume t: "steady g0 t"
  let ?p = "logFileName t @ ''.tampered''"
  define g1 where "g1 = t\<lparr>logFileName := ?p\<rparr>"
  have v: "opts t = opts g0" "logFileName t = logFileName g0" "logFile t = logFile g0"
    using t same_vars_simps [of g0 t] by (simp_all add: steady_def)
  have "closes h t" using assms(3) closes_steady [OF t] by simp
  then have len: "length (logFileName t) + 10 \<le> MAXPATHLEN - 9" and "errno_ok ?p (files t)"
    by (simp_all add: closes_def MAXPATHLEN_def)
  then have g1: "steady g1 g1" "logtofile (opts g1)" "errno_ok (logFileName g1) (files g1)"
    using t assms(2) v by (simp_all add: g1_def steady_def sound_def)
  have "safely (recoverfile h (logFile g1) (logFileName g1))
     (\<lambda>a. safely (log_message h (if \<not> a then MSG_LOST else MSG_RECOVERED))
       (\<lambda>_ g. w2s_inv (syslogs g) \<and> opts g = opts g0)) g1"
  proof (rule safely_mono [OF recoverfile_safe [OF g1 mem]])
    fix a :: bool and u assume u: "steady g1 u"
    have "length (if \<not> a then MSG_LOST else MSG_RECOVERED) \<le> BUFSIZ"
      using msg_lengths by (auto simp: BUFSIZ_def)
    from log_message_safe [OF u this mem] show "safely (log_message h (if \<not> a then MSG_LOST else MSG_RECOVERED))
       (\<lambda>_ g. w2s_inv (syslogs g) \<and> opts g = opts g0) u"
      by (rule safely_mono)
        (use v same_vars_simps(1) [of g1] in \<open>auto simp: steady_def sound_def g1_def\<close>)
  qed
  moreover have "append_tampered t = (Inr (), g1)"
    using len by (simp add: append_tampered_def g1_def)
  ultimately show "safely append_tampered (\<lambda>_. safely (\<lambda>g.
       bindM (recoverfile h (logFile g) (logFileName g)) (\<lambda>recovered.
           bindM (log_message h (if \<not> recovered then MSG_LOST
                else MSG_RECOVERED)) (\<lambda>_ g.
           (Inr True, g\<lparr>files := sys_close (logFile g) (files g)\<rparr>))) g)
     (\<lambda>_ g. w2s_inv (syslogs g) \<and> opts g = opts g0)) t"
    by (simp add: safely_result)
qed

lemma close_log_safe [safe]:
  assumes "steady g0 g" "logtofile (opts g0)" "closes h g0"
  shows "safely (close_log h) (\<lambda>_ g. w2s_inv (syslogs g) \<and> opts g = opts g0) g"
proof -
  have "safely (write_message h (closed_text h g)) (\<lambda>_. steady g0) g"
    using assms(1,3) closed_text_same [of g0 g h]
    by (intro write_message_safe) (auto simp: closes_def steady_def)
  then show ?thesis
    unfolding close_log_def safely_bind_at
  proof (rule safely_mono)
    fix n :: int and t assume t: "steady g0 t"
    obtain msg f where ex: "examine_log t = (msg, f)" by (cases "examine_log t")
    note keep = examine_keeps [OF ex]
    have v: "opts t = opts g0" "w2s_inv (syslogs t)"
      using t same_vars_simps(1) [of g0 t] by (auto simp: steady_def sound_def)
    from tampered_log_safe [OF steady_files [OF t conjunct1 [OF keep]] assms(2,3) conjunct2 [OF keep]] ex v
    show "safely (\<lambda>g. if n < 0 then (Inr False, print_error ''Error writing to logfile'' g)
       else
         let (msg, f) = examine_log g; g = g\<lparr>files := f\<rparr> in
         if msg \<noteq> [] then
           bindM (log_message h msg) (\<lambda>_.
           bindM append_tampered (\<lambda>_ g.
           bindM (recoverfile h (logFile g) (logFileName g)) (\<lambda>recovered.
           bindM (log_message h (if \<not> recovered then MSG_LOST
                else MSG_RECOVERED)) (\<lambda>_ g.
           (Inr True, g\<lparr>files := sys_close (logFile g) (files g)\<rparr>))) g)) g
         else
           let g = g\<lparr>files := sys_close (logFile g) (files g)\<rparr>;
               closedLogFileName = snprintf_text MAXPATHLEN (logFileName g @ ''.closed'') in
           (Inr True, g\<lparr>files := snd (sys_rename (logFileName g) closedLogFileName (files g))\<rparr>))
      (\<lambda>_ g. w2s_inv (syslogs g) \<and> opts g = opts g0) t"
      by (simp add: Let_def print_error_def)
  qed
qed

lemma endlogging_safe [safe]:
  assumes "steady g0 g" "logtofile (opts g0) \<longrightarrow> closes h g0" "malloc_ok h = (\<lambda>_. True)"
  shows "safely (endlogging h) (\<lambda>_ _. True) g"
proof -
  have v: "opts g = opts g0" "w2s_inv (syslogs g)"
    using assms(1) same_vars_simps(1) [of g0 g] by (auto simp: steady_def sound_def)
  have "safely (\<lambda>g. if logtofile (opts g) then close_log h g else (Inr True, g))
      (\<lambda>_ g. w2s_inv (syslogs g) \<and> opts g = opts g0) g"
    using close_log_safe [OF assms(1)] assms(2) v by simp
  then show ?thesis
    unfolding endlogging_def safely_bind
    by (rule safely_mono) (use assms(3) in \<open>auto simp: safely_def write2syslog_refines split: if_splits\<close>)
qed

section \<open>The session\<close>

lemma safely_in_core [simp]:
  "safely (in_core m) Q = (\<lambda>s. safely m (\<lambda>a g. Q a (s\<lparr>core := g\<rparr>)) (core s))"
  by (auto simp: fun_eq_iff safely_def in_core_def split: prod.splits sum.splits)

lemma wait_message_same: "same_vars g0 g \<Longrightarrow> wait_message r g = wait_message r g0"
  by (simp add: wait_message_def ended_by_user_def same_vars_simps split: wait_result.splits)

text \<open>The texts of error numbers that come with an event.\<close>

fun error_texts :: "wakeup \<Rightarrow> string list" where
  "error_texts (Select_Error err) = [err]"
| "error_texts Interrupted = []"
| "error_texts (Ready typed shown) = concat (map (\<lambda>x. case x of None \<Rightarrow> []
     | Some (Read_Error err, w) \<Rightarrow> [err] | Some (Data b, Write_Result n err) \<Rightarrow> [err]) [typed, shown])"

text \<open>What the events may not do: exhaust the memory or bring texts longer than the message
  buffers. Everything else is allowed: errors of every call, any signal, any tampering, a disk
  that fails and recovers at any time.\<close>

fun event_fits :: "rootsh \<Rightarrow> session_event \<Rightarrow> bool" where
  "event_fits g (Round t w) \<longleftrightarrow> malloc_ok (base t) = (\<lambda>_. True)
     \<and> (logtofile (opts g) \<longrightarrow> closes (base t) g)
     \<and> length (fst (wait_message (wait_result t) g)) \<le> BUFSIZ
     \<and> list_all (\<lambda>err. length err + 20 \<le> BUFSIZ) (error_texts w)"
| "event_fits g e = True"

lemma log_and_exit_safe:
  assumes "steady g0 (core s)" "length msg \<le> BUFSIZ" "malloc_ok h = (\<lambda>_. True)"
  shows "safely (log_and_exit h msg) Q s"
proof -
  have "safely (log_message h msg) (\<lambda>_ _. True) (core s)"
    by (rule safely_mono [OF log_message_safe [OF assms]]) simp
  then show ?thesis by (simp add: log_and_exit_def)
qed

lemma finish_safe:
  assumes "steady g0 (core s)" "event_fits g0 (Round t w)"
  shows "safely (finish t) Q s"
proof -
  define s1 where "s1 = (if isatty0 t then
      (if tcsetattr_error t \<noteq> None then s\<lparr>core := print_error ''tcsetattr: stdin'' (core s)\<rparr>
       else s\<lparr>tty := termParams s\<rparr>) else s)"
  have s1: "steady g0 (core s1)" using assms(1) by (simp add: s1_def steady_print)
  obtain msg code where m: "wait_message (wait_result t) (core s1) = (msg, code)" by fastforce
  have "wait_message (wait_result t) g0 = (msg, code)"
    using m s1 wait_message_same [of g0 "core s1" "wait_result t"] by (simp add: steady_def)
  then have "length msg \<le> BUFSIZ" using assms(2) by simp
  from log_message_safe [OF s1 this, of "base t"] assms(2)
  have "safely (log_message (base t) msg) (\<lambda>_. safely (endlogging (base t)) (\<lambda>_ _. True)) (core s1)"
    by (auto elim!: safely_mono intro!: endlogging_safe)
  moreover have "finish t s = bindM (in_core (log_message (base t) msg)) (\<lambda>_.
      bindM (in_core (endlogging (base t))) (\<lambda>_ s. (Inl (Exited code), s\<lparr>pty_open := False\<rparr>))) s1"
    using m by (simp add: finish_def s1_def [symmetric] Let_def)
  ultimately show ?thesis
    using safely_cong [where m = "finish t" and m' = "bindM (in_core (log_message (base t) msg)) (\<lambda>_.
      bindM (in_core (endlogging (base t))) (\<lambda>_ s. (Inl (Exited code), s\<lparr>pty_open := False\<rparr>)))"] by simp
qed

lemma safely_user_typed:
  "safely (user_typed h (Some (Read_Error err, w))) Q s = safely (log_and_exit h (''read - stdin: '' @ err)) Q s"
  "safely (user_typed h (Some (Data b, Write_Result n err'))) Q s =
     (if n \<noteq> int (length b) then safely (log_and_exit h (''write - pty: '' @ err')) Q (s\<lparr>to_pty := to_pty s @ written n b\<rparr>)
      else Q () (s\<lparr>to_pty := to_pty s @ written n b\<rparr>))"
  "safely (user_typed h None) Q s = Q () s"
  by (simp_all add: safely_def user_typed_def Let_def)

lemma safely_pty_output:
  "safely (pty_output h (Some (Read_Error err, w))) Q s = Q () s"
  "b \<noteq> [] \<Longrightarrow> safely (pty_output h (Some (Data b, Write_Result n err'))) Q s =
     safely (dologging h b (length b)) (\<lambda>_ g.
       let s = s\<lparr>core := g, from_pty := from_pty s @ b, to_screen := to_screen s @ written n b\<rparr> in
       if n < 0 then safely (log_and_exit h (''write - stdout: '' @ err')) Q s else Q () s) (core s)"
  "safely (pty_output h (Some (Data [], w))) Q s = Q () s"
  "safely (pty_output h None) Q s = Q () s"
  by (simp_all add: pty_output_def [abs_def] Let_def safely_def [of "\<lambda>s. (Inr (), s)"])
   (cases s; simp add: safely_def in_core_def bindM_def split: prod.splits sum.splits)

lemma user_typed_safe:
  assumes "steady g0 (core s)" "event_fits g0 (Round t (Ready typed shown))"
  shows "safely (user_typed (base t) typed) (\<lambda>_ s. steady g0 (core s)) s"
  using assms
  by (cases typed rule: bytes_passed.cases) (auto simp: safely_user_typed intro!: log_and_exit_safe)

lemma pty_output_safe:
  assumes "steady g0 (core s)" "event_fits g0 (Round t (Ready typed shown))"
  shows "safely (pty_output (base t) shown) (\<lambda>_ s. steady g0 (core s)) s"
proof (cases shown rule: bytes_passed.cases)
  case (1 b n err)
  show ?thesis
  proof (cases "b = []")
    case False
    have mem: "malloc_ok (base t) = (\<lambda>_. True)" using assms(2) by simp
    from dologging_safe [OF assms(1) le_refl this] show ?thesis
      unfolding 1 safely_pty_output(2) [OF False]
      by (rule safely_mono) (use assms(2) 1 in \<open>auto simp: Let_def intro!: log_and_exit_safe\<close>)
  qed (use assms(1) 1 in \<open>simp add: safely_pty_output\<close>)
qed (use assms(1) in \<open>simp_all add: safely_pty_output\<close>)

lemma loop_round_safe:
  assumes "steady g0 (core s)" "event_fits g0 (Round t w)"
  shows "safely (loop_round t w) (\<lambda>_ s. steady g0 (core s)) s"
proof -
  have "safely (\<lambda>s. case w of
         Select_Error err \<Rightarrow> log_and_exit (base t) (''select: '' @ err) s
       | Interrupted \<Rightarrow> (Inr (), s)
       | Ready typed shown \<Rightarrow>
           bindM (user_typed (base t) typed) (\<lambda>_. pty_output (base t) shown) s)
     (\<lambda>_ s. steady g0 (core s)) s"
  proof (cases w)
    case (Select_Error err)
    with assms log_and_exit_safe [of g0 s "''select: '' @ err" "base t"] show ?thesis by simp
  next
    case (Ready typed shown)
    with user_typed_safe [of g0 s t typed shown] assms pty_output_safe [of g0 _ t typed shown] show ?thesis
      by (auto elim!: safely_mono)
  qed (use assms in simp)
  then show ?thesis
    unfolding loop_round_def safely_bind
    by (rule safely_mono) (use finish_safe assms(2) in \<open>auto simp: Let_def\<close>)
qed

lemma signalHandler_steady: "steady g0 (core (signalHandler sig s)) \<longleftrightarrow> steady g0 (core s)"
  by (cases sig) (simp_all add: signalHandler_def steady_print)

lemma run_session_safe:
  "steady g0 (core s) \<Longrightarrow> list_all (event_fits g0) es \<Longrightarrow>
    safely (run_session es) (\<lambda>_ s. steady g0 (core s)) s"
proof (induction es arbitrary: s)
  case Nil
  then show ?case by (simp add: safely_def)
next
  case (Cons e es)
  show ?case
  proof (cases e)
    case (Signal sig)
    with Cons show ?thesis by (simp add: safely_def signalHandler_steady)
  next
    case (Others a)
    with Cons show ?thesis using steady_files [OF _ fs_keeps_user_step] by (simp add: safely_def)
  next
    case (Disk room)
    with Cons show ?thesis using steady_files [OF _ fs_keeps_disk] by (simp add: safely_def)
  next
    case (Round t w)
    have "safely (bindM (loop_round t w) (\<lambda>_. run_session es)) (\<lambda>_ s. steady g0 (core s)) s"
      unfolding safely_bind
      by (rule safely_mono [OF loop_round_safe]) (use Cons Round in auto)
    with Round show ?thesis by (simp add: safely_def)
  qed
qed

section \<open>Property\<close>

text \<open>C10: A session that starts in a sound state never goes wrong as long as there is memory, every text
  fits its buffer and, when the session ends, the log's name is at most \<open>MAXPATHLEN - 19\<close>
  characters long: no sequence of such events, signals, input, output, failing calls, failures of the
  disk and tampering, even with the log's contents, makes it read or write outside an array, follow a
  null pointer or hang; it goes on or exits.\<close>

theorem session_never_faults:
  assumes "sound (core s)" "list_all (event_fits (core s)) es" "run_session es s = (r, s')"
  shows "(r = Inr () \<and> sound (core s')) \<or> (\<exists>code. r = Inl (Exited code))"
  using safelyD [OF run_session_safe [of "core s" s es] assms(3)] assms(1,2)
  by (auto simp: steady_refl intro: steady_sound)

theorem session_never_faults_witness:
  "\<exists>r s. run_session [Disk (\<lambda>_. Some 1), Others (U_overwrite ''/l'' ''fake''), Signal SIGCHLD,
      Round sample_term (Ready None (Some (Data ''x'', Write_Result (-1) ''EIO'')))] running_session = (r, s)
    \<and> (r = Inr () \<or> (\<exists>code. r = Inl (Exited code)))"
proof -
  let ?es = "[Disk (\<lambda>_. Some 1), Others (U_overwrite ''/l'' ''fake''), Signal SIGCHLD,
      Round sample_term (Ready None (Some (Data ''x'', Write_Result (-1) ''EIO'')))]"
  have "sound (core running_session)" by (rule logging_sound [OF running_logging])
  moreover have "list_all (event_fits (core running_session)) ?es"
    by (simp add: sample_term_def running_session_def sample_session_def sample_rootsh_def wait_message_def closes_def closed_text_def ended_by_user_def
      CRLF_def tty_name_def sample_host_def errno_ok_def BUFSIZ_def MAXPATHLEN_def)
  ultimately show ?thesis
    using session_never_faults [of running_session ?es] by (metis surj_pair)
qed

end
