(* ===== verification/Program_Safety.thy ===== *)
theory Program_Safety
  imports Program Session_Safety
begin

text \<open>
  Nothing goes wrong from \<open>main\<close> on, when the host answers what the code relies on without
  looking: every user has an entry, the shells have a slash in their path, texts fit their buffers.
\<close>

section \<open>What the code relies on\<close>

text \<open>The answers of the host: memory, the user database and its consistency, short texts, and
  shells and an \<open>su\<close> given by paths.\<close>

definition dependable :: "main_host \<Rightarrow> bool" where
  "dependable M \<longleftrightarrow> (let h = base (the_term M) in
     malloc_ok h = (\<lambda>_. True)
     \<and> (\<forall>uid. uid = getuid h \<or> uid = geteuid h \<or> tty_owner h = Some uid \<longrightarrow> getpwuid h uid \<noteq> None)
     \<and> (\<forall>uid p n. getpwuid h uid = Some p \<longrightarrow> pw_name p = Some n \<longrightarrow> length n \<le> 255 \<and> getpwnam h n \<noteq> None)
     \<and> length (tty_name h) + length (ctime h) \<le> 1000
     \<and> HAS_ETC_SHELLS M \<and> (\<forall>s \<in> set (listed_shells (SHELLS_FILE h)). CHR ''/'' \<in> set s)
     \<and> CHR ''/'' \<in> set (SUCMD M)
     \<and> (case tcsetattr_error (the_term M) of None \<Rightarrow> True | Some err \<Rightarrow> length err \<le> 1000))"

text \<open>The variables when the program is started: nothing has been saved, read or logged.\<close>

definition pristine :: "rootsh \<Rightarrow> bool" where
  "pristine g \<longleftrightarrow> senv g = None \<and> shellstream (usershells g) = None \<and> fs_inv (files g) \<and> w2s_inv (syslogs g)"

text \<open>The configuration: the compiled default shell is a path, and so is any that the file sets; its
  lines can be read (a file that cannot be opened is fine).\<close>

definition well_configured :: "build \<Rightarrow> string option \<Rightarrow> bool" where
  "well_configured bld config \<longleftrightarrow> CHR ''/'' \<in> set (DEFAULTSHELL bld)
     \<and> (case config of None \<Rightarrow> True | Some f \<Rightarrow> list_all line_fine (config_lines f))"

text \<open>When the session is started, \<open>TERM\<close> is set and the default shell is a path.\<close>

definition startable :: "rootsh \<Rightarrow> bool" where
  "startable g \<longleftrightarrow> pristine g \<and> getenv (environ g) ''TERM'' \<noteq> None \<and> length (progName g) < MAXPATHLEN
     \<and> CHR ''/'' \<in> set (defaultshell (opts g))"

section \<open>The options\<close>

lemma option_argument:
  assumes "getopt_long P optstring long_options g = (Inr (char_int c), s)" "getopt_wf g"
    "c \<in> {CHR ''u'', CHR ''f'', CHR ''d''}"
  shows "optarg s \<noteq> None"
proof -
  have c: "char_int c \<notin> {- 1, 1}" "c \<noteq> CHR ''?''" "kind_of optstring c = Req_Arg"
    using assms(3) by (auto simp: char_int_def kind_of_def optstring_def c_at_def)
  from getopt_internal_decodes [OF assms(1) [unfolded getopt_long_def] assms(2) optstring_facts(1-3) c(1)]
  obtain k pe where k: "optind k < length (argv k)" "unread k \<noteq> []"
    "decode_element False pe True optstring (Some long_options) k = (Inr (char_int c), s)" .
  have "list_all (\<lambda>p. opt_flag p = None \<and> (opt_val p = char_int c \<longrightarrow> has_arg p = 1)) long_options"
    using assms(3) by (auto simp: long_options_def)
  with decode_optarg [OF k(3) optstring_facts(1) k(1,2) c(3,2)] show ?thesis
    by (simp add: optstring_def c_at_def)
qed

lemma option_switch_safe:
  assumes "getopt_long P optstring long_options g = (Inr c, s)" "getopt_wf g"
    "malloc_ok h = (\<lambda>_. True)" "startable (prog m)"
  shows "safely (option_switch b h c cmds) (\<lambda>_ m. startable (prog m)) (m\<lparr>scanner := s\<rparr>)"
proof -
  have "optarg s \<noteq> None" if "c \<in> char_int ` {CHR ''u'', CHR ''f'', CHR ''d''}"
    using option_argument [OF _ assms(2)] assms(1) that by blast
  with assms(3,4) show ?thesis
    by (auto simp: safely_def option_switch_def usage_def version_def collect_def consume_eq set_by_strdup_def
      strdup_def startable_def pristine_def split: option.splits)
qed

lemma option_loop_safe:
  "getopt_wf (scanner m) \<Longrightarrow> malloc_ok h = (\<lambda>_. True) \<Longrightarrow> startable (prog m) \<Longrightarrow>
    \<exists>r m'. option_loop b h cmds m = Some (r, m')
      \<and> ((\<exists>x. r = Inr x) \<and> startable (prog m') \<or> (\<exists>code. r = Inl (Exited code)))"
proof (induction "scan_left (scanner m)" arbitrary: cmds m rule: less_induct)
  case less
  let ?P = "getenv (environ (prog m)) ''POSIXLY_CORRECT''"
  obtain c s where c: "getopt_long ?P optstring long_options (scanner m) = (Inr c, s)"
    using getopt_internal_ok [OF less.prems(1) optstring_facts(1), of ?P True False "Some long_options"]
    by (auto simp: getopt_long_def)
  show ?case
  proof (cases "c = - 1")
    case True
    with c less.prems show ?thesis
      by (subst option_loop.simps) (simp add: collect_def consume_eq)
  next
    case False
    obtain r m' where r: "option_switch b h c cmds (m\<lparr>scanner := s\<rparr>) = (r, m')"
      by (cases "option_switch b h c cmds (m\<lparr>scanner := s\<rparr>)") auto
    note ok = option_switch_safe [OF c less.prems, of b cmds, THEN safelyD, OF r]
    show ?thesis
    proof (cases r)
      case (Inl e)
      with c r ok False show ?thesis by (subst option_loop.simps) auto
    next
      case (Inr cmds')
      from option_switch_progress [OF c less.prems(1) False r [unfolded Inr]] ok Inr
        less.hyps [of m' cmds'] less.prems(2)
      show ?thesis using c r False Inr by (subst option_loop.simps) auto
    qed
  qed
qed

section \<open>The preparation\<close>

text \<open>What is known of the variables between the steps of the preparation.\<close>

definition prepared :: "main_host \<Rightarrow> rootsh \<Rightarrow> bool" where
  "prepared M g \<longleftrightarrow> startable g \<and> length (userName g) \<le> 255
     \<and> getpwnam (base (the_term M)) (userName g) \<noteq> None"

lemma setupusername_safe:
  assumes "dependable M" "startable g"
  shows "safely (setupusername (base (the_term M)))
    (\<lambda>user g. startable g \<and> (\<forall>u. user = Some u \<longrightarrow> prepared M (g\<lparr>userName := u\<rparr>))) g"
proof -
  have "getpwuid (base (the_term M)) (geteuid (base (the_term M))) \<noteq> None"
    and users: "\<And>uid. tty_owner (base (the_term M)) = Some uid \<Longrightarrow> getpwuid (base (the_term M)) uid \<noteq> None"
    "\<And>uid p n. getpwuid (base (the_term M)) uid = Some p \<Longrightarrow> pw_name p = Some n \<Longrightarrow>
      length n \<le> 255 \<and> getpwnam (base (the_term M)) n \<noteq> None"
    using assms(1) unfolding dependable_def Let_def by blast+
  then obtain p where p: "getpwuid (base (the_term M)) (geteuid (base (the_term M))) = Some p" by auto
  have named: "startable (g\<lparr>userName := u\<rparr>) = startable g" "startable (print_error e g) = startable g" for u e
    by (simp_all add: startable_def pristine_def print_error_def)
  show ?thesis
  proof (cases "pw_name p")
    case None
    show ?thesis
    proof (cases "ttyname0 (base (the_term M)) = None \<or> tty_owner (base (the_term M)) = None")
      case True
      with p None assms(2) named show ?thesis
        by (auto simp: safely_def setupusername_def split: option.splits)
    next
      case False
      then obtain uid q where "ttyname0 (base (the_term M)) \<noteq> None" "tty_owner (base (the_term M)) = Some uid"
        "getpwuid (base (the_term M)) uid = Some q" using users(1) by auto
      with p None assms(2) named users(2) [of uid q] show ?thesis
        by (cases "pw_name q") (simp_all add: safely_def setupusername_def prepared_def)
    qed
  next
    case (Some n)
    with p assms(2) users(2) named show ?thesis
      by (auto simp: safely_result setupusername_def prepared_def)
  qed
qed

lemma setupusermode_safe:
  assumes "dependable M" "prepared M g"
  shows "safely (setupusermode (base (the_term M))) (\<lambda>ok g'. ok \<longrightarrow>
    length (progName g') < MAXPATHLEN \<and> shellstream (usershells g') = None \<and> opts g' = opts g
    \<and> fs_inv (files g') \<and> w2s_inv (syslogs g') \<and> userName g' = userName g
    \<and> (case runAsUser g' of None \<Rightarrow> True | Some u \<Rightarrow> length u \<le> 64)) g"
proof (cases "\<exists>user. runAsUser g = Some user \<and> length user \<le> 64 \<and> getpwnam (base (the_term M)) user \<noteq> None")
  case True
  then obtain user v where u: "runAsUser g = Some user" "length user \<le> 64"
    "getpwnam (base (the_term M)) user \<noteq> None" "getenv (environ g) ''TERM'' = Some v"
    using assms(2) by (auto simp: prepared_def startable_def pristine_def)
  have mem: "malloc_ok (base (the_term M)) = (\<lambda>_. True)" "senv g = None"
    using assms by (simp_all add: dependable_def prepared_def startable_def pristine_def Let_def)
  define e where "e = ''TERM'' @ ''='' @ v"
  define g1 where "g1 = g\<lparr>senv := Some [Str e, Null_Ptr], senvp := 1\<rparr>"
  have save: "saveenv (base (the_term M)) ''TERM'' g = (Inr (Some [Str e, Null_Ptr]), g1)"
    unfolding g1_def e_def by (rule saveenv_first [OF u(4) mem(2,1)])
  have rest: "restoreenv (clearenv g1) = (Inr (), (clearenv g1)\<lparr>environ := [e]\<rparr>)"
    by (rule restoreenv_single) (simp_all add: g1_def clearenv_def)
  have "setupusermode (base (the_term M)) g = (Inr True, (clearenv g1)\<lparr>environ := [e]\<rparr>)"
    using u(1-3) by (simp add: setupusermode_def bindM_def save rest)
  with u(1,2) assms(2) show ?thesis
    by (simp add: safely_result g1_def clearenv_def prepared_def startable_def pristine_def)
next
  case False
  with assms(2) show ?thesis
    by (auto simp: setupusermode_def safely_def prepared_def startable_def pristine_def split: option.splits)
qed

lemma setupshell_safe:
  assumes "dependable M" "getpwnam (base (the_term M)) (userName g) \<noteq> None"
    "shellstream (usershells g) = None" "CHR ''/'' \<in> set (defaultshell (opts g))"
  shows "safely (setupshell (HAS_ETC_SHELLS M) (base (the_term M)))
    (\<lambda>shell g'. undisturbed g g' \<and> progName g' = progName g \<and> userName g' = userName g
      \<and> (\<forall>s. shell = Some s \<longrightarrow> CHR ''/'' \<in> set s)) g"
proof -
  let ?h = "base (the_term M)"
  have M: "HAS_ETC_SHELLS M" "malloc_ok ?h = (\<lambda>_. True)"
    "\<And>s. s \<in> set (listed_shells (SHELLS_FILE ?h)) \<Longrightarrow> CHR ''/'' \<in> set s"
    using assms(1) by (auto simp: dependable_def Let_def)
  have valid: "CHR ''/'' \<in> set shell" if "shell_is_valid (SHELLS_FILE ?h) shell (usershells g) = (True, us)" for shell us
    using shell_valid_listed [of "SHELLS_FILE ?h" "usershells g" shell] assms(3) M(3) that by simp
  have d: "defaultshell (opts g) \<noteq> []" using assms(4) by auto
  show ?thesis
    using assms(2,4) M(1,2) d valid
    by (auto simp: safely_def setupshell_def getDefaultshell_def Let_def undisturbed_def print_error_def
      split: option.splits prod.splits)
qed

lemma log_message_sound:
  assumes "sound g" "length m \<le> BUFSIZ" "malloc_ok h = (\<lambda>_. True)"
  shows "safely (log_message h m) (\<lambda>_. sound) g"
  using log_message_safe [of g g m h] assms by (auto simp: steady_refl elim!: safely_mono dest: steady_sound)

lemma open_log_safe:
  assumes "fs_inv (files g)" "w2s_inv (syslogs g)" "length (progName g) < MAXPATHLEN"
    "length (userName g) \<le> 255" "length (str_arg user) \<le> 255"
    "length (tty_name h) + length (ctime h) \<le> 1000"
  shows "safely (open_log h user) (\<lambda>ok g'. ok \<longrightarrow> sound g') g"
proof -
  obtain r f where o: "sys_open (choose_log_name h g) True (files g) = (r, f)"
    by (cases "sys_open (choose_log_name h g) True (files g)")
  note keep = sys_open_keeps [OF o assms(1)]
  show ?thesis
  proof (cases r)
    case (Inl e)
    with o show ?thesis by (simp add: safely_def open_log_def Let_def)
  next
    case (Inr fd)
    with keep obtain i where fd: "fds f fd = Some \<lparr>fd_ino = i, fd_off = 0, fd_append = True\<rparr>" by auto
    define g2 where "g2 = g\<lparr>logFileName := choose_log_name h g, files := f, logFile := fd, logInode := snd i, logDev := fst i\<rparr>"
    have "sound g2" using fd keep assms(1,2) by (simp add: g2_def sound_def fs_keeps_def)
    moreover have "length (opened_text h user g2) \<le> BUFSIZ"
      using assms(3-6) by (simp add: opened_text_def login_text_def g2_def BUFSIZ_def MAXPATHLEN_def)
    ultimately have "safely (write_message h (opened_text h user g2)) (\<lambda>_. sound) g2"
      using safely_mono [OF write_message_safe [of g2 g2]] steady_refl steady_sound by metis
    then have "safely (bindM (write_message h (opened_text h user g2)) (\<lambda>n g.
        if n < 0 then (Inr False, print_error (logFileName g) g) else (Inr True, g))) (\<lambda>ok g'. ok \<longrightarrow> sound g') g2"
      by (auto elim: safely_mono)
    moreover have eq: "open_log h user g = bindM (write_message h (opened_text h user g2)) (\<lambda>n g.
        if n < 0 then (Inr False, print_error (logFileName g) g) else (Inr True, g)) g2"
      using Inr o fd by (simp add: open_log_def g2_def sys_fstat_def Let_def)
    ultimately show ?thesis unfolding safely_def eq by blast
  qed
qed

lemma beginlogging_safe:
  assumes "dependable M" "fs_inv (files g)" "w2s_inv (syslogs g)" "length (progName g) < MAXPATHLEN"
    "length (userName g) \<le> 255" "case runAsUser g of None \<Rightarrow> True | Some u \<Rightarrow> length u \<le> 64"
    "case cmds of None \<Rightarrow> True | Some c \<Rightarrow> length c + 20 \<le> BUFSIZ"
  shows "safely (beginlogging (base (the_term M)) cmds) (\<lambda>ok g'. ok \<longrightarrow> sound g') g"
proof -
  let ?h = "base (the_term M)"
  have M: "malloc_ok ?h = (\<lambda>_. True)" "getpwuid ?h (getuid ?h) \<noteq> None"
    "\<And>uid p n. getpwuid ?h uid = Some p \<Longrightarrow> pw_name p = Some n \<Longrightarrow> length n \<le> 255"
    "length (tty_name ?h) + length (ctime ?h) \<le> 1000"
    using assms(1) unfolding dependable_def Let_def by blast+
  obtain user where user: "(case runAsUser g of Some u \<Rightarrow> Some (Some u)
      | None \<Rightarrow> map_option pw_name (getpwuid ?h (getuid ?h))) = Some user" "length (str_arg user) \<le> 255"
  proof (cases "runAsUser g")
    case None
    obtain p where p: "getpwuid ?h (getuid ?h) = Some p" using M(2) by blast
    have "length (str_arg (pw_name p)) \<le> 255"
      using M(3) [OF p] by (cases "pw_name p") (auto simp: str_arg_def)
    with that p None show ?thesis by simp
  next
    case (Some u)
    with that assms(6) show ?thesis by (simp add: str_arg_def)
  qed
  have start: "safely (\<lambda>g. if logtofile (opts g) then open_log ?h user g else (Inr True, g)) (\<lambda>ok g'. ok \<longrightarrow> sound g') g"
    using open_log_safe [OF assms(2-5) user(2) M(4)] assms(3) by (simp add: sound_def)
  have syslog: "sound (if logtosyslog (opts g') then open_syslog ?h user g' else g')" if "sound g'" for g'
    using that by (simp add: sound_def open_syslog_def Let_def)
  have log: "safely (\<lambda>g. if \<not> ok then (Inr False, g)
      else let g = (if logtosyslog (opts g) then open_syslog ?h user g else g) in
        case cmds of None \<Rightarrow> (Inr True, g)
        | Some c \<Rightarrow> bindM (log_message ?h (''shell commands: '' @ c @ [LF])) (\<lambda>_ g. (Inr True, g)) g)
      (\<lambda>ok g'. ok \<longrightarrow> sound g') g'" if ok: "ok \<longrightarrow> sound g'" for ok g'
  proof (cases cmds)
    case None
    with ok syslog [of g'] show ?thesis by (simp add: Let_def)
  next
    case (Some c)
    have "length (''shell commands: '' @ c @ [LF]) \<le> BUFSIZ" using assms(7) Some by simp
    then have "safely (log_message ?h (''shell commands: '' @ c @ [LF])) (\<lambda>_. sound)
        (if logtosyslog (opts g') then open_syslog ?h user g' else g')" if ok
      using that ok log_message_sound [OF syslog _ M(1)] by blast
    with Some show ?thesis by (simp add: Let_def)
  qed
  from start have "safely (bindM (\<lambda>g. if logtofile (opts g) then open_log ?h user g else (Inr True, g))
      (\<lambda>ok g. if \<not> ok then (Inr False, g)
      else let g = (if logtosyslog (opts g) then open_syslog ?h user g else g) in
        case cmds of None \<Rightarrow> (Inr True, g)
        | Some c \<Rightarrow> bindM (log_message ?h (''shell commands: '' @ c @ [LF])) (\<lambda>_ g. (Inr True, g)) g))
    (\<lambda>ok g'. ok \<longrightarrow> sound g') g"
    unfolding safely_bind by (rule safely_mono) (rule log)
  then show ?thesis
    using user(1) unfolding safely_def beginlogging_def by simp
qed

lemma prepare_session_safe:
  assumes "dependable M" "startable g" "case cmds of None \<Rightarrow> True | Some c \<Rightarrow> length c + 20 \<le> BUFSIZ"
  shows "safely (prepare_session (HAS_ETC_SHELLS M) (base (the_term M)) cmds)
    (\<lambda>shell g'. CHR ''/'' \<in> set shell \<and> sound g') g"
proof -
  let ?h = "base (the_term M)" and ?Q = "\<lambda>shell g'. CHR ''/'' \<in> set shell \<and> sound g'"
  let ?fail = "\<lambda>g :: rootsh. (Inl (Exited EXIT_FAILURE) :: stop + string, g)"
  let ?log = "\<lambda>shell g. bindM (beginlogging ?h cmds) (\<lambda>ok g. if \<not> ok then ?fail g else (Inr shell, g)) g"
  let ?shell = "\<lambda>g. bindM (setupshell (HAS_ETC_SHELLS M) ?h) (\<lambda>shell g.
      case shell of None \<Rightarrow> ?fail g | Some shell \<Rightarrow> ?log shell g) g"
  let ?mode = "\<lambda>g. bindM (setupusermode ?h) (\<lambda>ok g. if \<not> ok then ?fail g else ?shell g) g"
  have log: "safely (?log shell) ?Q g"
    if "CHR ''/'' \<in> set shell" "fs_inv (files g)" "w2s_inv (syslogs g)" "length (progName g) < MAXPATHLEN"
      "length (userName g) \<le> 255" "case runAsUser g of None \<Rightarrow> True | Some u \<Rightarrow> length u \<le> 64" for shell g
    using beginlogging_safe [OF assms(1) that(2-6) assms(3)] that(1) by (auto elim!: safely_mono)
  have shell: "safely ?shell ?Q g"
    if g: "getpwnam ?h (userName g) \<noteq> None" "shellstream (usershells g) = None"
      "CHR ''/'' \<in> set (defaultshell (opts g))" "fs_inv (files g)" "w2s_inv (syslogs g)"
      "length (progName g) < MAXPATHLEN" "length (userName g) \<le> 255"
      "case runAsUser g of None \<Rightarrow> True | Some u \<Rightarrow> length u \<le> 64" for g
    unfolding safely_bind_at
  proof (rule safely_mono [OF setupshell_safe [OF assms(1) g(1-3)]])
    fix x :: "string option" and t :: rootsh
    assume "undisturbed g t \<and> progName t = progName g \<and> userName t = userName g \<and> (\<forall>s. x = Some s \<longrightarrow> CHR ''/'' \<in> set s)"
    with log [of _ t] g show "safely (\<lambda>g. case x of None \<Rightarrow> ?fail g | Some shell \<Rightarrow> ?log shell g) ?Q t"
      by (cases x) (simp_all add: undisturbed_def)
  qed
  have mode: "safely ?mode ?Q g" if g: "prepared M g" for g
    unfolding safely_bind_at
  proof (rule safely_mono [OF setupusermode_safe [OF assms(1) g]])
    fix ok :: bool and t :: rootsh
    assume "ok \<longrightarrow> length (progName t) < MAXPATHLEN \<and> shellstream (usershells t) = None \<and> opts t = opts g
      \<and> fs_inv (files t) \<and> w2s_inv (syslogs t) \<and> userName t = userName g
      \<and> (case runAsUser t of None \<Rightarrow> True | Some u \<Rightarrow> length u \<le> 64)"
    with shell [of t] g show "safely (\<lambda>g. if \<not> ok then ?fail g else ?shell g) ?Q t"
      unfolding prepared_def startable_def pristine_def by (cases ok) auto
  qed
  define sid where "sid = snprintf_text (MAXPATHLEN + 11)
      (name_without_dash (progName g) @ ''['' @ pad0 5 (getpid ?h) @ '']'')"
  define g1 where "g1 = g\<lparr>sessionId := sid, environ := putenv
      (snprintf_text (MAXPATHLEN + 11 + 17) (''ROOTSH_SESSIONID='' @ sid)) (environ g)\<rparr>"
  define g2 where "g2 = g1\<lparr>standalone := getenv (environ g1) ''SUDO_USER'' = None\<rparr>"
  have "length sid < MAXPATHLEN + 11" unfolding sid_def by (rule length_snprintf_text) simp
  then have "startable g2"
    using assms(2) getenv_putenv_other [of "''ROOTSH_SESSIONID='' @ sid" "''TERM''"]
    by (simp add: startable_def pristine_def g2_def g1_def env_name_def)
  have "safely (bindM (setupusername ?h) (\<lambda>user g.
      case user of None \<Rightarrow> ?fail g | Some user \<Rightarrow> let g = g\<lparr>userName := user\<rparr> in ?mode g)) ?Q g2"
    unfolding safely_bind
  proof (rule safely_mono [OF setupusername_safe [OF assms(1) \<open>startable g2\<close>]])
    fix user :: "string option" and t :: rootsh
    assume "startable t \<and> (\<forall>u. user = Some u \<longrightarrow> prepared M (t\<lparr>userName := u\<rparr>))"
    with mode [of "t\<lparr>userName := the user\<rparr>"]
    show "safely (\<lambda>g. case user of None \<Rightarrow> ?fail g
        | Some user \<Rightarrow> let g = g\<lparr>userName := user\<rparr> in ?mode g) ?Q t"
      by (cases user) (simp_all add: Let_def)
  qed
  then show ?thesis
    unfolding safely_def prepare_session_def Let_def sid_def g1_def g2_def by simp
qed

section \<open>Starting and watching\<close>

lemma exec_args_total:
  assumes "CHR ''/'' \<in> set shell" "CHR ''/'' \<in> set su"
  shows "\<exists>x. exec_args su shell cmds g = Inr x"
proof -
  have i: "\<exists>i. c_index s (CHR ''/'') = Some i" and r: "\<exists>t. after_last_slash s = Inr t"
    if "CHR ''/'' \<in> set s" for s
    using that by (auto simp: after_last_slash_def c_rindex_None_iff simp flip: not_None_eq split: option.splits)
  have "CHR ''/'' \<in> set (if runAsUser g \<noteq> None then su else shell)" using assms by simp
  from i [OF this] r [OF this] show ?thesis
    by (auto simp: exec_args_def Let_def split: option.splits)
qed

lemma forkpty_returns: "\<exists>r s'. forkpty a t p nm tm (Some w) s = (Inr r, s')"
  by (auto simp: forkpty_def Let_def split: option.splits fork_result.splits prod.splits)

lemma enter_session_safe:
  assumes "dependable M" "sound (core s)"
  shows "safely (enter_session (the_term M)) (\<lambda>_ s. sound (core s)) s"
proof -
  let ?s = "s\<lparr>newTty := raw_tty (termParams s)\<rparr>"
  show ?thesis
  proof (cases "isatty0 (the_term M) \<and> tcsetattr_error (the_term M) \<noteq> None")
    case True
    then obtain err where err: "isatty0 (the_term M)" "tcsetattr_error (the_term M) = Some err" by auto
    then have fit: "length (''tcsetattr on stdin: '' @ err) \<le> BUFSIZ" "malloc_ok (base (the_term M)) = (\<lambda>_. True)"
      using assms(1) by (simp_all add: dependable_def Let_def BUFSIZ_def)
    have "steady (core s) (core ?s)" using assms(2) by (simp add: steady_refl)
    from log_and_exit_safe [OF this fit]
    have "safely (bindM (log_and_exit (base (the_term M)) (''tcsetattr on stdin: '' @ err))
        (\<lambda>_ s. (Inr (), setupSignalHandlers s))) (\<lambda>_ s. sound (core s)) ?s" by simp
    moreover have eq: "enter_session (the_term M) s = bindM (log_and_exit (base (the_term M))
        (''tcsetattr on stdin: '' @ err)) (\<lambda>_ s. (Inr (), setupSignalHandlers s)) ?s"
      using err by (simp add: enter_session_def bindM_def)
    ultimately show ?thesis unfolding safely_def eq by blast
  next
    case False
    then have "\<exists>s'. enter_session (the_term M) s = (Inr (), s') \<and> core s' = core s"
      by (cases "isatty0 (the_term M)") (auto simp: enter_session_def bindM_def setupSignalHandlers_def Let_def)
    with assms(2) show ?thesis by (auto simp: safely_def)
  qed
qed

lemma start_session_safe:
  assumes "dependable M" "startable g" "case cmds of None \<Rightarrow> True | Some c \<Rightarrow> length c + 20 \<le> BUFSIZ"
  shows "safely (start_session M cmds) (\<lambda>x _. \<forall>s. x = Watches s \<longrightarrow> sound (core s)) g"
  unfolding start_session_def safely_bind
proof (rule safely_mono [OF prepare_session_safe [OF assms]])
  fix shell t assume t: "CHR ''/'' \<in> set shell \<and> sound t"
  let ?f = "forkpty (AIX_COMPAT M) (HAVE_TTCOMPAT M) (the_pty M) False (Some (term_now M)) (Some (size_now M))
     \<lparr>open_fds = fds_now M, slave_modes = None, slave_winsize = None, std_fds = [], session_leader = False, vars = t\<rparr>"
  obtain pid master nm s where f: "?f = (Inr (pid, master, nm), s)" using forkpty_returns by (metis prod_cases3)
  have "CHR ''/'' \<in> set (SUCMD M)" using assms(1) by (simp add: dependable_def Let_def)
  with t obtain x where x: "exec_args (SUCMD M) shell cmds (vars s) = Inr x" using exec_args_total by blast
  have "sound (core (initial_session M (vars s)))" if "0 < pid"
    using forkpty_vars [OF f] that t by (simp add: initial_session_def)
  from enter_session_safe [OF assms(1) this] show "safely (\<lambda>g. case forkpty (AIX_COMPAT M) (HAVE_TTCOMPAT M)
      (the_pty M) False (Some (term_now M)) (Some (size_now M))
      \<lparr>open_fds = fds_now M, slave_modes = None, slave_winsize = None, std_fds = [], session_leader = False, vars = g\<rparr> of
         (Inl e, s) \<Rightarrow> (Inl e, vars s)
       | (Inr (childPid, master, name), s) \<Rightarrow>
           if childPid < 0 then (Inl (Exited EXIT_FAILURE), print_error ''forkpty'' (vars s))
           else if childPid = 0 then
             (case execShell (exec_ok M) (SUCMD M) shell cmds (vars s) of
                (Inl e, g) \<Rightarrow> (Inl e, g)
              | (Inr (path, args), g) \<Rightarrow> (Inr (Runs path args), g))
           else
             (case enter_session (the_term M) (initial_session M (vars s)) of
                (Inl e, s) \<Rightarrow> (Inl e, core s)
              | (Inr u, s) \<Rightarrow> (Inr (Watches s), core s))) (\<lambda>x _. \<forall>s. x = Watches s \<longrightarrow> sound (core s)) t"
    using f x by (auto simp: safely_def execShell_def split: prod.splits sum.splits)
qed

lemma load_settings_vars:
  "load_settings bld h config g = (r, g') \<Longrightarrow> senv g' = senv g \<and> usershells g' = usershells g
    \<and> files g' = files g \<and> syslogs g' = syslogs g \<and> environ g' = environ g"
  by (auto simp: load_settings_def print_error_def Let_def split: sum.splits prod.splits if_splits)

lemma load_settings_safe:
  assumes "well_configured bld config" "malloc_ok h = (\<lambda>_. True)"
  shows "safely (load_settings bld h config) (\<lambda>_ g. CHR ''/'' \<in> set (defaultshell (opts g))) g"
proof (cases "compiled_settings bld")
  case (Inl e)
  then have "e = Exited EXIT_FAILURE" by (auto simp: compiled_settings_def Let_def split: if_splits)
  with Inl show ?thesis by (simp add: safely_def load_settings_def)
next
  case (Inr st)
  then have "defaultshell st = DEFAULTSHELL bld" by (auto simp: compiled_settings_def Let_def split: if_splits)
  then have "CHR ''/'' \<in> set (defaultshell st)" using assms(1) by (simp add: well_configured_def)
  moreover from this obtain st' errs where "readConfigFile (\<lambda>_. True) config st = Inr (True, st', errs)"
    "CHR ''/'' \<in> set (defaultshell st')"
    using config_loop_fine [of _ st "[]"] assms(1)
    by (cases config) (fastforce simp: readConfigFile_def well_configured_def)+
  ultimately show ?thesis using Inr assms(2) by (simp add: safely_def load_settings_def Let_def)
qed

lemma read_options_safe:
  assumes "getopt_wf (scanner m)" "pristine (prog m)" "getenv (environ (prog m)) ''TERM'' \<noteq> None"
    "malloc_ok h = (\<lambda>_. True)" "well_configured bld config"
  shows "\<exists>r m1. read_options bld b h config m = Some (r, m1)
    \<and> ((\<exists>x. r = Inr x) \<and> startable (prog m1) \<or> (\<exists>code. r = Inl (Exited code)))"
proof (cases "load_settings bld h config (prog m)")
  case (Pair r g)
  note load = load_settings_safe [OF assms(5,4), of "prog m"]
  show ?thesis
  proof (cases r)
    case (Inl e)
    with Pair load show ?thesis by (auto simp: read_options_def safely_def)
  next
    case (Inr u)
    from load_settings_vars [OF Pair] Pair Inr assms(2,3) load
    have "startable (name_program (argv (scanner m)) g)"
      by (simp add: startable_def pristine_def name_program_def safely_def MAXPATHLEN_def)
    with option_loop_safe [of "m\<lparr>prog := name_program (argv (scanner m)) g\<rparr>" h b None] Pair Inr assms(1,4)
    show ?thesis by (simp add: read_options_def)
  qed
qed

section \<open>Property\<close>

text \<open>C5: The program never goes wrong under the conditions it relies on without looking: a dependable
  host (memory, a consistent user database with names of at most 255 characters, short answers, a
  shells file in use whose shells are paths, a path for \<open>su\<close>), \<open>TERM\<close> set, a default
  shell that is a path and a configuration file without an assignment that has an empty side, and
  commands that fit the message buffer. Then \<open>main\<close> ends for every command line and every state
  of the files, by exiting, by running a program, or in a session which no sequence of events whose
  texts and names fit their buffers can make read or write outside an array, follow a null pointer or
  hang. (Without them it can fault: without \<open>TERM\<close>, on an empty value, on a log name and on
  commands that are too long, as shown with these components.)\<close>

theorem program_never_faults:
  assumes "getopt_wf (scanner m)" "pristine (prog m)" "getenv (environ (prog m)) ''TERM'' \<noteq> None" "dependable M"
    "well_configured bld config"
    "\<forall>c m1. read_options bld b (base (the_term M)) config m = Some (Inr (Some c), m1) \<longrightarrow> length c + 20 \<le> BUFSIZ"
  shows "\<exists>r m'. rootsh_main bld b M config m = Some (r, m') \<and> (case r of
      Inl e \<Rightarrow> \<exists>code. e = Exited code
    | Inr (Runs path args) \<Rightarrow> True
    | Inr (Watches s) \<Rightarrow> \<forall>es. list_all (event_fits (core s)) es \<longrightarrow>
        (\<exists>s'. run_session es s = (Inr (), s') \<or> (\<exists>code. run_session es s = (Inl (Exited code), s'))))"
proof -
  let ?h = "base (the_term M)"
  have mem: "malloc_ok ?h = (\<lambda>_. True)" using assms(4) by (simp add: dependable_def Let_def)
  from read_options_safe [OF assms(1-3) mem assms(5)] obtain r m1 where m1: "read_options bld b ?h config m = Some (r, m1)"
    "(\<exists>x. r = Inr x) \<and> startable (prog m1) \<or> (\<exists>code. r = Inl (Exited code))" by blast
  show ?thesis
  proof (cases r)
    case (Inl e)
    with m1 show ?thesis by (simp add: rootsh_main_def)
  next
    case (Inr cmds)
    have "case cmds of None \<Rightarrow> True | Some c \<Rightarrow> length c + 20 \<le> BUFSIZ"
      using assms(6) m1(1) Inr by (cases cmds) auto
    from start_session_safe [OF assms(4) _ this] m1 Inr
    have "safely (start_session M cmds) (\<lambda>x _. \<forall>s. x = Watches s \<longrightarrow> sound (core s)) (prog m1)" by auto
    moreover obtain x g where x: "start_session M cmds (prog m1) = (x, g)"
      by (cases "start_session M cmds (prog m1)")
    ultimately have r: "(\<exists>y. x = Inr y \<and> (\<forall>s. y = Watches s \<longrightarrow> sound (core s))) \<or> (\<exists>code. x = Inl (Exited code))"
      using safelyD by fastforce
    have run: "\<exists>s'. run_session es s = (Inr (), s') \<or> (\<exists>code. run_session es s = (Inl (Exited code), s'))"
      if "sound (core s)" "list_all (event_fits (core s)) es" for es s
      using run_session_safe [of "core s" s es] that safelyD [of "run_session es" _ s]
      by (cases "run_session es s") (fastforce simp: steady_refl)
    have "rootsh_main bld b M config m = Some (x, m1\<lparr>prog := g\<rparr>)"
      using m1(1) Inr x by (simp add: rootsh_main_def)
    with r run show ?thesis by (auto split: main_end.splits)
  qed
qed

theorem program_never_faults_witness:
  "\<exists>s m r s'. rootsh_main linux_build sample_names sample_program None (sample_main []) = Some (Inr (Watches s), m)
    \<and> run_session [Others (U_overwrite sample_log ''fake''), Signal SIGCHLD, Round sample_term Interrupted] s = (r, s')
    \<and> (r = Inr () \<or> (\<exists>code. r = Inl (Exited code)))"
proof -
  let ?es = "[Others (U_overwrite sample_log ''fake''), Signal SIGCHLD, Round sample_term Interrupted]"
  obtain s m where run: "rootsh_main linux_build sample_names sample_program None (sample_main []) = Some (Inr (Watches s), m)"
    "logFileName (core s) = sample_log" "progName (core s) = ''rootsh''" "userName (core s) = ''root''"
    "open_error (files (core s)) = (\<lambda>_. None)"
    using sample_runs by blast
  have start: "getopt_wf (scanner (sample_main []))" "pristine (prog (sample_main []))"
    "getenv (environ (prog (sample_main []))) ''TERM'' \<noteq> None"
    using fs_inv_sample(1) init_w2s_inv
    by (simp_all add: sample_main_def pristine_def startable_def sample_rootsh_def init_shells_def)
  have host: "dependable sample_program"
    by (auto simp: dependable_def sample_host_def sample_program_def sample_term_def root_entry_def tty_name_def
      listed_shells_def ISSPACE_def Let_def split: if_splits)
  have load: "well_configured linux_build None"
    by (simp add: well_configured_def linux_build_def)
  have opt: "\<forall>c m1. read_options linux_build sample_names (base (the_term sample_program)) None (sample_main [])
      = Some (Inr (Some c), m1) \<longrightarrow> length c + 20 \<le> BUFSIZ"
    using sample_reads [of "[]" "[]" "[]"] by (auto simp: scan.simps)
  have "list_all (event_fits (core s)) ?es"
    using run(2-5) by (simp add: sample_term_def closes_def closed_text_def ended_by_user_def wait_message_def
      CRLF_def tty_name_def sample_host_def errno_ok_def sample_log_def BUFSIZ_def MAXPATHLEN_def)
  moreover from program_never_faults [OF start host load opt] run(1) have
    "\<forall>es. list_all (event_fits (core s)) es \<longrightarrow>
        (\<exists>s'. run_session es s = (Inr (), s') \<or> (\<exists>code. run_session es s = (Inl (Exited code), s')))" by simp
  ultimately show ?thesis using run(1) by blast
qed

end
