(* ===== verification/Parser_Test.thy ===== *)
theory Parser_Test
  imports Config_Parser
begin

text \<open>
  The test program of the configuration parser, \<^verbatim>\<open>test/testConfigParser.c\<close>, run on the model of
  the parser: every test with the text it prints, and the \<open>main\<close> that runs them.
\<close>

section \<open>The code\<close>

text \<open>A test returns whether it succeeded and what it printed; a fault ends the program.\<close>

type_synonym test = "fault + bool \<times> string"

definition quote :: "string \<Rightarrow> string" where
  "quote s = [CHR 0x27] @ s @ [CHR 0x27]"

text \<open>The common body of the two tests of trimming.\<close>

definition trim_test :: "(nat \<Rightarrow> bool) \<Rightarrow> string \<Rightarrow> string \<Rightarrow> test" where
  "trim_test malloc_ok line expected =
     bindR (trimWhitespace malloc_ok line) (\<lambda>actual.
       case actual of
         None \<Rightarrow> Inr (False, [])
       | Some actual \<Rightarrow>
           if expected = actual then Inr (True, [])
           else Inr (False, ''Bad trimmed value: '' @ quote actual @ [LF]))"

definition testTrimWhitespace0 :: "(nat \<Rightarrow> bool) \<Rightarrow> test" where
  "testTrimWhitespace0 malloc_ok =
     trim_test malloc_ok (''   Something in between  '' @ [LF]) ''Something in between''"

definition testTrimWhitespace1 :: "(nat \<Rightarrow> bool) \<Rightarrow> test" where
  "testTrimWhitespace1 malloc_ok = trim_test malloc_ok ''var'' ''var''"

definition testAllWhitespace :: "(nat \<Rightarrow> bool) \<Rightarrow> test" where
  "testAllWhitespace malloc_ok =
     bindR (trimWhitespace malloc_ok
         (''   '' @ [CHR 0x09] @ '' '' @ [CHR 0x0B] @ '' '' @ [CHR 0x0C] @ '' '' @ [CR] @ ''  '' @ [LF]))
       (\<lambda>actual. Inr (actual = Some [], []))"

definition testCommentLine :: test where
  "testCommentLine = Inr (\<not> isConfigLine (''# this is a comment'' @ [LF]), [])"

definition testConfigLine :: test where
  "testConfigLine = Inr (isConfigLine (''var = 10'' @ [LF]), [])"

definition testNotConfigLine :: test where
  "testNotConfigLine = Inr (\<not> isConfigLine (''var'' @ [LF]), [])"

text \<open>
  The common body of the tests of splitting; \<open>key\<close> and \<open>value\<close> are the contents of the
  two uninitialised arrays of 256 bytes.
\<close>

definition split_test :: "(nat \<Rightarrow> bool) \<Rightarrow> string \<Rightarrow> string \<Rightarrow> string \<Rightarrow> test" where
  "split_test malloc_ok line key value =
     bindR (splitConfigLine malloc_ok line 256 key 256 value) (\<lambda>(ok, key, value).
       if \<not> ok then Inr (False, ''splitConfigLine returned false'' @ [LF])
       else if ''var'' \<noteq> key then
         Inr (False, ''Bad key. Expected: '' @ quote ''var'' @ '' Actual: '' @ quote key @ [LF])
       else if ''10'' \<noteq> value then
         Inr (False, ''Bad value. Expected: '' @ quote ''10'' @ '' Actual: '' @ quote value @ [LF])
       else Inr (True, []))"

definition testSplitLine0 :: "(nat \<Rightarrow> bool) \<Rightarrow> string \<Rightarrow> string \<Rightarrow> test" where
  "testSplitLine0 malloc_ok = split_test malloc_ok (''var = 10'' @ [LF])"

definition testSplitLine1 :: "(nat \<Rightarrow> bool) \<Rightarrow> string \<Rightarrow> string \<Rightarrow> test" where
  "testSplitLine1 malloc_ok = split_test malloc_ok (''var=10'' @ [LF])"

definition testParseBool :: test where
  "testParseBool = Inr
     (if \<not> parseBool (Some ''true'') then (False, quote ''true'' @ '' is not true'' @ [LF])
      else if \<not> parseBool (Some ''True'') then (False, quote ''True'' @ '' is not true'' @ [LF])
      else if \<not> parseBool (Some ''TRUE'') then (False, quote ''TRUE'' @ '' is not true'' @ [LF])
      else if parseBool (Some ''false'') then (False, quote ''false'' @ '' is not false'' @ [LF])
      else if parseBool (Some ''blort'') then (False, quote ''blort'' @ '' is not false'' @ [LF])
      else if parseBool (Some []) then (False, quote [] @ '' is not false'' @ [LF])
      else if parseBool None then (False, ''NULL is not false'' @ [LF])
      else if parseBool None then (False, ''0 is not false'' @ [LF])
      else (True, []))"

text \<open>\<open>main\<close>: the tests in order, and the exit status.\<close>

fun run_tests :: "(string \<times> test) list \<Rightarrow> nat \<Rightarrow> string \<Rightarrow> fault + nat \<times> string" where
  "run_tests [] retval out = Inr (retval, out)"
| "run_tests ((name, test) # tests) retval out =
     bindR test (\<lambda>(ok, said).
       if \<not> ok then
         run_tests tests 1 (out @ name @ '':'' @ [LF] @ said @ [CHR 0x09] @ ''FAILED'' @ [LF])
       else
         run_tests tests retval (out @ name @ '':'' @ [LF] @ said @ [CHR 0x09] @ ''PASSED'' @ [LF]))"

definition parser_tests ::
  "(nat \<Rightarrow> bool) \<Rightarrow> (string \<times> string) \<Rightarrow> (string \<times> string) \<Rightarrow> (string \<times> test) list" where
  "parser_tests malloc_ok junk0 junk1 =
     [(''testParseBool'', testParseBool),
      (''testAllWhitespace'', testAllWhitespace malloc_ok),
      (''testTrimWhitespace0'', testTrimWhitespace0 malloc_ok),
      (''testTrimWhitespace1'', testTrimWhitespace1 malloc_ok),
      (''testCommentLine'', testCommentLine),
      (''testConfigLine'', testConfigLine),
      (''testNotConfigLine'', testNotConfigLine),
      (''testSplitLine0'', testSplitLine0 malloc_ok (fst junk0) (snd junk0)),
      (''testSplitLine1'', testSplitLine1 malloc_ok (fst junk1) (snd junk1))]"

definition test_main ::
  "(nat \<Rightarrow> bool) \<Rightarrow> (string \<times> string) \<Rightarrow> (string \<times> string) \<Rightarrow> fault + nat \<times> string" where
  "test_main malloc_ok junk0 junk1 = run_tests (parser_tests malloc_ok junk0 junk1) 0 []"

section \<open>Lemmas\<close>

lemma run_tests_pass:
  "list_all (\<lambda>(name, test). test = Inr (True, [])) tests \<Longrightarrow>
    run_tests tests retval out = Inr (retval, out @ concat (map (\<lambda>(name, test).
      name @ '':'' @ [LF] @ [CHR 0x09] @ ''PASSED'' @ [LF]) tests))"
  by (induction tests arbitrary: out) auto

text \<open>The exit status tells whether all tests succeeded.\<close>

lemma run_tests_status:
  "run_tests tests retval out = Inr (r, out') \<Longrightarrow>
    r = (if list_all (\<lambda>(name, test). \<exists>said. test = Inr (True, said)) tests then retval else 1)"
proof (induction tests arbitrary: retval out)
  case (Cons x tests)
  obtain name test where "x = (name, test)" by (cases x) auto
  with Cons.prems obtain ok said out1 where
    "test = Inr (ok, said)" "run_tests tests (if ok then retval else 1) out1 = Inr (r, out')"
    by (cases test) (auto split: if_splits)
  with Cons.IH [OF this(2)] \<open>x = (name, test)\<close> show ?case by (auto split: if_splits)
qed simp

lemma tests_pass:
  "testParseBool = Inr (True, [])" "testAllWhitespace (\<lambda>_. True) = Inr (True, [])"
  "testTrimWhitespace0 (\<lambda>_. True) = Inr (True, [])" "testTrimWhitespace1 (\<lambda>_. True) = Inr (True, [])"
  "testCommentLine = Inr (True, [])" "testConfigLine = Inr (True, [])" "testNotConfigLine = Inr (True, [])"
  "testSplitLine0 (\<lambda>_. True) k v = Inr (True, [])" "testSplitLine1 (\<lambda>_. True) k v = Inr (True, [])"
  by code_simp+

section \<open>Properties\<close>

text \<open>The repository's own tests of the parser succeed, whatever the uninitialised buffers hold:
  each is reported as passed, nothing else is printed, and the exit status is zero.\<close>

theorem parser_tests_pass:
  "test_main (\<lambda>_. True) junk0 junk1 = Inr (0, concat (map (\<lambda>name. name @ '':'' @ [LF, CHR 0x09] @ ''PASSED'' @ [LF])
    [''testParseBool'', ''testAllWhitespace'', ''testTrimWhitespace0'', ''testTrimWhitespace1'',
     ''testCommentLine'', ''testConfigLine'', ''testNotConfigLine'', ''testSplitLine0'', ''testSplitLine1'']))"
  unfolding test_main_def parser_tests_def tests_pass by (subst run_tests_pass) simp_all

text \<open>A build whose tests cannot get memory says so, without a fault.\<close>

theorem parser_tests_without_memory:
  "\<exists>text. test_main (\<lambda>_. False) junk0 junk1 = Inr (1, text)"
proof -
  have "trimWhitespace (\<lambda>_. False) s = Inr None" for s
    by (simp add: trimWhitespace_def Let_def)
  moreover have "splitConfigLine (\<lambda>_. False) l n k m v = Inr (False, k, v)" for l n k m v
    by (auto simp: splitConfigLine_def Let_def split: option.splits)
  ultimately show ?thesis
    by (simp add: test_main_def parser_tests_def testAllWhitespace_def tests_pass
      testTrimWhitespace0_def testTrimWhitespace1_def trim_test_def testSplitLine0_def
      testSplitLine1_def split_test_def)
qed

end
