(* ===== verification/Getopt_Test.thy ===== *)
theory Getopt_Test
  imports Getopt_Parse
begin

text \<open>
  The two test programs of the option scanner, the \<open>main\<close> functions that
  \<^verbatim>\<open>getopt.c\<close> and \<^verbatim>\<open>getopt1.c\<close> compile under
  \<^verbatim>\<open>TEST\<close>. They are clients of the scanner as the program's own loop is: what they
  print is related to the reading of the command line of \<^verbatim>\<open>Getopt_Parse\<close>.
\<close>

section \<open>The code\<close>

text \<open>
  The locals of \<open>main\<close>, the scanner's variables and the calls of \<open>printf\<close>, one
  element for each.
\<close>

record test_state =
  tested :: scanner_state
  digit_optind :: nat
  printed :: "string list"

type_synonym test_action = "test_state \<Rightarrow> (stop + unit) \<times> test_state"

definition test_printf :: "string \<Rightarrow> test_action" where
  "test_printf s t = (Inr (), t\<lparr>printed := printed t @ [s]\<rparr>)"

text \<open>\<open>%s\<close> with \<open>optarg\<close>: a null pointer must not be printed.\<close>

definition print_value :: "char \<Rightarrow> test_action" where
  "print_value c t =
     (case optarg (tested t) of
        None \<Rightarrow> (Inl (Faulted Null_Deref), t)
      | Some a \<Rightarrow> test_printf (''option '' @ [c] @ '' with value `'' @ a @ [CHR 0x27, LF]) t)"

text \<open>The conversion \<open>%o\<close> of an \<open>int\<close>, as an unsigned number of 32 bits.\<close>

fun oct :: "nat \<Rightarrow> string" where
  "oct n = (if n < 8 then [digit_char n] else oct (n div 8) @ [digit_char (n mod 8)])"

declare oct.simps [simp del]

definition print_code :: "int \<Rightarrow> test_action" where
  "print_code c =
     test_printf (''?? getopt returned character code 0'' @ oct (nat (c mod 2 ^ 32)) @ '' ??'' @ [LF])"

definition digits_apart :: string where
  "digits_apart = ''digits occur in two different argv-elements.'' @ [LF]"

text \<open>The case of the digits; \<open>this\<close> is \<open>this_option_optind\<close>.\<close>

definition print_digit :: "int \<Rightarrow> nat \<Rightarrow> test_action" where
  "print_digit c this t =
     (let t = (if digit_optind t \<noteq> 0 \<and> digit_optind t \<noteq> this
               then t\<lparr>printed := printed t @ [digits_apart]\<rparr> else t) in
      test_printf (''option '' @ [char_of c, LF]) (t\<lparr>digit_optind := this\<rparr>))"

definition is_digit :: "int \<Rightarrow> bool" where
  "is_digit c \<longleftrightarrow> char_int (CHR ''0'') \<le> c \<and> c \<le> char_int (CHR ''9'')"

text \<open>The switch of \<^verbatim>\<open>getopt.c\<close>.\<close>

definition getopt_switch :: "int \<Rightarrow> nat \<Rightarrow> test_action" where
  "getopt_switch c this t =
     (if is_digit c then print_digit c this t
      else if c = char_int (CHR ''a'') then test_printf (''option a'' @ [LF]) t
      else if c = char_int (CHR ''b'') then test_printf (''option b'' @ [LF]) t
      else if c = char_int (CHR ''c'') then print_value (CHR ''c'') t
      else if c = char_int (CHR ''?'') then (Inr (), t)
      else print_code c t)"

text \<open>
  The table of \<^verbatim>\<open>getopt1.c\<close>, without the null entry that ends it, and its switch:
  printing a name at or behind that entry would go wrong.
\<close>

definition test_options :: "option_entry list" where
  "test_options =
     [\<lparr>opt_name = ''add'', has_arg = 1, opt_flag = None, opt_val = 0\<rparr>,
      \<lparr>opt_name = ''append'', has_arg = 0, opt_flag = None, opt_val = 0\<rparr>,
      \<lparr>opt_name = ''delete'', has_arg = 1, opt_flag = None, opt_val = 0\<rparr>,
      \<lparr>opt_name = ''verbose'', has_arg = 0, opt_flag = None, opt_val = 0\<rparr>,
      \<lparr>opt_name = ''create'', has_arg = 0, opt_flag = None, opt_val = 0\<rparr>,
      \<lparr>opt_name = ''file'', has_arg = 1, opt_flag = None, opt_val = 0\<rparr>]"

definition print_long :: test_action where
  "print_long t =
     (let i = longind (tested t) in
      if i < length test_options then
        bindM (test_printf (''option '' @ opt_name (test_options ! i)))
          (\<lambda>_. bindM (case optarg (tested t) of
             None \<Rightarrow> (\<lambda>t. (Inr (), t))
           | Some a \<Rightarrow> test_printf ('' with arg '' @ a))
          (\<lambda>_. test_printf [LF])) t
      else (Inl (Faulted (if i = length test_options then Null_Deref else Out_Of_Bounds)), t))"

definition getopt1_switch :: "int \<Rightarrow> nat \<Rightarrow> test_action" where
  "getopt1_switch c this t =
     (if c = 0 then print_long t
      else if is_digit c then print_digit c this t
      else if c = char_int (CHR ''a'') then test_printf (''option a'' @ [LF]) t
      else if c = char_int (CHR ''b'') then test_printf (''option b'' @ [LF]) t
      else if c = char_int (CHR ''c'') then print_value (CHR ''c'') t
      else if c = char_int (CHR ''d'') then print_value (CHR ''d'') t
      else if c = char_int (CHR ''?'') then (Inr (), t)
      else print_code c t)"

text \<open>
  The loop, which both programs share: \<open>call\<close> is the call of the scanner and
  \<open>switch\<close> the switch on its value.
\<close>

partial_function (option) test_loop :: "(scanner_state \<Rightarrow> (stop + int) \<times> scanner_state) \<Rightarrow>
    (int \<Rightarrow> nat \<Rightarrow> test_action) \<Rightarrow> test_state \<Rightarrow> ((stop + unit) \<times> test_state) option" where
  "test_loop call switch t =
     (let this = (if optind (tested t) \<noteq> 0 then optind (tested t) else 1) in
      case call (tested t) of
        (Inl e, s) \<Rightarrow> Some (Inl e, t\<lparr>tested := s\<rparr>)
      | (Inr c, s) \<Rightarrow>
          if c = - 1 then Some (Inr (), t\<lparr>tested := s\<rparr>)
          else
            (case switch c this (t\<lparr>tested := s\<rparr>) of
               (Inl e, t) \<Rightarrow> Some (Inl e, t)
             | (Inr _, t) \<Rightarrow> test_loop call switch t))"

declare test_loop.simps [code]

text \<open>What follows the loop.\<close>

function print_operands :: "test_state \<Rightarrow> test_state" where
  "print_operands t =
     (let s = tested t in
      if optind s < length (argv s) then
        print_operands (t\<lparr>printed := printed t @ [argv s ! optind s @ '' ''],
                           tested := s\<lparr>optind := optind s + 1\<rparr>\<rparr>)
      else t)"
  by pat_completeness auto
termination
  by (relation "measure (\<lambda>t. length (argv (tested t)) - optind (tested t))") (auto simp: Let_def)

declare print_operands.simps [simp del]

definition test_end :: test_action where
  "test_end t =
     (let t = (if optind (tested t) < length (argv (tested t)) then
                 let t = print_operands (t\<lparr>printed := printed t @ [''non-option ARGV-elements: '']\<rparr>) in
                 t\<lparr>printed := printed t @ [[LF]]\<rparr>
               else t) in
      (Inl (Exited 0), t))"

definition test_program :: "(scanner_state \<Rightarrow> (stop + int) \<times> scanner_state) \<Rightarrow>
    (int \<Rightarrow> nat \<Rightarrow> test_action) \<Rightarrow> string list \<Rightarrow> ((stop + unit) \<times> test_state) option" where
  "test_program call switch v =
     map_option (\<lambda>(r, t). case r of Inl e \<Rightarrow> (Inl e, t) | Inr _ \<Rightarrow> test_end t)
       (test_loop call switch \<lparr>tested = getopt_start v, digit_optind = 0, printed = []\<rparr>)"

definition test_optstring :: string where
  "test_optstring = ''abc:d:0123456789''"

text \<open>The two programs, for a value of \<open>POSIXLY_CORRECT\<close> in the environment.\<close>

definition getopt_test :: "string option \<Rightarrow> string list \<Rightarrow> ((stop + unit) \<times> test_state) option" where
  "getopt_test P = test_program (getopt P test_optstring) getopt_switch"

definition getopt1_test :: "string option \<Rightarrow> string list \<Rightarrow> ((stop + unit) \<times> test_state) option" where
  "getopt1_test P =
     test_program (\<lambda>g. getopt_long P test_optstring test_options (g\<lparr>longind := 0\<rparr>)) getopt1_switch"
section \<open>The programs end\<close>

text \<open>
  What a client of the scanner needs for its loop to end: each call keeps the scanner well formed
  and uses up some of the arguments, and the switch neither stops nor touches the scanner.
\<close>

locale option_client =
  fixes call :: "scanner_state \<Rightarrow> (stop + int) \<times> scanner_state"
    and switch :: "int \<Rightarrow> nat \<Rightarrow> test_action"
  assumes call_progress: "getopt_wf s \<Longrightarrow> \<exists>c s'. call s = (Inr c, s') \<and> getopt_wf s'
      \<and> (c \<noteq> - 1 \<longrightarrow> scan_left s' < scan_left s)"
    and switch_goes_on: "getopt_wf s \<Longrightarrow> call s = (Inr c, tested t) \<Longrightarrow> c \<noteq> - 1 \<Longrightarrow>
      \<exists>t'. switch c this t = (Inr (), t') \<and> tested t' = tested t"
begin

lemma loop_ends:
  "getopt_wf (tested t) \<Longrightarrow> \<exists>t'. test_loop call switch t = Some (Inr (), t') \<and> getopt_wf (tested t')"
proof (induction "scan_left (tested t)" arbitrary: t rule: less_induct)
  case less
  from call_progress [OF less.prems] obtain c s where s: "call (tested t) = (Inr c, s)" "getopt_wf s"
    "c \<noteq> - 1 \<longrightarrow> scan_left s < scan_left (tested t)" by blast
  show ?case
  proof (cases "c = - 1")
    case True
    with s show ?thesis by (subst test_loop.simps) simp
  next
    case False
    with switch_goes_on [OF less.prems, of c "t\<lparr>tested := s\<rparr>"] s(1) obtain t' where
      "switch c (if optind (tested t) \<noteq> 0 then optind (tested t) else 1) (t\<lparr>tested := s\<rparr>) = (Inr (), t')"
      "tested t' = s" by auto
    with less.hyps [of t'] s False show ?thesis by (subst test_loop.simps) auto
  qed
qed

lemma program_ends:
  assumes "v \<noteq> []"
  shows "\<exists>t. test_program call switch v = Some (Inl (Exited 0), t)"
proof -
  have "getopt_wf (getopt_start v)"
    using assms by (auto simp: getopt_wf_def getopt_start_def Suc_le_eq)
  then obtain t where "test_loop call switch \<lparr>tested = getopt_start v, digit_optind = 0, printed = []\<rparr>
      = Some (Inr (), t)"
    using loop_ends [of "\<lparr>tested = getopt_start v, digit_optind = 0, printed = []\<rparr>"] by auto
  then show ?thesis by (simp add: test_program_def test_end_def)
qed

end

lemma getopt_wf_longind [simp]: "getopt_wf (g\<lparr>longind := i\<rparr>) = getopt_wf g"
  "scan_left (g\<lparr>longind := i\<rparr>) = scan_left g"
  by (simp_all add: getopt_wf_def scan_left_def unread_def ordered_def)

lemma test_optstring_facts:
  "no_w test_optstring" "c_at test_optstring 0 \<noteq> CHR ''-''" "c_at test_optstring 0 \<noteq> CHR ''+''"
  "c_at test_optstring 0 \<noteq> CHR '':''" "my_index test_optstring NUL = None"
  by (simp_all add: test_optstring_def no_w_def c_at_def)

text \<open>A value that is an option with a required argument comes with one, whatever table there is.\<close>

lemma test_argument:
  assumes "getopt_internal P w lo test_optstring ps g = (Inr (char_int c), s)" "getopt_wf g"
    "c \<in> {CHR ''c'', CHR ''d''}" "\<And>qs. ps = Some qs \<Longrightarrow> qs = test_options"
  shows "optarg s \<noteq> None"
proof -
  have c: "char_int c \<notin> {- 1, 1}" "c \<noteq> CHR ''?''" "kind_of test_optstring c = Req_Arg" "char_int c \<noteq> 0"
    using assms(3) by (auto simp: char_int_def kind_of_def test_optstring_def c_at_def)
  from getopt_internal_decodes [OF assms(1,2) test_optstring_facts(1-3) c(1)]
  obtain k pe where k: "optind k < length (argv k)" "unread k \<noteq> []"
    "decode_element lo pe w test_optstring ps k = (Inr (char_int c), s)" .
  have "list_all (\<lambda>p. opt_flag p = None \<and> (opt_val p = char_int c \<longrightarrow> has_arg p = 1)) test_options"
    using c(4) by (simp add: test_options_def)
  with decode_optarg [OF k(3) test_optstring_facts(1) k(1,2) c(3,2)] assms(4) test_optstring_facts(4)
  show ?thesis by blast
qed

text \<open>The index of a long option is one of the table.\<close>

lemma match_long_index:
  "match_long lo s n i pf amb ps = (Some (j, p), x, y) \<Longrightarrow> j < i + length ps \<or> pf = Some (j, p)"
  by (induction lo s n i pf amb ps rule: match_long.induct)
    (fastforce split: if_splits option.splits prod.splits)+

lemma long_option_index:
  assumes "long_option lo pe True os ps this s g = (Inr (Some v), g')" "v \<noteq> missing_arg os"
    "v \<noteq> char_int (CHR ''?'')"
  shows "longind g' < length ps"
proof -
  obtain found exact amb where m: "match_long lo s (length (name_part s)) 0 None False ps = (found, exact, amb)"
    by (cases "match_long lo s (length (name_part s)) 0 None False ps") auto
  show ?thesis
  proof (cases found)
    case None
    with assms m show ?thesis by (auto simp: long_option_def Let_def split: if_splits)
  next
    case (Some f)
    with m have "fst f < length ps" using match_long_index by (cases f) fastforce
    with assms m Some show ?thesis
      by (auto simp: long_option_def long_found_def long_value_def Let_def
        split: if_splits sum.splits prod.splits option.splits)
  qed
qed

lemma long_value_index:
  assumes "getopt_long P os ps g = (Inr 0, s)" "getopt_wf g" "no_w os" "c_at os 0 \<noteq> CHR ''-''"
    "c_at os 0 \<noteq> CHR ''+''" "my_index os NUL = None"
  shows "longind s < length ps"
proof -
  have z: "char_int NUL = 0" by (simp add: char_int_def)
  with assms(1) have "getopt_internal P True False os (Some ps) g = (Inr (char_int NUL), s)"
    by (simp add: getopt_long_def)
  from getopt_internal_decodes [OF this assms(2-5)] z
  obtain k pe where k: "optind k < length (argv k)" "unread k \<noteq> []"
    "decode_element False pe True os (Some ps) k = (Inr 0, s)" by auto
  from k(2) obtain d rest where nc: "nextchar k = Some (d # rest)"
    by (cases "nextchar k"; cases "the (nextchar k)") (auto simp: unread_def)
  have v: "0 \<noteq> missing_arg os" "0 \<noteq> char_int (CHR ''?'')"
    by (simp_all add: missing_arg_def char_int_def)
  have short: False if "short_option pe True os (Some ps) k = (Inr 0, s)"
  proof -
    have "char_int d = 0 \<and> kind_of os d \<noteq> Bad"
      using that [unfolded short_option_kind [OF nc assms(3)]] v
      by (auto simp: Let_def split: arg_kind.splits if_splits prod.splits sum.splits option.splits)
    with z have "kind_of os NUL \<noteq> Bad" by (metis char_int_inj)
    with assms(6) show False by (simp add: kind_of_def)
  qed
  have none: "h = k" if "long_option False pe True os qs a t k = (Inr None, h)" for qs a t h
    using long_option_decoded [OF k(1), of False pe True os qs a t] that by auto
  show ?thesis
    using k(1,3) short long_option_index [OF _ v]
    by (auto simp: decode_element_def arg_at_def bindM_def dest!: none
      split: option.splits if_splits prod.splits sum.splits)
qed

lemma getopt1_switch_goes_on:
  assumes "c \<in> {char_int (CHR ''c''), char_int (CHR ''d'')} \<Longrightarrow> optarg (tested t) \<noteq> None"
    "c = 0 \<Longrightarrow> longind (tested t) < length test_options"
  shows "\<exists>t'. getopt1_switch c this t = (Inr (), t') \<and> tested t' = tested t"
  using assms
  by (auto simp: getopt1_switch_def print_digit_def print_value_def print_code_def print_long_def
      test_printf_def bindM_def Let_def simp del: char_int_inj split: option.splits)

interpretation getopt_client: option_client "getopt P test_optstring" getopt_switch for P
proof unfold_locales
  fix s c this and t :: test_state
  assume s: "getopt_wf s" "getopt P test_optstring s = (Inr c, tested t)"
  show "\<exists>t'. getopt_switch c this t = (Inr (), t') \<and> tested t' = tested t"
  proof (cases "c = char_int (CHR ''c'')")
    case True
    then show ?thesis
      using test_argument [OF s(2) [unfolded getopt_def True] s(1)]
      by (auto simp: getopt_switch_def print_value_def test_printf_def char_int_def is_digit_def)
  next
    case False
    then show ?thesis
      by (auto simp: getopt_switch_def print_digit_def print_code_def test_printf_def Let_def)
  qed
qed (use getopt_internal_ok test_optstring_facts(1) in \<open>unfold getopt_def, blast\<close>)

interpretation getopt1_client: option_client
  "\<lambda>g. getopt_long P test_optstring test_options (g\<lparr>longind := 0\<rparr>)" getopt1_switch for P
proof unfold_locales
  fix s
  assume "getopt_wf s"
  then show "\<exists>c s'. getopt_long P test_optstring test_options (s\<lparr>longind := 0\<rparr>) = (Inr c, s')
      \<and> getopt_wf s' \<and> (c \<noteq> - 1 \<longrightarrow> scan_left s' < scan_left s)"
    using getopt_internal_ok [OF _ test_optstring_facts(1), of "s\<lparr>longind := 0\<rparr>" P True False "Some test_options"]
    by (auto simp: getopt_long_def)
next
  fix s c this and t :: test_state
  assume "getopt_wf s" "getopt_long P test_optstring test_options (s\<lparr>longind := 0\<rparr>) = (Inr c, tested t)"
  with long_value_index [of P test_optstring test_options "s\<lparr>longind := 0\<rparr>" "tested t"]
    test_argument [of P True False "Some test_options" "s\<lparr>longind := 0\<rparr>" _ "tested t"] test_optstring_facts
  show "\<exists>t'. getopt1_switch c this t = (Inr (), t') \<and> tested t' = tested t"
    by (intro getopt1_switch_goes_on) (auto simp: getopt_long_def)
qed

section \<open>What the programs print\<close>

text \<open>The specification of the output for one event, the remark on digits left aside.\<close>

definition event_lines :: "event \<Rightarrow> string list" where
  "event_lines e =
     (let c = char_of (fst e) in
      if c = CHR ''?'' then []
      else case snd e of
          None \<Rightarrow> [''option '' @ [c, LF]]
        | Some a \<Rightarrow> [''option '' @ [c] @ '' with value `'' @ a @ [CHR 0x27, LF]])"

text \<open>
  The whole output: the remark stands before a digit when \<open>optind\<close>, as it was before the call
  that gave the digit, is not what it was before the call that gave the last digit. The second
  argument has these values of \<open>optind\<close>, the first the one of the last digit, or zero.
\<close>

fun test_lines :: "nat \<Rightarrow> nat list \<Rightarrow> event list \<Rightarrow> string list" where
  "test_lines d (i # is) (e # es) =
     (if is_digit (fst e) then (if d \<noteq> 0 \<and> d \<noteq> i then [digits_apart] else []) @ event_lines e @ test_lines i is es
      else event_lines e @ test_lines d is es)"
| "test_lines d _ _ = []"

text \<open>The values the programs know.\<close>

definition test_value :: "event \<Rightarrow> bool" where
  "test_value e \<longleftrightarrow> fst e = char_int (CHR ''?'')
     \<or> fst e \<in> char_int ` set ''ab0123456789'' \<and> snd e = None
     \<or> fst e \<in> char_int ` set ''cd'' \<and> snd e \<noteq> None"

lemma proper_test_value: "proper test_optstring e \<Longrightarrow> test_value e"
  by (auto simp: proper_def test_value_def kind_of_def test_optstring_def c_at_def missing_arg_def
      split: if_splits)

lemma test_value_not_end: "test_value e \<Longrightarrow> fst e \<noteq> - 1"
  by (auto simp: test_value_def char_int_def)

lemma char_of_char_int [simp]: "(char_of (char_int c) :: char) = c"
  by (metis char_int_mod char_of_mod_256 char_of_char)

lemma getopt1_switch_prints:
  assumes "test_value (c, optarg (tested t))"
  shows "\<exists>t'. getopt1_switch c this t = (Inr (), t') \<and> tested t' = tested t
    \<and> digit_optind t' = (if is_digit c then this else digit_optind t)
    \<and> printed t' = printed t @ (if is_digit c \<and> digit_optind t \<noteq> 0 \<and> digit_optind t \<noteq> this
        then [digits_apart] else []) @ event_lines (c, optarg (tested t))"
proof -
  let ?a = "optarg (tested t)"
  have "list_all (\<lambda>d. is_digit (char_int d) = (d \<in> set ''0123456789'') \<and> char_int d \<noteq> 0) ''?abcd0123456789''"
    by code_simp
  then have digit: "is_digit (char_int d) = (d \<in> set ''0123456789'')" and zero: "char_int d \<noteq> 0"
    if "d \<in> set ''?abcd0123456789''" for d
    using that unfolding list_all_iff by blast+
  consider "c = char_int (CHR ''?'')"
    | d where "c = char_int d" "d \<in> set ''ab0123456789''" "?a = None"
    | d x where "c = char_int d" "d \<in> set ''cd''" "?a = Some x"
    using assms unfolding test_value_def not_None_eq fst_conv snd_conv by blast
  then show ?thesis
  proof cases
    case 1
    with digit [of "CHR ''?''"] zero [of "CHR ''?''"] show ?thesis
      by (simp add: getopt1_switch_def event_lines_def)
  next
    case (2 d)
    have "set ''ab0123456789'' \<subseteq> set ''?abcd0123456789'' - {CHR ''?''}"
      "set ''ab0123456789'' \<subseteq> set ''0123456789'' \<union> {CHR ''a'', CHR ''b''}" by simp_all
    from subsetD [OF this(1) 2(2)] subsetD [OF this(2) 2(2)]
    have m: "d \<in> set ''?abcd0123456789''" "d \<noteq> CHR ''?''" "d \<in> set ''0123456789'' \<or> d \<in> {CHR ''a'', CHR ''b''}"
      unfolding Diff_iff Un_iff by (simp_all only: singleton_iff not_False_eq_True)
    have d: "c \<noteq> 0" "d \<noteq> CHR ''?''" using zero [OF m(1)] m(2) 2(1) by simp_all
    have dig: "\<not> is_digit c \<Longrightarrow> d \<in> {CHR ''a'', CHR ''b''}"
      using m(3) digit [OF m(1)] unfolding 2(1) by blast
    show ?thesis
    proof (cases "is_digit c")
      case True
      with 2(1,3) d(1,2) show ?thesis
        by (simp add: getopt1_switch_def print_digit_def test_printf_def event_lines_def digits_apart_def Let_def)
    next
      case False
      from dig [OF this] have "d = CHR ''a'' \<or> d = CHR ''b''" by simp
      with 2(1,3) False d(1) show ?thesis
        by (auto simp: getopt1_switch_def test_printf_def event_lines_def digits_apart_def)
    qed
  next
    case (3 d x)
    then have d: "d = CHR ''c'' \<or> d = CHR ''d''" by simp
    with 3(1) digit [of "CHR ''c''"] zero [of "CHR ''c''"] digit [of "CHR ''d''"] zero [of "CHR ''d''"]
    have "\<not> is_digit c" "c \<noteq> 0" by auto
    with 3(1,3) d show ?thesis
      by (auto simp: getopt1_switch_def print_value_def test_printf_def event_lines_def digits_apart_def)
  qed
qed

lemma outlook_longind [simp]:
  "outlook posix os ps (g\<lparr>longind := x\<rparr>) = outlook posix os ps g"
  "scanning posix (g\<lparr>longind := x\<rparr>) = scanning posix g"
  by (simp_all add: outlook_def parts_defs scanning_def ordered_def unread_def)

lemma print_operands_eq:
  "optind (tested t) \<le> length (argv (tested t)) \<Longrightarrow>
    printed (print_operands t) = printed t
      @ map (\<lambda>a. a @ '' '') (drop (optind (tested t)) (argv (tested t)))"
proof (induction t rule: print_operands.induct)
  case (1 t)
  show ?case
  proof (cases "optind (tested t) < length (argv (tested t))")
    case True
    with "1.IH" [OF refl True] show ?thesis
      by (subst print_operands.simps) (simp add: Let_def Cons_nth_drop_Suc [symmetric])
  qed (simp add: print_operands.simps)
qed

text \<open>The call of the second program, and \<open>optind\<close> before each of its first calls.\<close>

definition next_call :: "string option \<Rightarrow> scanner_state \<Rightarrow> (stop + int) \<times> scanner_state" where
  "next_call P g = getopt_long P test_optstring test_options (g\<lparr>longind := 0\<rparr>)"

fun optinds :: "nat \<Rightarrow> string option \<Rightarrow> scanner_state \<Rightarrow> nat list" where
  "optinds 0 P g = []"
| "optinds (Suc n) P g = optind g # optinds n P (snd (next_call P g))"

lemma test_loop_prints:
  "scanning posix (tested t) \<Longrightarrow> list_all test_value es \<Longrightarrow>
    outlook posix test_optstring test_options (tested t) = (es, v, i) \<Longrightarrow>
    \<exists>t'. test_loop (next_call P) getopt1_switch t = Some (Inr (), t')
      \<and> argv (tested t') = v \<and> optind (tested t') = i
      \<and> printed t' = printed t @ test_lines (digit_optind t) (optinds (length es) P (tested t)) es"
proof (induction es arbitrary: t)
  case Nil
  let ?s = "(tested t)\<lparr>longind := 0\<rparr>"
  have "scanning posix ?s" "outlook posix test_optstring test_options ?s = ([], v, i)"
    using Nil by simp_all
  from getopt_long_step [OF this(1) test_optstring_facts(1), of P test_options] this(2)
  show ?case by (subst test_loop.simps) (auto simp: agrees_def next_call_def)
next
  case (Cons e es)
  let ?s = "(tested t)\<lparr>longind := 0\<rparr>"
  have "scanning posix ?s" "outlook posix test_optstring test_options ?s = (e # es, v, i)"
    using Cons.prems by simp_all
  from getopt_long_step [OF this(1) test_optstring_facts(1), of P test_options] this(2)
  obtain r s where s: "next_call P (tested t) = (Inr r, s)" "e = (r, optarg s)" "scanning posix s"
    "outlook posix test_optstring test_options s = (es, v, i)"
    by (auto simp: agrees_def next_call_def)
  have i: "(if optind (tested t) \<noteq> 0 then optind (tested t) else 1) = optind (tested t)"
    using Cons.prems(1) by (auto simp: scanning_def ordered_def)
  from getopt1_switch_prints [of r "t\<lparr>tested := s\<rparr>" "optind (tested t)"] s(2) Cons.prems(2) obtain t' where
    t': "getopt1_switch r (optind (tested t)) (t\<lparr>tested := s\<rparr>) = (Inr (), t')" "tested t' = s"
      "digit_optind t' = (if is_digit r then optind (tested t) else digit_optind t)"
      "printed t' = printed t @ (if is_digit r \<and> digit_optind t \<noteq> 0 \<and> digit_optind t \<noteq> optind (tested t)
        then [digits_apart] else []) @ event_lines e"
    by auto
  from test_value_not_end [of e] s(2) Cons.prems(2) have "r \<noteq> - 1" by auto
  with s(1) t'(1) have loop: "test_loop (next_call P) getopt1_switch t = test_loop (next_call P) getopt1_switch t'"
    by (subst test_loop.simps) (simp only: Let_def i, simp)
  have "test_lines (digit_optind t) (optinds (length (e # es)) P (tested t)) (e # es)
      = (if is_digit r \<and> digit_optind t \<noteq> 0 \<and> digit_optind t \<noteq> optind (tested t) then [digits_apart] else [])
        @ event_lines e @ test_lines (digit_optind t') (optinds (length es) P (tested t')) es"
    using s(1,2) t'(2,3) by simp
  with Cons.IH [of t'] t' s Cons.prems(2) show ?case by (simp add: loop)
qed

lemma next_call_entered:
  assumes "v \<noteq> []"
  shows "next_call P (getopt_start v) = next_call P (entered P v)"
    "optinds n P (getopt_start v) = optinds n P (entered P v)"
proof -
  have start: "(getopt_start v)\<lparr>longind := 0\<rparr> = getopt_start v" "(entered P v)\<lparr>longind := 0\<rparr> = entered P v"
    "optind (getopt_start v) = optind (entered P v)"
    by (simp_all add: entered_def getopt_start_def)
  show same: "next_call P (getopt_start v) = next_call P (entered P v)"
    using getopt_first_call [OF assms test_optstring_facts(2,3), of P test_options]
    by (simp only: next_call_def start)
  show "optinds n P (getopt_start v) = optinds n P (entered P v)"
    by (cases n) (simp_all only: optinds.simps same start)
qed

lemma test_program_entered:
  assumes "v \<noteq> []"
  shows "test_loop (next_call P) getopt1_switch
      \<lparr>tested = getopt_start v, digit_optind = 0, printed = []\<rparr>
    = test_loop (next_call P) getopt1_switch
      \<lparr>tested = entered P v, digit_optind = 0, printed = []\<rparr>"
proof -
  have "optind (getopt_start v) = 1" "optind (entered P v) = 1"
    by (simp_all add: entered_def getopt_start_def)
  then show ?thesis
    using next_call_entered(1) [OF assms, of P]
    by (subst (1 2) test_loop.simps) (simp add: Let_def split: prod.splits sum.splits)
qed

lemma getopt1_test_next_call: "getopt1_test P = test_program (next_call P) getopt1_switch"
  by (simp add: getopt1_test_def next_call_def [abs_def])

section \<open>Properties\<close>

text \<open>C23: The test program of \<open>getopt_long\<close> reports a command line whose options come without
  long ones as the direct reading has it, and exits with status zero: it prints one line for each
  option and value, in order, and then the operands. Before a digit it remarks that digits stand in
  two elements exactly when this is not the first digit and \<open>optind\<close> before the call that gave it
  differs from what it was before the call that gave the digit before it.\<close>

theorem test_reports_the_command_line:
  assumes "list_all (\<lambda>a. NUL \<notin> set a) (p # args)"
    "scan (P \<noteq> None) test_optstring test_options args = (es, options, operands)"
    "list_all (\<lambda>e. fst e \<noteq> 0) es"
  shows "\<exists>t. getopt1_test P (p # args) = Some (Inl (Exited 0), t)
    \<and> printed t = test_lines 0 (optinds (length es) P (getopt_start (p # args))) es
        @ (if operands = [] then []
           else [''non-option ARGV-elements: ''] @ map (\<lambda>a. a @ '' '') operands @ [[LF]])"
proof -
  have "list_all (\<lambda>e. proper test_optstring e \<or> fst e = 0) es"
    using scan_values [OF assms(2)] by (auto simp: test_options_def list_all_iff)
  with assms(3) have es: "list_all test_value es" using proper_test_value by (auto simp: list_all_iff)
  from test_loop_prints [OF _ es, of "P \<noteq> None" "\<lparr>tested = entered P (p # args), digit_optind = 0, printed = []\<rparr>"
      "p # options @ operands" "1 + length options" P] entered_scanning [of "p # args" P]
    entered_outlook [of "P \<noteq> None" test_optstring test_options P p args] assms(1,2)
  obtain t where t: "test_loop (next_call P) getopt1_switch
      \<lparr>tested = getopt_start (p # args), digit_optind = 0, printed = []\<rparr> = Some (Inr (), t)"
    "argv (tested t) = p # options @ operands" "optind (tested t) = 1 + length options"
    "printed t = test_lines 0 (optinds (length es) P (getopt_start (p # args))) es"
    by (auto simp: test_program_entered next_call_entered(2))
  with print_operands_eq [of "t\<lparr>printed := printed t @ [''non-option ARGV-elements: '']\<rparr>"]
  show ?thesis
    by (auto simp: getopt1_test_next_call test_program_def test_end_def Let_def)
qed

theorem test_reports_the_command_line_witness:
  "\<exists>t. getopt1_test None [''p'', ''x'', ''-12d'', ''v'', ''-q''] = Some (Inl (Exited 0), t)
    \<and> printed t = [''option 1'' @ [LF], digits_apart, ''option 2'' @ [LF],
        ''option d with value `v'' @ [CHR 0x27, LF], ''non-option ARGV-elements: '', ''x '', [LF]]"
proof -
  let ?es = "[(char_int (CHR ''1''), None), (char_int (CHR ''2''), None),
    (char_int (CHR ''d''), Some ''v''), (char_int (CHR ''?''), None)]"
  let ?v = "[''p'', ''x'', ''-12d'', ''v'', ''-q'']"
  have "scan (None \<noteq> (None :: string option)) test_optstring test_options [''x'', ''-12d'', ''v'', ''-q'']
      = (?es, [''-12d'', ''v'', ''-q''], [''x''])" "list_all (\<lambda>e. fst e \<noteq> 0) ?es"
    by (simp_all add: scan.simps nonoption_p_def c_at_def element_events_def kind_of_def test_optstring_def
        char_int_def)
  from test_reports_the_command_line [OF _ this, of "''p''"] obtain t where
    t: "getopt1_test None ?v = Some (Inl (Exited 0), t)"
      "printed t = test_lines 0 (optinds (length ?es) None (getopt_start ?v)) ?es
        @ [''non-option ARGV-elements: '', ''x '', [LF]]"
    by (force simp del: optinds.simps test_lines.simps list.size)
  have "optinds (length ?es) None (getopt_start ?v) = [1, 2, 2, 4]" by code_simp
  moreover have "is_digit (char_int (CHR ''1''))" "is_digit (char_int (CHR ''2''))" "\<not> is_digit (char_int (CHR ''d''))"
    "\<not> is_digit (char_int (CHR ''?''))"
    by (simp_all add: char_int_def is_digit_def)
  ultimately show ?thesis using t by (simp add: event_lines_def del: optinds.simps list.size)
qed

text \<open>Neither test program faults or goes on for ever, whatever it is given.\<close>

theorem test_programs_end:
  assumes "v \<noteq> []"
  shows "(\<exists>t. getopt_test P v = Some (Inl (Exited 0), t)) \<and> (\<exists>t. getopt1_test P v = Some (Inl (Exited 0), t))"
  unfolding getopt_test_def getopt1_test_def
  using getopt_client.program_ends [OF assms] getopt1_client.program_ends [OF assms] by blast

text \<open>The remark on digits comes for a single element, too, when an operand stands before it:
  \<open>optind\<close> is not its index until the operand has been skipped.\<close>

lemma test_loop_step:
  "call (tested t) = (Inr c, s) \<Longrightarrow> c \<noteq> - 1 \<Longrightarrow> optind (tested t) = Suc i \<Longrightarrow>
    switch c (Suc i) (t\<lparr>tested := s\<rparr>) = (Inr (), t') \<Longrightarrow>
    test_loop call switch t = test_loop call switch t'"
  "call (tested t) = (Inr (- 1), s) \<Longrightarrow> test_loop call switch t = Some (Inr (), t\<lparr>tested := s\<rparr>)"
  by (subst test_loop.simps; simp)+

theorem digits_of_one_element_reported:
  assumes "nonoption_p w" "NUL \<notin> set p" "NUL \<notin> set w"
  shows "map_option (printed \<circ> snd) (getopt1_test None [p, w, ''-12'']) =
    Some [''option 1'' @ [LF], digits_apart, ''option 2'' @ [LF],
      ''non-option ARGV-elements: '', w @ '' '', [LF]]"
proof -
  let ?v = "[p, w, ''-12'']"
  define call where "call = next_call None"
  define s1 where "s1 = (entered None ?v)\<lparr>optind := 2, first_nonopt := 1, last_nonopt := 2, nextchar := Some ''2''\<rparr>"
  define s2 where "s2 = s1\<lparr>optind := 3, nextchar := Some []\<rparr>"
  note d = call_def next_call_def getopt_long_def getopt_internal_def getopt_enter_def c_at_def advance_def
    clamp_nonopts_def permute_step_def decode_element_def long_syntax_def short_option_def arg_at_def bindM_def
    Let_def entered_def getopt_start_def test_optstring_def
  have skip: "skip_nonoptions ?v (Suc 0) = 2" "skip_nonoptions ?v 3 = 3"
    using assms(1) by (simp_all add: skip_nonoptions.simps nonoption_p_def c_at_def)
  have nul: "NUL \<notin> set p" "NUL \<notin> set w" by fact+
  have opt: "\<not> nonoption_p ''-12''" by (simp add: nonoption_p_def c_at_def)
  have 1: "call (entered None ?v) = (Inr (char_int (CHR ''1'')), s1)"
    using assms(1) by (simp add: d s1_def skip opt)
  have 2: "call s1 = (Inr (char_int (CHR ''2'')), s2)"
    using assms(1) by (simp add: d s1_def s2_def)
  have "scanning False (s2\<lparr>longind := 0\<rparr>)"
    "outlook False test_optstring test_options (s2\<lparr>longind := 0\<rparr>) = ([], [p, ''-12'', w], 2)"
    using nul by (auto simp: s2_def s1_def entered_def getopt_start_def scanning_def ordered_def unread_def
      outlook_def parts_defs numeral_3_eq_3 numeral_2_eq_2)
  from getopt_long_step [OF this(1) test_optstring_facts(1), of None test_options] this(2)
  obtain s3 where 3: "call s2 = (Inr (- 1), s3)" and s3: "argv s3 = [p, ''-12'', w]" "optind s3 = 2"
    by (auto simp: agrees_def call_def next_call_def)
  let ?t = "\<lambda>s i l. \<lparr>tested = s, digit_optind = i, printed = l\<rparr>"
  have dg: "is_digit (char_int (CHR ''1''))" "is_digit (char_int (CHR ''2''))" "char_int (CHR ''1'') \<notin> {0, - 1}"
    "char_int (CHR ''2'') \<notin> {0, - 1}"
    by (simp_all add: char_int_def is_digit_def)
  have p: "getopt1_switch (char_int (CHR ''1'')) (Suc 0) (?t s1 0 []) = (Inr (), ?t s1 1 [''option 1'' @ [LF]])"
    "getopt1_switch (char_int (CHR ''2'')) (Suc 1) (?t s2 1 l) = (Inr (), ?t s2 2 (l @ [digits_apart, ''option 2'' @ [LF]]))"
    for l
    using dg by (simp_all add: getopt1_switch_def print_digit_def test_printf_def)
  have "test_loop call getopt1_switch (?t (entered None ?v) 0 [])
      = test_loop call getopt1_switch (?t s1 1 [''option 1'' @ [LF]])"
    by (rule test_loop_step(1) [where i = 0 and s = s1 and c = "char_int (CHR ''1'')"])
      (use 1 p(1) dg in \<open>simp_all add: entered_def getopt_start_def\<close>)
  moreover have "test_loop call getopt1_switch (?t s1 1 l)
      = test_loop call getopt1_switch (?t s2 2 (l @ [digits_apart, ''option 2'' @ [LF]]))" for l
    by (rule test_loop_step(1) [where i = 1 and s = s2 and c = "char_int (CHR ''2'')"])
      (use 2 p(2) dg in \<open>simp_all add: s1_def\<close>)
  moreover have "test_loop call getopt1_switch (?t s2 2 l) = Some (Inr (), ?t s3 2 l)" for l
    using test_loop_step(2) [of call "?t s2 2 l" s3 getopt1_switch] 3 by simp
  ultimately have loop: "test_loop call getopt1_switch (?t (getopt_start ?v) 0 [])
      = Some (Inr (), ?t s3 2 [''option 1'' @ [LF], digits_apart, ''option 2'' @ [LF]])"
    using test_program_entered [of ?v None, folded call_def] by simp
  show ?thesis
    unfolding getopt1_test_next_call call_def [symmetric] test_program_def loop
    by (simp add: test_end_def s3 print_operands_eq)
qed

text \<open>\<open>getopt.c\<close>'s program declares the option \<open>d\<close> with an argument, as the other
  one does, but has no case for it.\<close>

theorem getopt_test_lacks_d:
  "map_option (printed \<circ> snd) (getopt_test P [p, ''-d'', v]) =
    Some [''?? getopt returned character code 0144 ??'' @ [LF]]"
proof -
  let ?v = "[p, ''-d'', v]"
  let ?t = "\<lambda>s l. \<lparr>tested = s, digit_optind = 0, printed = l\<rparr>"
  define s1 where "s1 = (entered P ?v)\<lparr>optind := 3, optarg := Some v\<rparr>"
  note d = getopt_def getopt_internal_def getopt_enter_def getopt_initialize_def c_at_def advance_def
    clamp_nonopts_def permute_step_def decode_element_def short_option_def short_argument_def arg_at_def
    bindM_def Let_def entered_def getopt_start_def test_optstring_def
  have skip: "skip_nonoptions ?v (Suc 0) = 1" "skip_nonoptions ?v 3 = 3"
    by (simp_all add: skip_nonoptions.simps nonoption_p_def c_at_def)
  have opt: "\<not> nonoption_p ''-d''" by (simp add: nonoption_p_def c_at_def)
  have 1: "getopt P test_optstring (getopt_start ?v) = (Inr (char_int (CHR ''d'')), s1)"
    by (cases P) (simp_all add: d s1_def skip opt)
  obtain s2 where 2: "getopt P test_optstring s1 = (Inr (- 1), s2)" "optind s2 = 3" "length (argv s2) = 3"
    by (cases P) (simp_all add: d s1_def skip opt)
  have dd: "char_int (CHR ''d'') \<noteq> - 1" "\<not> is_digit (char_int (CHR ''d''))"
    by (simp_all add: char_int_def is_digit_def)
  have "oct (nat (char_int (CHR ''d'') mod 2 ^ 32)) = ''144''" by code_simp
  with dd have "getopt_switch (char_int (CHR ''d'')) (Suc 0) (?t s1 [])
      = (Inr (), ?t s1 [''?? getopt returned character code 0144 ??'' @ [LF]])"
    by (simp add: getopt_switch_def print_code_def test_printf_def)
  from test_loop_step(1) [of "getopt P test_optstring" "?t (getopt_start ?v) []" "char_int (CHR ''d'')" s1 0
      getopt_switch] 1 dd(1) this test_loop_step(2) [of "getopt P test_optstring" "?t s1 l" s2 getopt_switch for l] 2(1)
  have "test_loop (getopt P test_optstring) getopt_switch (?t (getopt_start ?v) [])
      = Some (Inr (), ?t s2 [''?? getopt returned character code 0144 ??'' @ [LF]])"
    by (simp add: getopt_start_def)
  with 2(2,3) show ?thesis by (simp add: getopt_test_def test_program_def test_end_def)
qed

end
