(* ===== verification/Spec2Isabelle.thy ===== *)
theory Spec2Isabelle
  imports Program_Safety Parser_Test Getopt_Test
begin

text \<open>
  \<^bold>\<open>A verification development for rootsh\<close>

  \<^bold>\<open>The program.\<close> rootsh runs a shell on a pseudo terminal and logs everything the shell puts
  out, to a file, to syslog, or to both. \<open>main\<close> reads a configuration file and the command
  line, finds out the calling user, the user to run as and the shell, opens the logs and forks; the
  child executes the shell, the parent copies between the real terminal and the pseudo terminal and
  logs, until a signal tells that the child has ended. Then it looks whether the log file was
  tampered with, recovers it if so, and closes the logs.

  \<^bold>\<open>The theories\<close>, in the order they build on each other (functions are those of
  \<^verbatim>\<open>src/rootsh.c\<close> if no file is named):

  \<^item> \<open>Prelude\<close>: C strings and buffers, \<open>snprintf\<close>, decimal numbers; the ways C code
    stops (\<open>Exited\<close>, \<open>Faulted\<close>, \<open>Diverged\<close>) and the two ways of
    sequencing operations that may stop (\<open>bindR\<close> on results, \<open>bindM\<close> on state
    transformers); the interfaces \<open>invariant_machine\<close> and \<open>chunk_sink\<close>.
  \<^item> \<open>Config_Parser\<close>: \<^verbatim>\<open>src/configParser.c\<close>, all of it. What trimming computes, when
    splitting a line goes through a null pointer, that keys and values fit.
  \<^item> \<open>Config_File\<close>: the options as the record \<open>settings\<close>, their values at build time
    and \<open>readConfigFile\<close>. A file of assignments is read as these assignments; a round trip.
  \<^item> \<open>Vt_Filter\<close>: \<open>stripesc\<close> of \<^verbatim>\<open>src/write2syslog.c\<close>, a byte machine that is
    meant to remove escape sequences. The clean copy it makes is clean, and is never used.
  \<^item> \<open>Syslog_Writer\<close>: \<open>write2syslog\<close>, its static variables as the record
    \<open>w2s\<close>. A refinement: every call does what \<open>w2s_spec\<close> says on lists; from it the
    invariant of the static variables, that nothing but newlines is lost, and the numbering.
  \<^item> \<open>Posix_Files\<close>: names, inodes and descriptors, the system calls rootsh makes, and what
    other processes can do to them (\<open>user_step\<close>).
  \<^item> \<open>User_Shells\<close>: \<^verbatim>\<open>src/getusershell.c\<close> and the loop of \<open>setupshell\<close> over it;
    equivalence with the words of the file.
  \<^item> \<open>Rootsh_State\<close>: the file-scope variables as the record \<open>rootsh\<close>, what the host
    answers as the record \<open>host\<close>, and \<open>dologging\<close>. \<open>logging c g\<close> is the
    invariant of a program that logs: the descriptor appends to the remembered inode, which holds
    \<open>c\<close>.
  \<^item> \<open>Log_Files\<close>: \<open>beginlogging\<close>, \<open>endlogging\<close>, \<open>recoverfile\<close>,
    \<open>forceopen\<close>. The copying loop returns (interface \<open>block_copy\<close>, for a disk that
    works and for one that refuses every write) and copies the whole log.
  \<^item> \<open>Log_Session\<close>: a log from opening to closing with output and tampering in between, and
    the properties of the log files.
  \<^item> \<open>Environment\<close>: \<open>saveenv\<close>, \<open>restoreenv\<close> over \<open>getenv\<close> and
    \<open>putenv\<close>. \<open>Basename\<close>: \<^verbatim>\<open>src/basename.c\<close>.
  \<^item> \<open>Setup\<close>: \<open>consume_remaining_args\<close>, \<open>setupusername\<close>, \<open>setupusermode\<close>,
    \<open>setupshell\<close>, \<open>execShell\<close>.
  \<^item> \<open>Session\<close>: \<open>signalHandler\<close>, \<open>logSession\<close> and \<open>finish\<close> as a machine
    whose events are signals, rounds of the loop and the doings of other processes, the relation
    \<open>session_reach\<close> of the states it runs through, and \<open>prepare_session\<close>, the part
    of \<open>main\<close> from the session identifier to the opened logs.
  \<^item> \<open>Forkpty\<close>: the emulation of \<open>forkpty\<close>, for the parent and for the child.
  \<^item> \<open>Getopt\<close>: the bundled GNU option scanner, \<^verbatim>\<open>src/getopt.c\<close>,
    \<^verbatim>\<open>src/getopt1.c\<close> and the table entries of \<^verbatim>\<open>src/gnugetopt.h\<close>. Its static
    variables and \<open>argv\<close>, which it permutes, are the record \<open>scanner_state\<close>. One
    definition per block of \<open>_getopt_internal\<close>, and the segment exchange.
  \<^item> \<open>Getopt_Scan\<close>: the invariant of the scanner; a call never reads outside the arguments,
    permutes them, and uses up input. \<open>Getopt_Parse\<close>: a direct recursive reading of a command
    line (\<open>scan\<close>), and that the calls return exactly its events.
  \<^item> \<open>Options\<close>: the option table, \<open>usage\<close>, \<open>version\<close>, the switch and the loop of
    \<open>main\<close>; from the equivalence of \<open>Getopt_Parse\<close>, what a whole command line does.
  \<^item> \<open>Session_Run\<close>: a session as the run of the loop over a list of events
    (\<open>run_session\<close>): when it ends, when it goes on, and, by the interface \<open>recorder\<close>
    of the prelude, the \<open>transcript\<close> it leaves: log, screen and shell get exactly the bytes
    the events carry.
  \<^item> \<open>Program\<close>: \<open>main\<close> from the compiled settings to the running shell or the watched
    session (\<open>rootsh_main\<close>). Here the components meet: that no shell runs without a log,
    which program the child runs, that a session started by \<open>main\<close> is logged, and a whole run
    up to the end of the child.
  \<^item> \<open>Weakest_Pre\<close>: weakest preconditions for operations that may stop, one equation per
    construct. \<open>Session_Safety\<close>, \<open>Program_Safety\<close>: no event whose texts and names fit
    makes a session fault or hang, whatever the disk does, and \<open>main\<close> gets there without fault on a host that answers
    what the code relies on (\<open>dependable\<close>) and with a configuration it can read
    (\<open>well_configured\<close>); the copying loop gets a third reading of its
    interface, for any state of the disk.
  \<^item> \<open>Parser_Test\<close>: the test program \<^verbatim>\<open>test/testConfigParser.c\<close>, run on the model of
    the parser. \<open>Getopt_Test\<close>: the two test programs of the option scanner, clients of it by
    the interface \<open>option_client\<close>: they end, and print what \<open>scan\<close> reads.

  \<^bold>\<open>How the code is read.\<close> Static and global variables are fields of records that are passed
  and returned; a pointer into a buffer is an offset; a C string is the list of its characters. A
  read or write outside an array, or through a null pointer, is the result \<open>Faulted\<close>, and
  \<open>exit\<close> is \<open>Exited\<close>, so both are visible in every caller. Whether \<open>malloc\<close>
  succeeds is a parameter, a predicate on the size. Loops over text are recursive with a
  termination proof. Loops whose
  end depends on what they call are partial functions: the copying loop of \<open>recoverfile\<close>, where
  not returning is the result \<open>Diverged\<close>, and the option loops of \<open>main\<close> and of the
  scanner's test programs, where it is \<^term>\<open>None\<close>; that they return is proved. No part of the program is modelled with fuel; the
  number of calls in \<open>getopt_calls\<close> is that of a caller who gives up, and the length of the
  unread command line is shown to be enough. The build is one for Linux: the constants
  are those of Linux, \<open>SUCMD\<close> and \<open>HAS_ETC_SHELLS\<close> are parameters. A write to a file
  takes all, a part or none of the bytes, as the disk stands; the disk changes between the steps of
  a session, not within one. Where the program brings its own version of a library
  function (\<open>basename\<close>, \<open>getusershell\<close>), that version is the one modelled.

  \<^bold>\<open>What is shown.\<close> The main line: on a disk that works, with names and texts that fit their
  buffers, the log survives with everything in it whatever the user does to names, as long as he
  does not write into the file and does not block the recovery name, \<open>.tampered\<close>, at the end
  (\<open>session_log_survives\<close>, and for a whole run of the program, where the disk may fail in
  between, \<open>whole_run_is_kept\<close>), the log
  file holds exactly what the shell put out (\<open>screen_is_logged\<close>), and syslog holds the same
  but for newlines (\<open>both_logs_agree\<close>); \<open>program_logs_the_session\<close> says so of a session
  started by \<open>main\<close> from any command line with the file log on, opening text and commands
  included. Reading the command line is equivalent to a
  direct definition (\<open>getopt_reads_the_command_line\<close>, \<open>command_line_is_carried_out\<close>,
  \<open>child_runs_the_command\<close>), and the start of \<open>main\<close> has no loop that goes on for ever
  (\<open>main_ends\<close>); when a shell runs or a session is watched, each log that is on has been opened
  (\<open>no_shell_without_log\<close>); a session ends after a signal and until
  then records every event (\<open>session_ends_after_signal\<close>, \<open>session_is_recorded\<close>), but
  if the disk fails goes on unlogged (\<open>session_outlives_its_log\<close>). On a dependable host, with
  \<open>TERM\<close> set, a well-formed configuration and texts and names that fit their buffers, no run
  reads or writes outside an array, follows a null pointer or hangs (\<open>program_never_faults\<close>,
  \<open>session_never_faults\<close>); the theorems on faults show what
  happens where the name of the log, a command, \<open>TERM\<close> or a line of the configuration file
  does not meet them. Beside it, for each component, what it computes on
  every branch, and the places where the code does not do what it means to: these are theorems
  too, such as \<open>stripesc_changes_nothing\<close>, \<open>tampered_name_overflow\<close>,
  \<open>usermode_without_TERM_faults\<close>, \<open>attached_command_keeps_its_option\<close>,
  \<open>early_end_is_missed\<close>.

  \<^bold>\<open>What is not modelled.\<close> \<open>sigaction\<close> itself, which the model replaces by the
  delivery of signals between steps; the effect of a signal that interrupts a system call other
  than \<open>pselect\<close>; that a call blocks: the \<open>wait\<close> in \<open>finish\<close> is answered at once,
  though after \<open>SIGINT\<close> or \<open>SIGQUIT\<close> the child may live on and rootsh wait for it; a build
  without \<open>SUCMD\<close>, which does not compile; the parts of \<^verbatim>\<open>src/getopt.c\<close> and
  \<^verbatim>\<open>src/getopt1.c\<close> that only the C library compiles (\<open>_LIBC\<close>, non-option flags); the macros and prototypes of the headers. On a host with
  the GNU C library the scanner is the library's, which the bundled one is a copy of.
\<close>

section \<open>Both logs\<close>

lemma log_put_frame:
  assumes "in_session g" "malloc_ok h = (\<lambda>_. True)" "logtosyslog (opts g)"
  shows "in_session (log_put h g c)" "opts (log_put h g c) = opts g"
    "syslogs (log_put h g c) = w2s_put (syslogLogLineCount (opts g)) SYSLOG_PRIO (syslogs g) c"
proof -
  from assms(1) have log: "logging (log_contents g) g" by (simp add: in_session_def)
  from log_put_ok(1) [OF log assms(2), of c] show "in_session (log_put h g c)"
    by (simp add: in_session_def logging_contents)
  from dologging_ok [OF log le_refl assms(2), of c] assms(3)
  show "syslogs (log_put h g c) = w2s_put (syslogLogLineCount (opts g)) SYSLOG_PRIO (syslogs g) c"
    "opts (log_put h g c) = opts g"
    by (auto simp: log_put_def same_session_def same_vars_simps)
qed

lemma log_puts_frame:
  assumes "in_session g" "malloc_ok h = (\<lambda>_. True)" "logtosyslog (opts g)"
  shows "syslogs (foldl (log_put h) g chunks)
    = foldl (w2s_put (syslogLogLineCount (opts g)) SYSLOG_PRIO) (syslogs g) chunks"
  using assms(1,3)
proof (induction chunks arbitrary: g)
  case (Cons c chunks)
  then show ?case by (simp add: log_put_frame [OF Cons.prems(1) assms(2) Cons.prems(2)])
qed simp

text \<open>C12: The two logs agree: output without \<open>NUL\<close> bytes, cut into whatever blocks, makes the
  log file longer by exactly its bytes and what syslog holds, sent lines and the pending one,
  longer by the same bytes without the newlines.\<close>

theorem both_logs_agree:
  assumes "in_session g" "malloc_ok h = (\<lambda>_. True)" "logtosyslog (opts g)"
    "sink_inv (syslogs g)" "list_all (list_all (\<lambda>c. c \<noteq> NUL)) chunks"
    "u = syslogLogLineCount (opts g)" "g' = foldl (log_put h) g chunks"
  shows "log_contents g' = log_contents g @ concat chunks
    \<and> syslog_view u (syslogs g') = syslog_view u (syslogs g) @ no_lf (concat chunks)"
proof -
  have "roomy h = h" using assms(2) by (simp add: roomy_def)
  with file_sink.run_view [OF assms(1), of chunks h] have
    "log_contents g' = log_contents g @ concat chunks"
    by (simp add: assms(7) list_all_iff)
  moreover have "syslog_view u (syslogs g') = syslog_view u (syslogs g) @ no_lf (concat chunks)"
    using syslog_sink.run_view [OF assms(4,5), of u SYSLOG_PRIO]
    by (simp add: assms(6,7) log_puts_frame [OF assms(1-3)])
  ultimately show ?thesis ..
qed

theorem both_logs_agree_witness:
  "log_contents (foldl (log_put sample_host) sample_session [''ls'' @ [CR], [LF] @ ''x''])
      = ''als'' @ [CR, LF] @ ''x''
    \<and> syslog_view True (syslogs (foldl (log_put sample_host) sample_session [''ls'' @ [CR], [LF] @ ''x'']))
      = ''ls'' @ [CR] @ ''x''"
proof -
  have c: "log_contents sample_session = ''a''" by (rule logging_contents [OF logging_sample])
  then have s: "in_session sample_session" using logging_sample by (simp add: in_session_def)
  have w: "sink_inv (syslogs sample_session)"
    using init_w2s_inv by (simp add: sink_inv_def) (simp add: init_w2s_def pending_def)
  from both_logs_agree [OF s _ _ w _ refl refl, of sample_host "[''ls'' @ [CR], [LF] @ ''x'']"] c
  show ?thesis
    by (simp add: linux_settings_def syslog_view_def init_w2s_def pending_def no_lf_def)
qed

end
